(* ===== verification/Prelude.thy ===== *)
theory Prelude
  imports Main "HOL-Library.Word" "HOL-Library.AList"
begin

section \<open>Types, collections and shared lemmas\<close>

text \<open>
  What every component of the development shares: the machine integers of the
  source at their width, little-endian byte strings (\<open>to_le_bytes\<close> and
  \<open>from_le_bytes\<close> of the Rust integers), hash maps as association lists,
  points in time and durations in nanoseconds, and the decimal and hexadecimal
  printing that the error messages use.

  Integers are words, so addition wraps as it does in a release build of the
  crates (no profile of the workspace turns overflow checks on); a theorem that
  needs an addition not to wrap says so as a hypothesis.
\<close>

unbundle bit_operations_syntax

named_theorems word_view \<open>reading a word operation of the model as arithmetic on nat\<close>
named_theorems hm_simps \<open>what a lookup returns after an update of a hash map\<close>
named_theorems byte_simps \<open>lengths and round trips of byte strings\<close>

type_synonym u8 = "8 word"
type_synonym u16 = "16 word"
type_synonym u32 = "32 word"
type_synonym u64 = "64 word"
type_synonym i32 = "32 word"
type_synonym i64 = "64 word"
type_synonym usize = "64 word"
type_synonym bytes = "8 word list"

subsection \<open>Machine arithmetic\<close>

lemma unat_bound: "unat (x :: 'a :: len word) < 2 ^ LENGTH('a)"
  by (rule unsigned_less)

definition saturating_sub :: "u64 \<Rightarrow> u64 \<Rightarrow> u64" where
  "saturating_sub a b = (if a \<le> b then 0 else a - b)"

definition saturating_add :: "u64 \<Rightarrow> u64 \<Rightarrow> u64" where
  "saturating_add a b = (if unat a + unat b < 2 ^ 64 then a + b else - 1)"

lemma unat_saturating_sub [word_view]:
  "unat (saturating_sub a b) = unat a - unat b"
  by (auto simp: saturating_sub_def word_le_nat_alt unat_sub)

lemma unat_saturating_add [word_view]:
  "unat (saturating_add a b) = min (unat a + unat b) (2 ^ 64 - 1)"
proof -
  have "unat (- 1 :: u64) = 2 ^ 64 - 1"
    by (simp add: unsigned_minus_1_eq_mask mask_eq_exp_minus_1)
  then show ?thesis
    by (auto simp: saturating_add_def unat_word_ariths)
qed

lemma unat_add_no_wrap [word_view]:
  "unat a + unat b < 2 ^ 64 \<Longrightarrow> unat (a + b :: u64) = unat a + unat b"
  by (simp add: unat_word_ariths)

lemma unat_inc_less:
  "(a :: u64) < b \<Longrightarrow> unat (a + 1) = unat a + 1"
  using unat_bound [of b] by (intro trans [OF unat_add_no_wrap]) (auto simp: word_less_nat_alt)

lemma unat_dec_pos:
  "0 < unat (a :: u64) \<Longrightarrow> unat (a - 1) = unat a - 1"
  by (simp add: unat_sub word_le_nat_alt)

lemma u64_eq_iff: "(a :: u64) = b \<longleftrightarrow> unat a = unat b"
  by (simp add: word_unat_eq_iff)

lemma unat_u64_less [simp]: "unat (a :: u64) < 18446744073709551616"
  using unat_bound [of a] by simp

lemma unat_u64_bound: "unat (a :: u64) < 2 ^ 64"
  by simp

lemma unat_of_nat_u64: "n < 18446744073709551616 \<Longrightarrow> unat (of_nat n :: u64) = n"
  by (simp add: unat_of_nat take_bit_nat_eq_self)

subsection \<open>Instants and durations\<close>

text \<open>
  \<open>std::time::Instant\<close> and \<open>Duration\<close> count nanoseconds. \<open>as_millis()\<close> is a
  \<open>u128\<close> that the code casts with \<open>as u64\<close>, which keeps the low 64 bits.
\<close>

type_synonym instant = nat
type_synonym duration = nat

definition as_millis_u64 :: "duration \<Rightarrow> u64" where
  "as_millis_u64 d = of_nat (d div 1000000)"

definition from_millis :: "u64 \<Rightarrow> duration" where
  "from_millis ms = unat ms * 1000000"

lemma as_millis_from_millis [simp]: "as_millis_u64 (from_millis ms) = ms"
  by (simp add: as_millis_u64_def from_millis_def)

lemma unat_as_millis:
  "d div 1000000 < 2 ^ 64 \<Longrightarrow> unat (as_millis_u64 d) = d div 1000000"
  by (simp add: as_millis_u64_def unat_of_nat take_bit_nat_eq_self)

subsection \<open>Little-endian byte strings\<close>

fun le_bytes_nat :: "nat \<Rightarrow> nat \<Rightarrow> bytes" where
  "le_bytes_nat 0 n = []"
| "le_bytes_nat (Suc k) n = of_nat n # le_bytes_nat k (n div 256)"

lemma le_bytes_nat_numeral:
  "le_bytes_nat (numeral k) n = of_nat n # le_bytes_nat (pred_numeral k) (n div 256)"
  by (subst numeral_eq_Suc) (rule le_bytes_nat.simps)

fun le_value :: "bytes \<Rightarrow> nat" where
  "le_value [] = 0"
| "le_value (b # bs) = unat b + 256 * le_value bs"

lemma length_le_bytes_nat [byte_simps, simp]: "length (le_bytes_nat k n) = k"
  by (induction k arbitrary: n) auto

lemma le_value_bound: "le_value bs < 256 ^ length bs"
proof (induction bs)
  case Nil
  then show ?case by simp
next
  case (Cons b bs)
  have "unat b < 256"
    using unat_bound [of b] by simp
  with Cons show ?case
    by simp
qed

lemma le_value_le_bytes_nat [byte_simps]: "le_value (le_bytes_nat k n) = n mod 256 ^ k"
proof (induction k arbitrary: n)
  case 0
  then show ?case by simp
next
  case (Suc k)
  have "unat (of_nat n :: u8) = n mod 256"
    by (simp add: unat_of_nat take_bit_eq_mod)
  with Suc show ?case
    by (simp add: mod_mult2_eq add.commute)
qed

lemma le_bytes_nat_le_value [byte_simps]: "le_bytes_nat (length bs) (le_value bs) = bs"
proof (induction bs)
  case Nil
  then show ?case by simp
next
  case (Cons b bs)
  have b: "unat b < 256"
    using unat_bound [of b] by simp
  have "of_nat (unat b + 256 * le_value bs) = (b :: u8)"
    using b by (simp add: word_unat_eq_iff unat_of_nat take_bit_eq_mod del: of_nat_add of_nat_mult)
  moreover have "(unat b + 256 * le_value bs) div 256 = le_value bs"
    using b by simp
  ultimately show ?case
    using Cons by simp
qed

text \<open>
  The contract the wire format relies on: a fixed-width encoding whose decoder
  inverts it. Each integer width of the protocol interprets it below.
\<close>

locale fixed_width =
  fixes width :: nat
    and to_le :: "'a \<Rightarrow> bytes"
    and from_le :: "bytes \<Rightarrow> 'a"
  assumes width_to_le: "length (to_le x) = width"
    and from_to: "from_le (to_le x) = x"
    and to_from: "length bs = width \<Longrightarrow> to_le (from_le bs) = bs"
begin

lemma read_prefix: "from_le (take width (to_le x @ ys)) = x"
  by (simp add: width_to_le from_to)

lemma rest_prefix: "drop width (to_le x @ ys) = ys"
  by (simp add: width_to_le)

lemma inj: "to_le x = to_le y \<longleftrightarrow> x = y"
  by (metis from_to)

lemma onto: "length bs = width \<Longrightarrow> \<exists>x. to_le x = bs"
  using to_from by blast

end

definition u16_to_le :: "u16 \<Rightarrow> bytes" where
  "u16_to_le x = le_bytes_nat 2 (unat x)"
definition u16_from_le :: "bytes \<Rightarrow> u16" where
  "u16_from_le bs = of_nat (le_value bs)"
definition u32_to_le :: "u32 \<Rightarrow> bytes" where
  "u32_to_le x = le_bytes_nat 4 (unat x)"
definition u32_from_le :: "bytes \<Rightarrow> u32" where
  "u32_from_le bs = of_nat (le_value bs)"
definition u64_to_le :: "u64 \<Rightarrow> bytes" where
  "u64_to_le x = le_bytes_nat 8 (unat x)"
definition u64_from_le :: "bytes \<Rightarrow> u64" where
  "u64_from_le bs = of_nat (le_value bs)"

lemma le_value_length_bound: "length bs = k \<Longrightarrow> le_value bs < 256 ^ k"
  using le_value_bound by blast

interpretation le16: fixed_width 2 u16_to_le u16_from_le
proof (unfold_locales, goal_cases)
  case (1 x)
  show ?case by (simp add: u16_to_le_def)
next
  case (2 x)
  show ?case
    using unat_bound [of x] by (simp add: u16_to_le_def u16_from_le_def byte_simps)
next
  case (3 bs)
  then have "unat (of_nat (le_value bs) :: u16) = le_value bs"
    using le_value_length_bound [of bs 2] by (simp add: unat_of_nat take_bit_nat_eq_self)
  with 3 show ?case
    using le_bytes_nat_le_value [of bs] by (simp add: u16_to_le_def u16_from_le_def)
qed

interpretation le32: fixed_width 4 u32_to_le u32_from_le
proof (unfold_locales, goal_cases)
  case (1 x)
  show ?case by (simp add: u32_to_le_def)
next
  case (2 x)
  show ?case
    using unat_bound [of x] by (simp add: u32_to_le_def u32_from_le_def byte_simps)
next
  case (3 bs)
  then have "unat (of_nat (le_value bs) :: u32) = le_value bs"
    using le_value_length_bound [of bs 4] by (simp add: unat_of_nat take_bit_nat_eq_self)
  with 3 show ?case
    using le_bytes_nat_le_value [of bs] by (simp add: u32_to_le_def u32_from_le_def)
qed

interpretation le64: fixed_width 8 u64_to_le u64_from_le
proof (unfold_locales, goal_cases)
  case (1 x)
  show ?case by (simp add: u64_to_le_def)
next
  case (2 x)
  show ?case
    using unat_bound [of x] by (simp add: u64_to_le_def u64_from_le_def byte_simps)
next
  case (3 bs)
  then have "unat (of_nat (le_value bs) :: u64) = le_value bs"
    using le_value_length_bound [of bs 8] by (simp add: unat_of_nat take_bit_nat_eq_self)
  with 3 show ?case
    using le_bytes_nat_le_value [of bs] by (simp add: u64_to_le_def u64_from_le_def)
qed

subsection \<open>Printing numbers\<close>

text \<open>
  \<open>{}\<close> of an unsigned integer, \<open>{:02X}\<close> of a byte and \<open>{:#04X}\<close> of a byte (the
  prefix \<open>0x\<close> counts towards the width 4, so both print two digits).
\<close>

fun show_dec :: "nat \<Rightarrow> string" where
  "show_dec n = (if n < 10 then [char_of (48 + n)] else show_dec (n div 10) @ [char_of (48 + n mod 10)])"

declare show_dec.simps [simp del]

definition hex_digit :: "nat \<Rightarrow> char" where
  "hex_digit n = (if n < 10 then char_of (48 + n) else char_of (55 + n))"

definition show_hex2 :: "u8 \<Rightarrow> string" where
  "show_hex2 b = [hex_digit (unat b div 16), hex_digit (unat b mod 16)]"

subsection \<open>Hash maps as association lists\<close>

text \<open>
  A \<open>HashMap\<close> whose entries the code enumerates is an association list with distinct
  keys; where the code only looks keys up, the components use a map
  \<open>'k \<rightharpoonup> 'v\<close> instead.
\<close>

type_synonym ('k, 'v) hmap = "('k \<times> 'v) list"

definition hm_get :: "('k, 'v) hmap \<Rightarrow> 'k \<Rightarrow> 'v option" where
  "hm_get m k = map_of m k"

definition hm_insert :: "'k \<Rightarrow> 'v \<Rightarrow> ('k, 'v) hmap \<Rightarrow> ('k, 'v) hmap" where
  "hm_insert k v m = AList.update k v m"

definition hm_remove :: "'k \<Rightarrow> ('k, 'v) hmap \<Rightarrow> ('k, 'v) hmap" where
  "hm_remove k m = AList.delete k m"

definition hm_keys :: "('k, 'v) hmap \<Rightarrow> 'k set" where
  "hm_keys m = set (map fst m)"

definition hm_wf :: "('k, 'v) hmap \<Rightarrow> bool" where
  "hm_wf m \<longleftrightarrow> distinct (map fst m)"

text \<open>What the clients of a hash map rely on.\<close>

locale hash_map =
  fixes get :: "'m \<Rightarrow> 'k \<Rightarrow> 'v option"
    and put :: "'k \<Rightarrow> 'v \<Rightarrow> 'm \<Rightarrow> 'm"
    and del :: "'k \<Rightarrow> 'm \<Rightarrow> 'm"
    and size_of :: "'m \<Rightarrow> nat"
    and wf :: "'m \<Rightarrow> bool"
  assumes get_put: "get (put k v m) j = (if j = k then Some v else get m j)"
    and get_del: "get (del k m) j = (if j = k then None else get m j)"
    and wf_put: "wf m \<Longrightarrow> wf (put k v m)"
    and wf_del: "wf m \<Longrightarrow> wf (del k m)"
    and finite_dom: "finite (dom (get m))"
    and size_card: "wf m \<Longrightarrow> size_of m = card (dom (get m))"
begin

lemma dom_put: "dom (get (put k v m)) = insert k (dom (get m))"
  by (auto simp: get_put split: if_splits)

lemma dom_del: "dom (get (del k m)) = dom (get m) - {k}"
  by (auto simp: get_del split: if_splits)

lemma size_put: "wf m \<Longrightarrow> get m k = None \<Longrightarrow> size_of (put k v m) = Suc (size_of m)"
  by (simp add: size_card wf_put dom_put finite_dom domIff)

lemma size_del: "wf m \<Longrightarrow> get m k = Some v \<Longrightarrow> Suc (size_of (del k m)) = size_of m"
  using card_Suc_Diff1 [OF finite_dom, of k m] by (simp add: size_card wf_del dom_del domI)

lemma size_pos: "wf m \<Longrightarrow> get m k = Some v \<Longrightarrow> 0 < size_of m"
  using size_del by fastforce

end

interpretation hm: hash_map hm_get hm_insert hm_remove length hm_wf
proof (unfold_locales, goal_cases)
  case (1 k v m j)
  show ?case by (simp add: hm_get_def hm_insert_def update_conv')
next
  case (2 k m j)
  show ?case by (simp add: hm_get_def hm_remove_def delete_conv')
next
  case (3 m k v)
  then show ?case by (simp add: hm_wf_def hm_insert_def distinct_update)
next
  case (4 m k)
  then show ?case by (simp add: hm_wf_def hm_remove_def distinct_delete)
next
  case (5 m)
  show ?case unfolding hm_get_def [abs_def] by (rule finite_dom_map_of)
next
  case (6 m)
  have "length m = card (set (map fst m))"
    using 6 distinct_card [of "map fst m"] by (simp add: hm_wf_def)
  moreover have "dom (hm_get m) = fst ` set m"
    unfolding hm_get_def [abs_def] by (rule dom_map_of_conv_image_fst)
  ultimately show ?case by simp
qed

lemmas hm_laws [hm_simps] = hm.get_put hm.get_del hm.dom_put hm.dom_del

lemma hm_keys_dom: "hm_keys m = dom (hm_get m)"
  unfolding hm_keys_def hm_get_def [abs_def] by (simp add: dom_map_of_conv_image_fst)

lemma hm_wf_Nil [simp]: "hm_wf []"
  by (simp add: hm_wf_def)

lemma hm_get_Nil [simp]: "hm_get [] k = None"
  by (simp add: hm_get_def)

lemma hm_in_set_get: "hm_wf m \<Longrightarrow> (k, v) \<in> set m \<longleftrightarrow> hm_get m k = Some v"
  by (simp add: hm_wf_def hm_get_def)

text \<open>How a call that may panic ends: its value, the error it returns, or the panic.\<close>

datatype 'a outcome = Ok 'a | Err string | Panic string

end
