(* ===== verification/Wire.thy ===== *)
theory Wire
  imports Prelude
begin

section \<open>The Mill-RPC wire protocol\<close>

text \<open>
  \<^verbatim>\<open>mill-rpc/mill-rpc-core/src\<close>: the status codes and errors of \<^verbatim>\<open>error.rs\<close>, the
  request context of \<^verbatim>\<open>context.rs\<close>, the codec of \<^verbatim>\<open>codec.rs\<close> (over bincode, a
  parameter) and the frame format and the streaming parser of \<^verbatim>\<open>protocol.rs\<close>.
  Buffer offsets and lengths are \<open>nat\<close>: a Rust slice never has more than
  \<open>isize::MAX\<close> bytes, so the \<open>usize\<close> sums of the parser cannot wrap.
\<close>

unbundle bit_operations_syntax

subsection \<open>Errors\<close>

datatype rpc_status =
    Ok
  | Cancelled
  | InvalidArgument
  | NotFound
  | AlreadyExists
  | PermissionDenied
  | Unauthenticated
  | ResourceExhausted
  | Internal
  | Unavailable
  | DeadlineExceeded

primrec show_status :: "rpc_status \<Rightarrow> string" where
  "show_status Ok = ''OK''"
| "show_status Cancelled = ''CANCELLED''"
| "show_status InvalidArgument = ''INVALID_ARGUMENT''"
| "show_status NotFound = ''NOT_FOUND''"
| "show_status AlreadyExists = ''ALREADY_EXISTS''"
| "show_status PermissionDenied = ''PERMISSION_DENIED''"
| "show_status Unauthenticated = ''UNAUTHENTICATED''"
| "show_status ResourceExhausted = ''RESOURCE_EXHAUSTED''"
| "show_status Internal = ''INTERNAL''"
| "show_status Unavailable = ''UNAVAILABLE''"
| "show_status DeadlineExceeded = ''DEADLINE_EXCEEDED''"

record rpc_error =
  status :: rpc_status
  message :: string

definition rpc_error_new :: "rpc_status \<Rightarrow> string \<Rightarrow> rpc_error" where
  "rpc_error_new st msg = \<lparr>status = st, message = msg\<rparr>"

definition internal :: "string \<Rightarrow> rpc_error" where
  "internal msg = rpc_error_new Internal msg"

definition invalid_argument :: "string \<Rightarrow> rpc_error" where
  "invalid_argument msg = rpc_error_new InvalidArgument msg"

definition not_found :: "string \<Rightarrow> rpc_error" where
  "not_found msg = rpc_error_new NotFound msg"

definition method_not_found :: "u16 \<Rightarrow> rpc_error" where
  "method_not_found method_id = rpc_error_new NotFound (''Method not found: '' @ show_dec (unat method_id))"

definition service_not_found :: "u16 \<Rightarrow> rpc_error" where
  "service_not_found service_id = rpc_error_new NotFound (''Service not found: '' @ show_dec (unat service_id))"

definition codec_error :: "string \<Rightarrow> rpc_error" where
  "codec_error msg = rpc_error_new Internal msg"

definition unavailable :: "string \<Rightarrow> rpc_error" where
  "unavailable msg = rpc_error_new Unavailable msg"

definition deadline_exceeded :: "string \<Rightarrow> rpc_error" where
  "deadline_exceeded msg = rpc_error_new DeadlineExceeded msg"

definition show_rpc_error :: "rpc_error \<Rightarrow> string" where
  "show_rpc_error e = ''['' @ show_status (status e) @ ''] '' @ message e"

lemmas rpc_error_defs =
  rpc_error_new_def internal_def invalid_argument_def not_found_def method_not_found_def
  service_not_found_def codec_error_def unavailable_def deadline_exceeded_def

subsection \<open>The request context\<close>

record 'addr rpc_context =
  request_id :: u64
  peer_addr :: "'addr option"
  service_id :: u16
  method_id :: u16

definition rpc_context_new :: "u64 \<Rightarrow> u16 \<Rightarrow> u16 \<Rightarrow> 'addr rpc_context" where
  "rpc_context_new rid sid mid =
     \<lparr>request_id = rid, peer_addr = None, service_id = sid, method_id = mid\<rparr>"

definition with_peer_addr :: "'addr rpc_context \<Rightarrow> 'addr \<Rightarrow> 'addr rpc_context" where
  "with_peer_addr ctx addr = ctx\<lparr>peer_addr := Some addr\<rparr>"

subsection \<open>The codec\<close>

text \<open>
  The codec dispatches on its type, of which there is one. bincode is third-party
  code: its two functions are arguments, an \<open>Inl\<close> carrying the text its error prints.
\<close>

datatype codec_type = Bincode

record codec =
  codec_type :: codec_type

definition codec_bincode :: codec where
  "codec_bincode = \<lparr>codec_type = Bincode\<rparr>"

definition serialize ::
    "('v \<Rightarrow> string + bytes) \<Rightarrow> codec \<Rightarrow> 'v \<Rightarrow> rpc_error + bytes" where
  "serialize bincode_serialize c value =
     (case codec_type c of
        Bincode \<Rightarrow>
          (case bincode_serialize value of
             Inl e \<Rightarrow> Inl (codec_error (''serialize: '' @ e))
           | Inr bs \<Rightarrow> Inr bs))"

definition deserialize ::
    "(bytes \<Rightarrow> string + 'v) \<Rightarrow> codec \<Rightarrow> bytes \<Rightarrow> rpc_error + 'v" where
  "deserialize bincode_deserialize c data =
     (case codec_type c of
        Bincode \<Rightarrow>
          (case bincode_deserialize data of
             Inl e \<Rightarrow> Inl (codec_error (''deserialize: '' @ e))
           | Inr v \<Rightarrow> Inr v))"

subsection \<open>Message types, flags and headers\<close>

definition MAGIC :: bytes where
  "MAGIC = [0x4D, 0x52]"

definition VERSION :: u8 where
  "VERSION = 1"

definition HEADER_SIZE :: nat where
  "HEADER_SIZE = 9"

definition MAX_PAYLOAD_SIZE :: u32 where
  "MAX_PAYLOAD_SIZE = 16 * 1024 * 1024"

datatype message_type = Request | Response | Error | Ping | Pong | Cancel

primrec message_type_u8 :: "message_type \<Rightarrow> u8" where
  "message_type_u8 Request = 0x01"
| "message_type_u8 Response = 0x02"
| "message_type_u8 Error = 0x03"
| "message_type_u8 Ping = 0x04"
| "message_type_u8 Pong = 0x05"
| "message_type_u8 Cancel = 0x06"

definition message_type_from_u8 :: "u8 \<Rightarrow> rpc_error + message_type" where
  "message_type_from_u8 v =
     (if v = 0x01 then Inr Request
      else if v = 0x02 then Inr Response
      else if v = 0x03 then Inr Error
      else if v = 0x04 then Inr Ping
      else if v = 0x05 then Inr Pong
      else if v = 0x06 then Inr Cancel
      else Inl (invalid_argument (''Unknown message type: 0x'' @ show_hex2 v)))"

type_synonym flags = u8

definition FLAGS_NONE :: flags where
  "FLAGS_NONE = 0"
definition COMPRESSED :: flags where
  "COMPRESSED = push_bit 0 1"
definition ONE_WAY :: flags where
  "ONE_WAY = push_bit 1 1"

definition is_one_way :: "flags \<Rightarrow> bool" where
  "is_one_way fl \<longleftrightarrow> fl AND ONE_WAY \<noteq> 0"

definition is_compressed :: "flags \<Rightarrow> bool" where
  "is_compressed fl \<longleftrightarrow> fl AND COMPRESSED \<noteq> 0"

record frame_header =
  version :: u8
  flags :: flags
  message_type :: message_type
  payload_len :: u32

definition header_encode :: "frame_header \<Rightarrow> bytes" where
  "header_encode h =
     [MAGIC ! 0, MAGIC ! 1, version h, flags h, message_type_u8 (message_type h)]
       @ u32_to_le (payload_len h)"

definition header_decode :: "bytes \<Rightarrow> rpc_error + frame_header" where
  "header_decode buf =
     (if buf ! 0 \<noteq> MAGIC ! 0 \<or> buf ! 1 \<noteq> MAGIC ! 1 then
        Inl (invalid_argument (''Invalid magic: [0x'' @ show_hex2 (buf ! 0)
                               @ '', 0x'' @ show_hex2 (buf ! 1) @ '']''))
      else let ver = buf ! 2 in
      if ver \<noteq> VERSION then
        Inl (invalid_argument (''Unsupported version: '' @ show_dec (unat ver)))
      else case message_type_from_u8 (buf ! 4) of
        Inl e \<Rightarrow> Inl e
      | Inr mt \<Rightarrow>
          let len = u32_from_le [buf ! 5, buf ! 6, buf ! 7, buf ! 8] in
          if len > MAX_PAYLOAD_SIZE then
            Inl (invalid_argument (''Payload too large: '' @ show_dec (unat len)
                                   @ '' > '' @ show_dec (unat MAX_PAYLOAD_SIZE)))
          else Inr \<lparr>version = ver, flags = buf ! 3, message_type = mt, payload_len = len\<rparr>)"

subsection \<open>Frames\<close>

record frame =
  header :: frame_header
  payload :: bytes

definition frame_request :: "u64 \<Rightarrow> u16 \<Rightarrow> u16 \<Rightarrow> bytes \<Rightarrow> bool \<Rightarrow> frame" where
  "frame_request rid sid mid args one_way =
     (let pl = u64_to_le rid @ u16_to_le sid @ u16_to_le mid @ args;
          fl = (if one_way then ONE_WAY else FLAGS_NONE)
      in \<lparr>header = \<lparr>version = VERSION, flags = fl, message_type = Request,
                     payload_len = of_nat (length pl)\<rparr>,
          payload = pl\<rparr>)"

definition frame_response :: "u64 \<Rightarrow> bytes \<Rightarrow> frame" where
  "frame_response rid data =
     (let pl = u64_to_le rid @ data
      in \<lparr>header = \<lparr>version = VERSION, flags = FLAGS_NONE, message_type = Response,
                     payload_len = of_nat (length pl)\<rparr>,
          payload = pl\<rparr>)"

definition frame_error :: "u64 \<Rightarrow> bytes \<Rightarrow> frame" where
  "frame_error rid error_data =
     (let pl = u64_to_le rid @ error_data
      in \<lparr>header = \<lparr>version = VERSION, flags = FLAGS_NONE, message_type = Error,
                     payload_len = of_nat (length pl)\<rparr>,
          payload = pl\<rparr>)"

definition frame_ping :: frame where
  "frame_ping =
     \<lparr>header = \<lparr>version = VERSION, flags = FLAGS_NONE, message_type = Ping, payload_len = 0\<rparr>,
      payload = []\<rparr>"

definition frame_pong :: frame where
  "frame_pong =
     \<lparr>header = \<lparr>version = VERSION, flags = FLAGS_NONE, message_type = Pong, payload_len = 0\<rparr>,
      payload = []\<rparr>"

definition frame_encode :: "frame \<Rightarrow> bytes" where
  "frame_encode f = header_encode (header f) @ payload f"

definition parse_request_payload :: "frame \<Rightarrow> rpc_error + (u64 \<times> u16 \<times> u16 \<times> bytes)" where
  "parse_request_payload f =
     (if length (payload f) < 12 then Inl (invalid_argument ''Request payload too short'')
      else Inr (u64_from_le (take 8 (payload f)),
                u16_from_le (take 2 (drop 8 (payload f))),
                u16_from_le (take 2 (drop 10 (payload f))),
                drop 12 (payload f)))"

definition parse_response_payload :: "frame \<Rightarrow> rpc_error + (u64 \<times> bytes)" where
  "parse_response_payload f =
     (if length (payload f) < 8 then Inl (invalid_argument ''Response payload too short'')
      else Inr (u64_from_le (take 8 (payload f)), drop 8 (payload f)))"

subsection \<open>The streaming parser\<close>

text \<open>
  The \<open>while\<close> loop of \<open>parse_frames\<close>, with its two variables \<open>frames\<close> and \<open>offset\<close>.
  The conversion of the nine header bytes to an array cannot fail, so its error
  branch has no counterpart.
\<close>

function parse_loop :: "bytes \<Rightarrow> frame list \<Rightarrow> nat \<Rightarrow> rpc_error + (frame list \<times> nat)" where
  "parse_loop buf frames offset =
     (if offset + HEADER_SIZE \<le> length buf then
        case header_decode (take HEADER_SIZE (drop offset buf)) of
          Inl e \<Rightarrow> Inl e
        | Inr h \<Rightarrow>
            let total = HEADER_SIZE + unat (payload_len h) in
            if offset + total > length buf then Inr (frames, offset)
            else parse_loop buf
                   (frames @ [\<lparr>header = h,
                                payload = take (unat (payload_len h)) (drop (offset + HEADER_SIZE) buf)\<rparr>])
                   (offset + total)
      else Inr (frames, offset))"
  by pat_completeness auto
termination
  by (relation "measure (\<lambda>(buf, frames, offset). length buf - offset)") (auto simp: HEADER_SIZE_def)

declare parse_loop.simps [simp del]

definition parse_frames :: "bytes \<Rightarrow> rpc_error + (frame list \<times> nat)" where
  "parse_frames buf = parse_loop buf [] 0"

subsection \<open>Headers\<close>

definition wf_header :: "frame_header \<Rightarrow> bool" where
  "wf_header h \<longleftrightarrow> version h = VERSION \<and> payload_len h \<le> MAX_PAYLOAD_SIZE"

definition wf_frame :: "frame \<Rightarrow> bool" where
  "wf_frame f \<longleftrightarrow> wf_header (header f) \<and> unat (payload_len (header f)) = length (payload f)"

lemma message_type_from_u8_iff:
  "message_type_from_u8 v = Inr m \<longleftrightarrow> v = message_type_u8 m"
  by (cases m) (auto simp: message_type_from_u8_def)

lemma length_header_encode [byte_simps, simp]: "length (header_encode h) = HEADER_SIZE"
  by (simp add: header_encode_def HEADER_SIZE_def le32.width_to_le)

lemma nine_bytes:
  assumes "length bs = HEADER_SIZE"
  obtains b0 b1 b2 b3 b4 b5 b6 b7 b8 where "bs = [b0, b1, b2, b3, b4, b5, b6, b7, b8]"
  using assms by (auto simp: HEADER_SIZE_def numeral_eq_Suc length_Suc_conv)

lemma header_encode_bytes:
  "header_encode h = [b0, b1, b2, b3, b4, b5, b6, b7, b8] \<longleftrightarrow>
     b0 = MAGIC ! 0 \<and> b1 = MAGIC ! 1 \<and> b2 = version h \<and> b3 = flags h
     \<and> b4 = message_type_u8 (message_type h) \<and> payload_len h = u32_from_le [b5, b6, b7, b8]"
proof -
  have "u32_to_le (payload_len h) = [b5, b6, b7, b8]
          \<longleftrightarrow> payload_len h = u32_from_le [b5, b6, b7, b8]"
    using le32.from_to [of "payload_len h"] le32.to_from [of "[b5, b6, b7, b8]"] by auto
  then show ?thesis
    by (auto simp: header_encode_def)
qed

lemma header_decode_Inr:
  "header_decode [b0, b1, b2, b3, b4, b5, b6, b7, b8] = Inr h \<longleftrightarrow>
     b0 = MAGIC ! 0 \<and> b1 = MAGIC ! 1 \<and> b2 = version h \<and> b3 = flags h
     \<and> message_type_from_u8 b4 = Inr (message_type h)
     \<and> payload_len h = u32_from_le [b5, b6, b7, b8] \<and> wf_header h"
  by (cases h) (auto simp: header_decode_def wf_header_def Let_def split: sum.splits if_splits)

lemma header_decode_iff:
  assumes "length bs = HEADER_SIZE"
  shows "header_decode bs = Inr h \<longleftrightarrow> bs = header_encode h \<and> wf_header h"
proof -
  obtain b0 b1 b2 b3 b4 b5 b6 b7 b8 where bs: "bs = [b0, b1, b2, b3, b4, b5, b6, b7, b8]"
    using assms by (rule nine_bytes)
  have "bs = header_encode h \<longleftrightarrow> header_encode h = [b0, b1, b2, b3, b4, b5, b6, b7, b8]"
    by (auto simp: bs)
  then show ?thesis
    by (auto simp: bs header_encode_bytes header_decode_Inr message_type_from_u8_iff)
qed

lemma header_decode_encode: "wf_header h \<Longrightarrow> header_decode (header_encode h) = Inr h"
  using header_decode_iff [OF length_header_encode] by blast

subsection \<open>The parser against a reference\<close>

text \<open>
  What the parser means, without offsets: one frame off the front of the buffer, or an
  error, or the news that the buffer does not hold a whole frame yet.
\<close>

datatype next_frame = Incomplete | Malformed rpc_error | Complete frame bytes

definition next_frame :: "bytes \<Rightarrow> next_frame" where
  "next_frame buf =
     (if length buf < HEADER_SIZE then Incomplete
      else case header_decode (take HEADER_SIZE buf) of
        Inl e \<Rightarrow> Malformed e
      | Inr h \<Rightarrow>
          let n = unat (payload_len h) in
          if length buf < HEADER_SIZE + n then Incomplete
          else Complete \<lparr>header = h, payload = take n (drop HEADER_SIZE buf)\<rparr>
                        (drop (HEADER_SIZE + n) buf))"

lemma map_sum_case: "map_sum id f x = (case x of Inl e \<Rightarrow> Inl e | Inr p \<Rightarrow> Inr (f p))"
  by (cases x) auto

lemma next_frame_shorter: "next_frame buf = Complete f rest \<Longrightarrow> length rest < length buf"
  by (auto simp: next_frame_def HEADER_SIZE_def Let_def split: if_splits sum.splits)

function frames_of :: "bytes \<Rightarrow> rpc_error + (frame list \<times> bytes)" where
  "frames_of buf =
     (case next_frame buf of
        Incomplete \<Rightarrow> Inr ([], buf)
      | Malformed e \<Rightarrow> Inl e
      | Complete f rest \<Rightarrow> map_sum id (\<lambda>(fs, r). (f # fs, r)) (frames_of rest))"
  by pat_completeness auto
termination
  by (relation "measure length") (auto simp: next_frame_shorter)

declare frames_of.simps [simp del]

lemma frames_of_cases [simp]:
  "next_frame buf = Incomplete \<Longrightarrow> frames_of buf = Inr ([], buf)"
  "next_frame buf = Malformed e \<Longrightarrow> frames_of buf = Inl e"
  "next_frame buf = Complete f rest \<Longrightarrow>
     frames_of buf = map_sum id (\<lambda>(fs, r). (f # fs, r)) (frames_of rest)"
  by (simp_all add: frames_of.simps [of buf])

lemma take_drop_HEADER: "take n (drop HEADER_SIZE (drop k xs)) = take n (drop (k + HEADER_SIZE) xs)"
  by (simp add: add.commute)

lemma next_frame_drop:
  assumes "offset \<le> length buf"
  shows "next_frame (drop offset buf) =
     (if offset + HEADER_SIZE \<le> length buf then
        case header_decode (take HEADER_SIZE (drop offset buf)) of
          Inl e \<Rightarrow> Malformed e
        | Inr h \<Rightarrow>
            if offset + (HEADER_SIZE + unat (payload_len h)) > length buf then Incomplete
            else Complete
                   \<lparr>header = h,
                    payload = take (unat (payload_len h)) (drop (offset + HEADER_SIZE) buf)\<rparr>
                   (drop (offset + (HEADER_SIZE + unat (payload_len h))) buf)
      else Incomplete)"
  using assms
  by (auto simp: next_frame_def Let_def add.commute add.left_commute split: sum.splits)

lemma parse_loop_frames_of:
  "offset \<le> length buf \<Longrightarrow>
     parse_loop buf frames offset =
       map_sum id (\<lambda>(fs, r). (frames @ fs, length buf - length r)) (frames_of (drop offset buf))"
proof (induction buf frames offset rule: parse_loop.induct)
  case (1 buf frames offset)
  note step = next_frame_drop [OF "1.prems"]
  show ?case
  proof (cases "offset + HEADER_SIZE \<le> length buf")
    case False
    with step have "next_frame (drop offset buf) = Incomplete" by simp
    with False "1.prems" show ?thesis by (simp add: parse_loop.simps [of buf frames offset])
  next
    case True
    show ?thesis
    proof (cases "header_decode (take HEADER_SIZE (drop offset buf))")
      case (Inl e)
      with step True have "next_frame (drop offset buf) = Malformed e" by simp
      with Inl True show ?thesis by (simp add: parse_loop.simps [of buf frames offset])
    next
      case (Inr h)
      let ?n = "unat (payload_len h)"
      let ?f = "\<lparr>header = h, payload = take ?n (drop (offset + HEADER_SIZE) buf)\<rparr>"
      show ?thesis
      proof (cases "offset + (HEADER_SIZE + ?n) > length buf")
        case long: True
        with step Inr True have "next_frame (drop offset buf) = Incomplete" by simp
        with long Inr True "1.prems" show ?thesis
          by (simp add: parse_loop.simps [of buf frames offset] Let_def)
      next
        case False
        with step Inr True
        have "next_frame (drop offset buf) = Complete ?f (drop (offset + (HEADER_SIZE + ?n)) buf)"
          by simp
        moreover have "parse_loop buf frames offset
            = parse_loop buf (frames @ [?f]) (offset + (HEADER_SIZE + ?n))"
          using False Inr True by (simp add: parse_loop.simps [of buf frames offset] Let_def)
        moreover have "parse_loop buf (frames @ [?f]) (offset + (HEADER_SIZE + ?n))
            = map_sum id (\<lambda>(fs, r). ((frames @ [?f]) @ fs, length buf - length r))
                (frames_of (drop (offset + (HEADER_SIZE + ?n)) buf))"
          using "1.IH" [OF True Inr refl] False by (simp add: id_def)
        ultimately show ?thesis
          by (auto simp: map_sum_case split: sum.splits)
      qed
    qed
  qed
qed

text \<open>What the parser leaves is the tail of what it was given, and the frames are its front.\<close>

lemma next_frame_encode:
  "next_frame (frame_encode f @ rest) = Complete f rest" if "wf_frame f"
proof -
  have "take HEADER_SIZE (frame_encode f @ rest) = header_encode (header f)"
    by (simp add: frame_encode_def)
  with that show ?thesis
    by (cases f) (simp add: next_frame_def frame_encode_def wf_frame_def header_decode_encode)
qed

lemma next_frame_Complete:
  assumes "next_frame buf = Complete f rest"
  shows "buf = frame_encode f @ rest \<and> wf_frame f"
proof -
  from assms obtain h where len: "HEADER_SIZE + unat (payload_len h) \<le> length buf"
    and h: "header_decode (take HEADER_SIZE buf) = Inr h"
    and f: "f = \<lparr>header = h, payload = take (unat (payload_len h)) (drop HEADER_SIZE buf)\<rparr>"
    and rest: "rest = drop (HEADER_SIZE + unat (payload_len h)) buf"
    by (auto simp: next_frame_def Let_def not_less split: if_splits sum.splits)
  have "take HEADER_SIZE buf = header_encode h \<and> wf_header h"
    using header_decode_iff [of "take HEADER_SIZE buf" h] h len by simp
  moreover have "buf = take HEADER_SIZE buf
      @ take (unat (payload_len h)) (drop HEADER_SIZE buf) @ rest"
    unfolding rest by (metis append_take_drop_id drop_drop add.commute)
  ultimately show ?thesis
    using len by (simp add: f frame_encode_def wf_frame_def)
qed

lemma next_frame_Complete_iff:
  "next_frame buf = Complete f rest \<longleftrightarrow> buf = frame_encode f @ rest \<and> wf_frame f"
  using next_frame_Complete next_frame_encode by blast

lemma frames_of_sound:
  "frames_of buf = Inr (fs, r) \<Longrightarrow>
     buf = concat (map frame_encode fs) @ r \<and> (\<forall>f \<in> set fs. wf_frame f) \<and> next_frame r = Incomplete"
proof (induction buf arbitrary: fs r rule: frames_of.induct)
  case (1 buf)
  show ?case
  proof (cases "next_frame buf")
    case Incomplete
    with "1.prems" show ?thesis by auto
  next
    case (Malformed e)
    with "1.prems" show ?thesis by simp
  next
    case (Complete f rest)
    with "1.prems" obtain gs where gs: "frames_of rest = Inr (gs, r)" and fs: "fs = f # gs"
      by (cases "frames_of rest") auto
    from "1.IH" [OF Complete gs] Complete show ?thesis
      by (auto simp: fs next_frame_Complete_iff)
  qed
qed

lemma frames_of_complete:
  "\<forall>f \<in> set fs. wf_frame f \<Longrightarrow> next_frame r = Incomplete \<Longrightarrow>
     frames_of (concat (map frame_encode fs) @ r) = Inr (fs, r)"
  by (induction fs) (simp_all add: next_frame_encode)

lemma frames_of_iff:
  "frames_of buf = Inr (fs, r) \<longleftrightarrow>
     buf = concat (map frame_encode fs) @ r \<and> (\<forall>f \<in> set fs. wf_frame f) \<and> next_frame r = Incomplete"
  using frames_of_sound frames_of_complete by blast

lemma parse_frames_frames_of:
  "parse_frames buf = map_sum id (\<lambda>(fs, r). (fs, length buf - length r)) (frames_of buf)"
  by (simp add: parse_frames_def parse_loop_frames_of)

subsection \<open>Receiving a stream in chunks\<close>

text \<open>
  The receive path that \<open>RpcServerHandler::on_data\<close> and \<open>RpcClientHandler::on_data\<close>
  share: append the chunk to the buffer, parse, clear the buffer on an error (and handle
  nothing), otherwise drain the consumed bytes and handle the frames.
\<close>

definition receive :: "bytes \<Rightarrow> bytes \<Rightarrow> (rpc_error + frame list) \<times> bytes" where
  "receive buf data =
     (let buf = buf @ data in
      case parse_frames buf of
        Inl e \<Rightarrow> (Inl e, [])
      | Inr (frames, consumed) \<Rightarrow>
          (Inr frames, if consumed > 0 then drop consumed buf else buf))"

text \<open>
  What such a receiver may rely on: the parser splits its input into items and a rest,
  and more input never changes what was already split off.
\<close>

locale stream_parser =
  fixes parse :: "'b list \<Rightarrow> 'e + ('f list \<times> 'b list)"
  assumes parse_Nil: "parse [] = Inr ([], [])"
    and parse_append: "parse (xs @ ys) =
      (case parse xs of
         Inl e \<Rightarrow> Inl e
       | Inr (fs, r) \<Rightarrow> map_sum id (\<lambda>(gs, r'). (fs @ gs, r')) (parse (r @ ys)))"
begin

fun feed :: "'b list \<Rightarrow> 'b list list \<Rightarrow> 'e + ('f list \<times> 'b list)" where
  "feed buf [] = Inr ([], buf)"
| "feed buf (c # cs) =
     (case parse (buf @ c) of
        Inl e \<Rightarrow> Inl e
      | Inr (fs, r) \<Rightarrow> map_sum id (\<lambda>(gs, r'). (fs @ gs, r')) (feed r cs))"

lemma feed_parse:
  "parse buf = Inr ([], buf) \<Longrightarrow> feed buf cs = parse (buf @ concat cs)"
proof (induction cs arbitrary: buf)
  case Nil
  then show ?case by simp
next
  case (Cons c cs)
  show ?case
  proof (cases "parse (buf @ c)")
    case (Inl e)
    with parse_append [of "buf @ c" "concat cs"] show ?thesis by simp
  next
    case (Inr p)
    obtain fs r where p: "p = (fs, r)" by fastforce
    have "parse r = Inr ([], r)"
      using parse_append [of "buf @ c" "[]"] Inr p
      by (cases "parse r") auto
    then have "feed r cs = parse (r @ concat cs)" by (rule Cons.IH)
    with parse_append [of "buf @ c" "concat cs"] Inr p show ?thesis by simp
  qed
qed

corollary feed_concat: "feed [] cs = parse (concat cs)"
  using feed_parse [of "[]" cs] parse_Nil by simp

lemma feed_good: "parse (concat cs) = Inr (fs, r) \<Longrightarrow> feed [] cs = Inr (fs, r)"
  by (simp add: feed_concat)

end

lemma next_frame_append:
  "next_frame xs = Complete f rest \<Longrightarrow> next_frame (xs @ ys) = Complete f (rest @ ys)"
  by (simp add: next_frame_Complete_iff)

lemma next_frame_append_Malformed:
  "next_frame xs = Malformed e \<Longrightarrow> next_frame (xs @ ys) = Malformed e"
  by (auto simp: next_frame_def Let_def split: if_splits sum.splits)

lemma frames_of_append:
  "frames_of (xs @ ys) =
     (case frames_of xs of
        Inl e \<Rightarrow> Inl e
      | Inr (fs, r) \<Rightarrow> map_sum id (\<lambda>(gs, r'). (fs @ gs, r')) (frames_of (r @ ys)))"
proof (induction xs rule: frames_of.induct)
  case (1 xs)
  show ?case
  proof (cases "next_frame xs")
    case Incomplete
    then show ?thesis by (auto simp: map_sum_case split: sum.splits)
  next
    case (Malformed e)
    with next_frame_append_Malformed show ?thesis by simp
  next
    case (Complete f rest)
    with "1.IH" [OF Complete] next_frame_append [OF Complete] show ?thesis
      by (auto simp: map_sum_case split: sum.splits)
  qed
qed

interpretation frames: stream_parser frames_of
proof (unfold_locales, goal_cases)
  case 1
  show ?case by (simp add: next_frame_def HEADER_SIZE_def)
next
  case (2 xs ys)
  show ?case by (rule frames_of_append)
qed

lemma receive_frames_of:
  "receive buf data =
     (case frames_of (buf @ data) of Inl e \<Rightarrow> (Inl e, []) | Inr (fs, r) \<Rightarrow> (Inr fs, r))"
proof (cases "frames_of (buf @ data)")
  case (Inl e)
  then show ?thesis by (simp add: receive_def parse_frames_frames_of)
next
  case (Inr p)
  obtain fs r where p: "p = (fs, r)" by fastforce
  let ?b = "buf @ data"
  have b: "?b = concat (map frame_encode fs) @ r"
    using frames_of_sound Inr p by blast
  have "drop (length ?b - length r) ?b = r"
    by (simp only: b) simp
  moreover have "\<not> 0 < length ?b - length r \<Longrightarrow> ?b = r"
    by (simp only: b) simp
  ultimately show ?thesis
    using Inr unfolding receive_def parse_frames_frames_of Let_def p by simp
qed

text \<open>All the frames a receiver handles over a series of reads.\<close>

fun receive_all :: "bytes \<Rightarrow> bytes list \<Rightarrow> frame list \<times> bytes" where
  "receive_all buf [] = ([], buf)"
| "receive_all buf (c # cs) =
     (let (result, buf') = receive buf c;
          (later, final) = receive_all buf' cs
      in (case result of Inl e \<Rightarrow> later | Inr fs \<Rightarrow> fs @ later, final))"

lemma receive_all_feed:
  "frames.feed buf cs = Inr (fs, r) \<Longrightarrow> receive_all buf cs = (fs, r)"
proof (induction cs arbitrary: buf fs r)
  case Nil
  then show ?case by simp
next
  case (Cons c cs)
  then obtain gs q where first: "frames_of (buf @ c) = Inr (gs, q)"
    by (cases "frames_of (buf @ c)") auto
  with Cons.prems obtain hs where rest: "frames.feed q cs = Inr (hs, r)" and "fs = gs @ hs"
    by (cases "frames.feed q cs") auto
  with Cons.IH [OF rest] first show ?case
    by (simp add: receive_frames_of)
qed

subsection \<open>Payloads\<close>

lemma parse_request_payload_request:
  "parse_request_payload (frame_request rid sid mid args one_way) = Inr (rid, sid, mid, args)"
proof -
  let ?pl = "u64_to_le rid @ u16_to_le sid @ u16_to_le mid @ args"
  have "drop 8 ?pl = u16_to_le sid @ u16_to_le mid @ args"
    by (rule le64.rest_prefix)
  moreover from this have "drop 10 ?pl = u16_to_le mid @ args"
    using le16.rest_prefix [of sid "u16_to_le mid @ args"] drop_drop [of 2 8 ?pl]
    by (simp del: drop_append)
  moreover from this have "drop 12 ?pl = args"
    using le16.rest_prefix [of mid args] drop_drop [of 2 10 ?pl]
    by (simp del: drop_append)
  moreover have "\<not> length ?pl < 12"
    by (simp add: le64.width_to_le le16.width_to_le)
  ultimately show ?thesis
    by (simp add: parse_request_payload_def frame_request_def Let_def
        le64.read_prefix le16.read_prefix del: drop_append take_append)
qed

lemma parse_response_payload_prefixed:
  "payload f = u64_to_le rid @ data \<Longrightarrow> parse_response_payload f = Inr (rid, data)"
  by (simp add: parse_response_payload_def le64.width_to_le le64.from_to)

lemma parse_response_payload_response:
  "parse_response_payload (frame_response rid data) = Inr (rid, data)"
  "parse_response_payload (frame_error rid data) = Inr (rid, data)"
  by (rule parse_response_payload_prefixed, simp add: frame_response_def frame_error_def Let_def)+

lemma unat_MAX_PAYLOAD_SIZE [simp]: "unat MAX_PAYLOAD_SIZE = 16777216"
  by (simp add: MAX_PAYLOAD_SIZE_def)

lemma wf_frame_len:
  "wf_frame \<lparr>header = \<lparr>version = VERSION, flags = fl, message_type = mt,
                      payload_len = of_nat (length pl)\<rparr>, payload = pl\<rparr>
   \<longleftrightarrow> length pl \<le> 16777216" if "length pl < 2 ^ 32"
  using that
  by (simp add: wf_frame_def wf_header_def word_le_nat_alt unat_of_nat take_bit_nat_eq_self)

lemma wf_frame_request:
  "12 + length args < 2 ^ 32 \<Longrightarrow>
     wf_frame (frame_request rid sid mid args one_way) \<longleftrightarrow> 12 + length args \<le> 16777216"
  using wf_frame_len [of "u64_to_le rid @ u16_to_le sid @ u16_to_le mid @ args"]
  by (simp add: frame_request_def Let_def le64.width_to_le le16.width_to_le)

lemma wf_frame_response:
  "8 + length data < 2 ^ 32 \<Longrightarrow> wf_frame (frame_response rid data) \<longleftrightarrow> 8 + length data \<le> 16777216"
  "8 + length data < 2 ^ 32 \<Longrightarrow> wf_frame (frame_error rid data) \<longleftrightarrow> 8 + length data \<le> 16777216"
  using wf_frame_len [of "u64_to_le rid @ data"]
  by (simp_all add: frame_response_def frame_error_def Let_def le64.width_to_le)

lemma wf_frame_ping_pong [simp]: "wf_frame frame_ping" "wf_frame frame_pong"
  by (simp_all add: frame_ping_def frame_pong_def wf_frame_def wf_header_def)

lemma request_flags: "is_one_way (flags (header (frame_request rid sid mid args one_way))) = one_way"
  by (cases one_way) (simp_all add: frame_request_def Let_def is_one_way_def ONE_WAY_def FLAGS_NONE_def)

subsection \<open>Errors of the parser\<close>

lemma next_frame_Malformed_iff:
  "next_frame r = Malformed e \<longleftrightarrow> HEADER_SIZE \<le> length r \<and> header_decode (take HEADER_SIZE r) = Inl e"
  by (auto simp: next_frame_def Let_def split: sum.splits)

lemma header_decode_status: "header_decode bs = Inl e \<Longrightarrow> status e = InvalidArgument"
  by (auto simp: header_decode_def message_type_from_u8_def rpc_error_defs Let_def
      split: if_splits sum.splits)

lemma frames_of_Inl_sound:
  "frames_of buf = Inl e \<Longrightarrow>
     \<exists>fs r. buf = concat (map frame_encode fs) @ r \<and> (\<forall>f \<in> set fs. wf_frame f) \<and> next_frame r = Malformed e"
proof (induction buf rule: frames_of.induct)
  case (1 buf)
  show ?case
  proof (cases "next_frame buf")
    case Incomplete
    with "1.prems" show ?thesis by simp
  next
    case (Malformed e')
    with "1.prems" show ?thesis by (intro exI [of _ "[]"] exI [of _ buf]) simp
  next
    case (Complete f rest)
    with "1.prems" have "frames_of rest = Inl e" by (cases "frames_of rest") auto
    from "1.IH" [OF Complete this] obtain fs r
      where "rest = concat (map frame_encode fs) @ r" "\<forall>f \<in> set fs. wf_frame f"
        "next_frame r = Malformed e" by blast
    with Complete show ?thesis
      by (intro exI [of _ "f # fs"] exI [of _ r]) (simp add: next_frame_Complete_iff)
  qed
qed

lemma frames_of_Inl_iff:
  "frames_of buf = Inl e \<longleftrightarrow>
     (\<exists>fs r. buf = concat (map frame_encode fs) @ r \<and> (\<forall>f \<in> set fs. wf_frame f) \<and> next_frame r = Malformed e)"
proof
  assume "\<exists>fs r. buf = concat (map frame_encode fs) @ r \<and> (\<forall>f \<in> set fs. wf_frame f) \<and> next_frame r = Malformed e"
  then obtain fs r where "buf = concat (map frame_encode fs) @ r" "\<forall>f \<in> set fs. wf_frame f"
    "next_frame r = Malformed e" by blast
  then show "frames_of buf = Inl e"
  proof (induction fs arbitrary: buf)
    case Nil
    then show ?case by simp
  next
    case (Cons f fs)
    from Cons.prems(1) have buf: "buf = frame_encode f @ concat (map frame_encode fs) @ r" by simp
    have "frames_of (concat (map frame_encode fs) @ r) = Inl e"
      using Cons.prems(2,3) by (intro Cons.IH [OF refl]) auto
    moreover have "next_frame buf = Complete f (concat (map frame_encode fs) @ r)"
      using Cons.prems(2) by (simp add: buf next_frame_encode)
    ultimately show ?case by simp
  qed
qed (rule frames_of_Inl_sound)

lemma parse_frames_Inl: "parse_frames buf = Inl e \<longleftrightarrow> frames_of buf = Inl e"
  by (cases "frames_of buf") (simp_all add: parse_frames_frames_of)

lemma parse_frames_Inr:
  "parse_frames buf = Inr (fs, n) \<longleftrightarrow> n \<le> length buf \<and> frames_of buf = Inr (fs, drop n buf)"
proof (cases "frames_of buf")
  case (Inl e)
  then show ?thesis by (simp add: parse_frames_frames_of)
next
  case (Inr p)
  obtain gs r where p: "p = (gs, r)" by fastforce
  from Inr p have b: "buf = concat (map frame_encode gs) @ r"
    using frames_of_sound by blast
  then have "drop (length buf - length r) buf = r"
    by simp
  moreover have "length r \<le> length buf"
    by (simp add: b)
  ultimately show ?thesis
    using Inr p by (auto simp: parse_frames_frames_of)
qed

lemma oversized_header:
  assumes "16777216 < unat (payload_len h)" and "version h = VERSION"
  shows "next_frame (header_encode h @ rest)
    = Malformed (invalid_argument (''Payload too large: '' @ show_dec (unat (payload_len h))
                                    @ '' > '' @ show_dec 16777216))"
proof -
  obtain b0 b1 b2 b3 b4 b5 b6 b7 b8
    where bs: "header_encode h = [b0, b1, b2, b3, b4, b5, b6, b7, b8]"
    using nine_bytes [OF length_header_encode] .
  have "message_type_from_u8 b4 = Inr (message_type h)"
    using bs by (simp add: header_encode_bytes message_type_from_u8_iff)
  moreover have "MAX_PAYLOAD_SIZE < payload_len h"
    using assms(1) by (simp add: word_less_nat_alt)
  ultimately have "header_decode (header_encode h)
    = Inl (invalid_argument (''Payload too large: '' @ show_dec (unat (payload_len h))
                               @ '' > '' @ show_dec 16777216))"
    using bs [unfolded header_encode_bytes] assms(2) unfolding bs
    by (simp add: header_decode_def Let_def)
  then show ?thesis
    by (simp add: next_frame_Malformed_iff)
qed

subsection \<open>Properties of the protocol\<close>

text \<open>C1: The header codec is exact. Of nine bytes, those that \<open>FrameHeader::decode\<close> accepts
  as the header \<open>h\<close> are those that \<open>FrameHeader::encode\<close> writes for \<open>h\<close>, and \<open>h\<close> then has
  the current version and a payload of at most 16 MB.\<close>

theorem header_codec_exact:
  assumes "length bs = HEADER_SIZE"
  shows "header_decode bs = Inr h \<longleftrightarrow>
    bs = header_encode h \<and> version h = VERSION \<and> payload_len h \<le> MAX_PAYLOAD_SIZE"
  using header_decode_iff [OF assms] by (simp add: wf_header_def)

theorem header_codec_exact_witness:
  "header_decode [0x4D, 0x52, 1, 2, 1, 3, 1, 0, 0] =
     Inr \<lparr>version = 1, flags = 2, message_type = Request, payload_len = 259\<rparr>"
proof -
  have "length [0x4D, 0x52, 1, 2, 1, 3, 1, 0, 0 :: u8] = HEADER_SIZE"
    by (simp add: HEADER_SIZE_def)
  from header_codec_exact [OF this] show ?thesis
    by (simp add: header_encode_def MAGIC_def VERSION_def MAX_PAYLOAD_SIZE_def u32_to_le_def le_bytes_nat_numeral)
qed

text \<open>C2: \<open>parse_frames\<close> is exact. It returns the frames \<open>fs\<close> and the count \<open>n\<close> precisely when
  the first \<open>n\<close> bytes of the buffer are the encodings of \<open>fs\<close> one after the other, each of
  the current version and with the payload length its header states (at most 16 MB), and
  what remains is too short for a header or for the payload its header announces.\<close>

theorem parse_frames_exact:
  "parse_frames buf = Inr (fs, n) \<longleftrightarrow>
     n \<le> length buf
     \<and> take n buf = concat (map frame_encode fs)
     \<and> list_all (\<lambda>f. version (header f) = VERSION
                       \<and> unat (payload_len (header f)) = length (payload f)
                       \<and> length (payload f) \<le> 16 * 1024 * 1024) fs
     \<and> (let r = drop n buf in
          length r < HEADER_SIZE
          \<or> (case header_decode (take HEADER_SIZE r) of
               Inl e \<Rightarrow> False
             | Inr h \<Rightarrow> length r < HEADER_SIZE + unat (payload_len h)))"
proof -
  have wf: "wf_frame f \<longleftrightarrow> version (header f) = VERSION
      \<and> unat (payload_len (header f)) = length (payload f)
      \<and> length (payload f) \<le> 16 * 1024 * 1024" for f
    by (auto simp: wf_frame_def wf_header_def word_le_nat_alt)
  have more: "next_frame r = Incomplete \<longleftrightarrow> length r < HEADER_SIZE
      \<or> (case header_decode (take HEADER_SIZE r) of
           Inl e \<Rightarrow> False
         | Inr h \<Rightarrow> length r < HEADER_SIZE + unat (payload_len h))" for r
    by (auto simp: next_frame_def Let_def split: sum.splits)
  have "buf = concat (map frame_encode fs) @ drop n buf
      \<longleftrightarrow> take n buf = concat (map frame_encode fs)" if "n \<le> length buf"
    by (metis append_take_drop_id append_same_eq)
  then show ?thesis
    unfolding parse_frames_Inr frames_of_iff list_all_iff wf [symmetric] Let_def more [symmetric]
    by blast
qed

theorem parse_frames_exact_witness:
  "parse_frames (frame_encode frame_ping @ [0x4D]) = Inr ([frame_ping], 9)"
  by (simp add: parse_frames_exact frame_encode_def HEADER_SIZE_def frame_ping_def)



text \<open>A request survives the wire. If its arguments fit (payload at most 16 MB), the encoded
  request frame parses back as that one frame with nothing left, and reading its payload gives
  the request, service and method ids, the arguments and the one-way flag it was built from.\<close>

theorem request_roundtrip:
  assumes "12 + length args \<le> 16 * 1024 * 1024"
  shows "let f = frame_request rid sid mid args one_way in
    parse_frames (frame_encode f) = Inr ([f], length (frame_encode f))
    \<and> parse_request_payload f = Inr (rid, sid, mid, args)
    \<and> is_one_way (flags (header f)) = one_way"
proof -
  let ?f = "frame_request rid sid mid args one_way"
  have "wf_frame ?f"
    using assms wf_frame_request [of args rid sid mid one_way] by simp
  then have "parse_frames (frame_encode ?f) = Inr ([?f], length (frame_encode ?f))"
    by (simp add: parse_frames_Inr frames_of_iff) (simp add: next_frame_def HEADER_SIZE_def)
  then show ?thesis
    by (simp add: parse_request_payload_request request_flags)
qed

theorem request_roundtrip_witness:
  "parse_frames (frame_encode (frame_request 7 1 2 [10, 20, 30] True))
     = Inr ([frame_request 7 1 2 [10, 20, 30] True],
            length (frame_encode (frame_request 7 1 2 [10, 20, 30] True)))"
proof -
  have "12 + length [10, 20, 30 :: u8] \<le> 16 * 1024 * 1024" by simp
  from request_roundtrip [OF this, of 7 1 2 True] show ?thesis
    unfolding Let_def by blast
qed

text \<open>A request whose payload exceeds 16 MB (which \<open>Frame::request\<close> builds and
  \<open>Frame::encode\<close> sends without a check) is an error for the parser that receives it,
  whatever follows it in the stream.\<close>

theorem oversized_request_rejected:
  assumes "16 * 1024 * 1024 < 12 + length args" and "12 + length args < 2 ^ 32"
  shows "parse_frames (frame_encode (frame_request rid sid mid args one_way) @ rest)
    = Inl (invalid_argument (''Payload too large: '' @ show_dec (12 + length args)
                              @ '' > '' @ show_dec (16 * 1024 * 1024)))"
proof -
  let ?f = "frame_request rid sid mid args one_way"
  have "payload_len (header ?f) = of_nat (12 + length args)"
    by (simp add: frame_request_def Let_def le64.width_to_le le16.width_to_le)
  with assms(2) have len: "unat (payload_len (header ?f)) = 12 + length args"
    by (simp add: unat_of_nat take_bit_nat_eq_self del: of_nat_add)
  have "version (header ?f) = VERSION"
    by (simp add: frame_request_def Let_def)
  with len assms(1) oversized_header [of "header ?f" "payload ?f @ rest"]
  show ?thesis
    by (simp add: parse_frames_Inl frame_encode_def)
qed

theorem oversized_request_rejected_witness:
  "parse_frames (frame_encode (frame_request 1 0 0 (replicate 16777216 0) False) @ [])
    = Inl (invalid_argument (''Payload too large: '' @ show_dec 16777228
                              @ '' > '' @ show_dec 16777216))"
proof -
  have "16 * 1024 * 1024 < 12 + length (replicate 16777216 (0 :: u8))"
    and "12 + length (replicate 16777216 (0 :: u8)) < 2 ^ 32"
    by (simp_all only: length_replicate) simp_all
  from oversized_request_rejected [OF this, of 1 0 0 False "[]"]
  show ?thesis by (simp only: length_replicate) simp
qed

text \<open>C4: The errors of \<open>parse_frames\<close>: it fails with \<open>e\<close> precisely when the buffer is a run of
  well-formed frames followed by nine bytes that are no header, with the error their decoding
  gives; the status is always \<open>InvalidArgument\<close>.\<close>

theorem parse_frames_error_exact:
  "parse_frames buf = Inl e \<longleftrightarrow>
     (\<exists>fs r. buf = concat (map frame_encode fs) @ r \<and> list_all wf_frame fs
        \<and> HEADER_SIZE \<le> length r \<and> header_decode (take HEADER_SIZE r) = Inl e
        \<and> status e = InvalidArgument)"
  unfolding parse_frames_Inl frames_of_Inl_iff next_frame_Malformed_iff list_all_iff
  using header_decode_status by blast

text \<open>A malformed header also discards the well-formed frames that arrived in the same read:
  the receive path handles none of them. Had the same bytes arrived in two reads, the first
  frame would have been handled.\<close>

theorem parse_error_discards_earlier_frames:
  assumes "wf_frame f" and "HEADER_SIZE \<le> length g"
    and "header_decode (take HEADER_SIZE g) = Inl e"
  shows "receive_all [] [frame_encode f @ g] = ([], [])
    \<and> receive_all [] [frame_encode f, g] = ([f], [])"
proof -
  have g: "next_frame g = Malformed e"
    using assms(2,3) by (simp add: next_frame_Malformed_iff)
  have "frames_of (frame_encode f @ g) = Inl e"
    using next_frame_encode [OF assms(1), of g] g by simp
  moreover have "frames_of (frame_encode f) = Inr ([f], [])"
    using frames_of_complete [of "[f]" "[]"] assms(1)
    by (simp add: next_frame_def HEADER_SIZE_def)
  ultimately show ?thesis
    using g by (simp add: receive_frames_of)
qed

theorem parse_error_discards_earlier_frames_witness:
  "receive_all [] [frame_encode frame_ping @ replicate 9 0xFF] = ([], [])
    \<and> receive_all [] [frame_encode frame_ping, replicate 9 0xFF] = ([frame_ping], [])"
proof -
  have "HEADER_SIZE \<le> length (replicate 9 (0xFF :: u8))"
    by (simp add: HEADER_SIZE_def)
  moreover have "header_decode (take HEADER_SIZE (replicate 9 0xFF))
      = Inl (invalid_argument (''Invalid magic: [0x'' @ show_hex2 0xFF @ '', 0x'' @ show_hex2 0xFF @ '']''))"
    by (simp add: HEADER_SIZE_def header_decode_def MAGIC_def)
  ultimately show ?thesis
    by (rule parse_error_discards_earlier_frames [OF wf_frame_ping_pong(1)])
qed

end
