(* ===== verification/Timer_Wheel.thy ===== *)
theory Timer_Wheel
  imports Prelude
begin

section \<open>The hierarchical timer wheel\<close>

text \<open>
  \<^verbatim>\<open>mill-io/src/timer_wheel.rs\<close>: the state \<open>WheelInner\<close> behind the mutex, its
  operations, and the thread-safe \<open>TimerWheel\<close> around it. A callback is a value of the
  type \<open>'cb\<close>; what running it does to the wheel is the argument \<open>run\<close> of \<open>tick\<close>,
  since callbacks are user code and may schedule and cancel timers. Each read of the
  clock is an argument \<open>now\<close>.
\<close>

unbundle bit_operations_syntax

subsection \<open>Constants\<close>

definition NUM_LEVELS :: nat where
  "NUM_LEVELS = 4"

definition LEVEL_BITS :: "nat list" where
  "LEVEL_BITS = [8, 6, 6, 6]"

definition LEVEL_SIZE :: "nat list" where
  "LEVEL_SIZE = [256, 64, 64, 64]"

definition SHIFTS :: "nat list" where
  "SHIFTS = [0, 8, 14, 20]"

definition MASKS :: "u64 list" where
  "MASKS = [0xFF, 0x3F, 0x3F, 0x3F]"

definition MAX_RANGE_TICKS :: u64 where
  "MAX_RANGE_TICKS = push_bit 26 1"

subsection \<open>Timers and the state of the wheel\<close>

type_synonym timer_id = u64

datatype 'cb timer_kind =
    Once "'cb option"
  | Repeating 'cb duration

record 'cb timer_entry =
  entry_id :: timer_id
  deadline_tick :: u64
  kind :: "'cb timer_kind"

record 'cb wheel_inner =
  levels :: "u64 list list list"
  current_tick :: u64
  start_time :: instant
  timers :: "(u64, 'cb timer_entry) hmap"
  overflow :: "u64 list"
  overflow_min_deadline :: "u64 option"
  timer_count :: usize
  earliest_deadline :: "u64 option"
  in_flight :: "u64 set"
  canceled_in_flight :: "u64 set"

definition wheel_inner_new :: "instant \<Rightarrow> 'cb wheel_inner" where
  "wheel_inner_new now =
     \<lparr>levels = [replicate (LEVEL_SIZE ! 0) [], replicate (LEVEL_SIZE ! 1) [],
                replicate (LEVEL_SIZE ! 2) [], replicate (LEVEL_SIZE ! 3) []],
      current_tick = 0,
      start_time = now,
      timers = [],
      overflow = [],
      overflow_min_deadline = None,
      timer_count = 0,
      earliest_deadline = None,
      in_flight = {},
      canceled_in_flight = {}\<rparr>"

definition instant_to_tick :: "'cb wheel_inner \<Rightarrow> instant \<Rightarrow> u64" where
  "instant_to_tick w now = as_millis_u64 (now - start_time w)"

subsection \<open>Placing a timer\<close>

fun level_loop :: "nat \<Rightarrow> nat list \<Rightarrow> nat \<Rightarrow> u64 \<Rightarrow> nat" where
  "level_loop level [] cumulative_bits delta = NUM_LEVELS - 1"
| "level_loop level (bits # rest) cumulative_bits delta =
     (let cumulative_bits = cumulative_bits + bits in
      if delta < push_bit cumulative_bits 1 then level
      else level_loop (Suc level) rest cumulative_bits delta)"

definition level_for_delta :: "u64 \<Rightarrow> nat" where
  "level_for_delta delta = level_loop 0 LEVEL_BITS 0 delta"

definition slot_of :: "nat \<Rightarrow> u64 \<Rightarrow> nat" where
  "slot_of level tick = unat (drop_bit (SHIFTS ! level) tick AND (MASKS ! level))"

definition push_slot :: "nat \<Rightarrow> nat \<Rightarrow> u64 \<Rightarrow> u64 list list list \<Rightarrow> u64 list list list" where
  "push_slot level slot i ls = ls[level := (ls ! level)[slot := ls ! level ! slot @ [i]]]"

definition clear_slot :: "nat \<Rightarrow> nat \<Rightarrow> u64 list list list \<Rightarrow> u64 list list list" where
  "clear_slot level slot ls = ls[level := (ls ! level)[slot := []]]"

definition insert_into_wheel :: "u64 \<Rightarrow> u64 \<Rightarrow> 'cb wheel_inner \<Rightarrow> 'cb wheel_inner" where
  "insert_into_wheel i deadline w =
     (let delta = saturating_sub deadline (current_tick w) in
      if delta \<ge> MAX_RANGE_TICKS then
        w\<lparr>overflow := overflow w @ [i],
          overflow_min_deadline :=
            Some (case overflow_min_deadline w of None \<Rightarrow> deadline | Some d \<Rightarrow> min d deadline)\<rparr>
      else
        let level = level_for_delta delta; slot = slot_of level deadline
        in w\<lparr>levels := push_slot level slot i (levels w)\<rparr>)"

text \<open>The loop that \<open>cascade\<close> and \<open>reinsert_overflow\<close> run over ids they drained.\<close>

fun reinsert_ids :: "u64 list \<Rightarrow> 'cb wheel_inner \<Rightarrow> 'cb wheel_inner" where
  "reinsert_ids [] w = w"
| "reinsert_ids (i # ids) w =
     (case hm_get (timers w) i of
        Some entry \<Rightarrow> reinsert_ids ids (insert_into_wheel i (deadline_tick entry) w)
      | None \<Rightarrow> reinsert_ids ids w)"

definition cascade :: "nat \<Rightarrow> 'cb wheel_inner \<Rightarrow> 'cb wheel_inner" where
  "cascade level w =
     (let slot = slot_of level (current_tick w);
          ids = levels w ! level ! slot
      in reinsert_ids ids (w\<lparr>levels := clear_slot level slot (levels w)\<rparr>))"

definition reinsert_overflow :: "'cb wheel_inner \<Rightarrow> 'cb wheel_inner" where
  "reinsert_overflow w =
     (let ids = overflow w
      in reinsert_ids ids (w\<lparr>overflow := [], overflow_min_deadline := None\<rparr>))"

subsection \<open>Advancing\<close>

fun fire_ids :: "u64 list \<Rightarrow> 'cb timer_entry list \<Rightarrow> 'cb wheel_inner
    \<Rightarrow> 'cb timer_entry list \<times> 'cb wheel_inner" where
  "fire_ids [] expired w = (expired, w)"
| "fire_ids (i # ids) expired w =
     (case hm_get (timers w) i of
        Some entry \<Rightarrow>
          fire_ids ids (expired @ [entry])
            (w\<lparr>timers := hm_remove i (timers w), timer_count := timer_count w - 1\<rparr>)
      | None \<Rightarrow> fire_ids ids expired w)"

fun cascade_levels :: "nat \<Rightarrow> nat list \<Rightarrow> nat \<Rightarrow> 'cb wheel_inner \<Rightarrow> 'cb wheel_inner" where
  "cascade_levels level [] shift_acc w = w"
| "cascade_levels level (bits # rest) shift_acc w =
     (if current_tick w AND (push_bit shift_acc 1 - 1) = 0
      then cascade_levels (Suc level) rest (shift_acc + bits) (cascade level w)
      else w)"

text \<open>The body of the \<open>while\<close> loop of \<open>advance_to\<close>: one tick.\<close>

definition advance_tick :: "'cb timer_entry list \<Rightarrow> 'cb wheel_inner
    \<Rightarrow> 'cb timer_entry list \<times> 'cb wheel_inner" where
  "advance_tick expired w =
     (let slot = unat (current_tick w AND (MASKS ! 0));
          ids = levels w ! 0 ! slot;
          (expired, w) = fire_ids ids expired (w\<lparr>levels := clear_slot 0 slot (levels w)\<rparr>);
          w = w\<lparr>current_tick := current_tick w + 1\<rparr>
      in (expired, cascade_levels 1 (drop 1 LEVEL_BITS) (LEVEL_BITS ! 0) w))"

lemma insert_into_wheel_frame [simp]:
  "current_tick (insert_into_wheel i d w) = current_tick w"
  "timers (insert_into_wheel i d w) = timers w"
  "start_time (insert_into_wheel i d w) = start_time w"
  "timer_count (insert_into_wheel i d w) = timer_count w"
  "earliest_deadline (insert_into_wheel i d w) = earliest_deadline w"
  "in_flight (insert_into_wheel i d w) = in_flight w"
  "canceled_in_flight (insert_into_wheel i d w) = canceled_in_flight w"
  by (simp_all add: insert_into_wheel_def Let_def)

lemma reinsert_ids_frame [simp]:
  "current_tick (reinsert_ids ids w) = current_tick w"
  "timers (reinsert_ids ids w) = timers w"
  "start_time (reinsert_ids ids w) = start_time w"
  "timer_count (reinsert_ids ids w) = timer_count w"
  "earliest_deadline (reinsert_ids ids w) = earliest_deadline w"
  "in_flight (reinsert_ids ids w) = in_flight w"
  "canceled_in_flight (reinsert_ids ids w) = canceled_in_flight w"
  by (induction ids w rule: reinsert_ids.induct) (auto split: option.splits)

lemma cascade_frame [simp]:
  "current_tick (cascade l w) = current_tick w"
  "timers (cascade l w) = timers w"
  "start_time (cascade l w) = start_time w"
  "timer_count (cascade l w) = timer_count w"
  "earliest_deadline (cascade l w) = earliest_deadline w"
  "in_flight (cascade l w) = in_flight w"
  "canceled_in_flight (cascade l w) = canceled_in_flight w"
  by (simp_all add: cascade_def Let_def)

lemma cascade_levels_frame [simp]:
  "current_tick (cascade_levels l bs sh w) = current_tick w"
  "timers (cascade_levels l bs sh w) = timers w"
  "start_time (cascade_levels l bs sh w) = start_time w"
  "timer_count (cascade_levels l bs sh w) = timer_count w"
  "earliest_deadline (cascade_levels l bs sh w) = earliest_deadline w"
  "in_flight (cascade_levels l bs sh w) = in_flight w"
  "canceled_in_flight (cascade_levels l bs sh w) = canceled_in_flight w"
  by (induction l bs sh w rule: cascade_levels.induct) auto

lemma fire_ids_frame:
  "fire_ids ids ex w = (ex', w') \<Longrightarrow>
     current_tick w' = current_tick w \<and> levels w' = levels w \<and> overflow w' = overflow w
     \<and> overflow_min_deadline w' = overflow_min_deadline w \<and> start_time w' = start_time w
     \<and> earliest_deadline w' = earliest_deadline w \<and> in_flight w' = in_flight w
     \<and> canceled_in_flight w' = canceled_in_flight w"
  by (induction ids ex w rule: fire_ids.induct) (auto split: option.splits)

lemma advance_tick_current:
  "advance_tick ex w = (ex', w') \<Longrightarrow> current_tick w' = current_tick w + 1"
  by (auto simp: advance_tick_def Let_def dest: fire_ids_frame split: prod.splits)

function advance_loop :: "u64 \<Rightarrow> 'cb timer_entry list \<Rightarrow> 'cb wheel_inner
    \<Rightarrow> 'cb timer_entry list \<times> 'cb wheel_inner" where
  "advance_loop target expired w =
     (if current_tick w < target then
        let (expired, w) = advance_tick expired w in advance_loop target expired w
      else (expired, w))"
  by pat_completeness auto
termination
proof (relation "measure (\<lambda>(target, expired, w). unat target - unat (current_tick w))", goal_cases)
  case (2 target expired w p ex' w')
  then have "current_tick w' = current_tick w + 1"
    by (metis advance_tick_current)
  with 2(1) unat_inc_less [OF 2(1)] show ?case
    by (simp add: word_less_nat_alt)
qed simp

declare advance_loop.simps [simp del]

fun drain_ids :: "u64 \<Rightarrow> u64 list \<Rightarrow> 'cb timer_entry list \<Rightarrow> 'cb wheel_inner
    \<Rightarrow> 'cb timer_entry list \<times> 'cb wheel_inner" where
  "drain_ids target [] expired w = (expired, w)"
| "drain_ids target (i # ids) expired w =
     (case hm_get (timers w) i of
        None \<Rightarrow> drain_ids target ids expired w
      | Some entry \<Rightarrow>
          if deadline_tick entry \<le> target then
            drain_ids target ids (expired @ [entry])
              (w\<lparr>timers := hm_remove i (timers w), timer_count := timer_count w - 1\<rparr>)
          else
            drain_ids target ids expired (insert_into_wheel i (deadline_tick entry) w))"

definition drain_due_into :: "u64 \<Rightarrow> 'cb timer_entry list \<Rightarrow> 'cb wheel_inner
    \<Rightarrow> 'cb timer_entry list \<times> 'cb wheel_inner" where
  "drain_due_into target expired w =
     (let ids = concat (concat (levels w)) @ overflow w;
          w = w\<lparr>levels := map (map (\<lambda>_. [])) (levels w), overflow := [],
                overflow_min_deadline := None, current_tick := target\<rparr>;
          (expired, w) = drain_ids target ids expired w
      in (expired, w\<lparr>earliest_deadline := None\<rparr>))"

definition advance_to :: "instant \<Rightarrow> 'cb wheel_inner
    \<Rightarrow> 'cb timer_entry list \<times> 'cb wheel_inner" where
  "advance_to now w =
     (let target = instant_to_tick w now in
      if target > saturating_add (current_tick w) MAX_RANGE_TICKS then
        drain_due_into target [] w
      else
        let (expired, w) = advance_loop target [] w;
            w = (case overflow_min_deadline w of
                   Some d \<Rightarrow>
                     if saturating_sub d (current_tick w) < MAX_RANGE_TICKS
                     then reinsert_overflow w else w
                 | None \<Rightarrow> w);
            w = (if expired \<noteq> [] then w\<lparr>earliest_deadline := None\<rparr> else w)
        in (expired, w))"

subsection \<open>The cached earliest deadline\<close>

definition note_inserted :: "u64 \<Rightarrow> 'cb wheel_inner \<Rightarrow> 'cb wheel_inner" where
  "note_inserted d w =
     w\<lparr>earliest_deadline :=
         (case earliest_deadline w of
            Some current \<Rightarrow> Some (min current d)
          | None \<Rightarrow> if timer_count w = 1 then Some d else None)\<rparr>"

definition note_removed :: "u64 \<Rightarrow> 'cb wheel_inner \<Rightarrow> 'cb wheel_inner" where
  "note_removed removed w =
     (if earliest_deadline w = Some removed then w\<lparr>earliest_deadline := None\<rparr> else w)"

fun list_min :: "u64 list \<Rightarrow> u64 option" where
  "list_min [] = None"
| "list_min (d # ds) = (case list_min ds of None \<Rightarrow> Some d | Some m \<Rightarrow> Some (min d m))"

definition recompute_earliest :: "'cb wheel_inner \<Rightarrow> u64 option \<times> 'cb wheel_inner" where
  "recompute_earliest w =
     (let earliest = list_min (map (\<lambda>(_, e). deadline_tick e) (timers w))
      in (earliest, w\<lparr>earliest_deadline := earliest\<rparr>))"

definition time_until_next :: "instant \<Rightarrow> 'cb wheel_inner \<Rightarrow> duration option \<times> 'cb wheel_inner" where
  "time_until_next now w =
     (if timer_count w = 0 then (None, w)
      else
        let (cached, w) = (case earliest_deadline w of
                             Some e \<Rightarrow> (Some e, w)
                           | None \<Rightarrow> recompute_earliest w)
        in case cached of
             None \<Rightarrow> (None, w)
           | Some earliest \<Rightarrow>
               let now_tick = instant_to_tick w now in
               if earliest \<le> now_tick then (Some 0, w)
               else (Some (from_millis (earliest - now_tick)), w))"

subsection \<open>The operations of \<open>TimerWheel\<close>\<close>

record 'cb timer_wheel =
  inner :: "'cb wheel_inner"
  next_id :: u64

definition timer_wheel_new :: "instant \<Rightarrow> 'cb timer_wheel" where
  "timer_wheel_new now = \<lparr>inner = wheel_inner_new now, next_id = 1\<rparr>"

text \<open>The part of \<open>schedule_once\<close>, \<open>schedule_repeating\<close> and the reschedule loop of \<open>tick\<close>
  that puts an entry under its id into the locked state.\<close>

definition add_entry :: "'cb timer_entry \<Rightarrow> 'cb wheel_inner \<Rightarrow> 'cb wheel_inner" where
  "add_entry entry w =
     (let i = entry_id entry; d = deadline_tick entry;
          w = w\<lparr>timers := hm_insert i entry (timers w), timer_count := timer_count w + 1\<rparr>;
          w = insert_into_wheel i d w
      in note_inserted d w)"

definition schedule_once :: "duration \<Rightarrow> 'cb \<Rightarrow> instant \<Rightarrow> 'cb timer_wheel
    \<Rightarrow> timer_id \<times> 'cb timer_wheel" where
  "schedule_once delay callback now tw =
     (let i = next_id tw;
          tw = tw\<lparr>next_id := next_id tw + 1\<rparr>;
          deadline = instant_to_tick (inner tw) now + as_millis_u64 delay;
          entry = \<lparr>entry_id = i, deadline_tick = deadline, kind = Once (Some callback)\<rparr>
      in (i, tw\<lparr>inner := add_entry entry (inner tw)\<rparr>))"

definition schedule_repeating :: "duration \<Rightarrow> 'cb \<Rightarrow> instant \<Rightarrow> 'cb timer_wheel
    \<Rightarrow> timer_id \<times> 'cb timer_wheel" where
  "schedule_repeating interval callback now tw =
     (let i = next_id tw;
          tw = tw\<lparr>next_id := next_id tw + 1\<rparr>;
          deadline = instant_to_tick (inner tw) now + as_millis_u64 interval;
          entry = \<lparr>entry_id = i, deadline_tick = deadline, kind = Repeating callback interval\<rparr>
      in (i, tw\<lparr>inner := add_entry entry (inner tw)\<rparr>))"

definition cancel_inner :: "timer_id \<Rightarrow> 'cb wheel_inner \<Rightarrow> bool \<times> 'cb wheel_inner" where
  "cancel_inner i w =
     (case hm_get (timers w) i of
        Some entry \<Rightarrow>
          let w = w\<lparr>timers := hm_remove i (timers w), timer_count := timer_count w - 1\<rparr>
          in (True, note_removed (deadline_tick entry) w)
      | None \<Rightarrow>
          if i \<in> in_flight w
          then (True, w\<lparr>canceled_in_flight := insert i (canceled_in_flight w)\<rparr>)
          else (False, w))"

definition cancel :: "timer_id \<Rightarrow> 'cb timer_wheel \<Rightarrow> bool \<times> 'cb timer_wheel" where
  "cancel i tw = (let (b, w) = cancel_inner i (inner tw) in (b, tw\<lparr>inner := w\<rparr>))"

definition is_repeating :: "'cb timer_entry \<Rightarrow> bool" where
  "is_repeating entry = (case kind entry of Repeating _ _ \<Rightarrow> True | Once _ \<Rightarrow> False)"

definition mark_in_flight :: "'cb timer_entry list \<Rightarrow> 'cb wheel_inner \<Rightarrow> 'cb wheel_inner" where
  "mark_in_flight expired w =
     w\<lparr>in_flight := in_flight w \<union> set (map entry_id (filter is_repeating expired))\<rparr>"

fun fire_callbacks :: "('cb \<Rightarrow> 's \<Rightarrow> 's) \<Rightarrow> 'cb timer_entry list \<Rightarrow> 'cb timer_entry list \<Rightarrow> 's
    \<Rightarrow> 'cb timer_entry list \<times> 's" where
  "fire_callbacks run [] to_reschedule s = (to_reschedule, s)"
| "fire_callbacks run (entry # expired) to_reschedule s =
     (case kind entry of
        Once None \<Rightarrow> fire_callbacks run expired to_reschedule s
      | Once (Some cb) \<Rightarrow> fire_callbacks run expired to_reschedule (run cb s)
      | Repeating cb _ \<Rightarrow> fire_callbacks run expired (to_reschedule @ [entry]) (run cb s))"

fun reschedule_loop :: "u64 \<Rightarrow> 'cb timer_entry list \<Rightarrow> 'cb wheel_inner \<Rightarrow> 'cb wheel_inner" where
  "reschedule_loop now_tick [] w = w"
| "reschedule_loop now_tick (entry # rest) w =
     (let i = entry_id entry;
          w = w\<lparr>in_flight := in_flight w - {i}\<rparr> in
      if i \<in> canceled_in_flight w then
        reschedule_loop now_tick rest (w\<lparr>canceled_in_flight := canceled_in_flight w - {i}\<rparr>)
      else case kind entry of
        Once _ \<Rightarrow> reschedule_loop now_tick rest w
      | Repeating _ interval \<Rightarrow>
          reschedule_loop now_tick rest
            (add_entry (entry\<lparr>deadline_tick := now_tick + as_millis_u64 interval\<rparr>) w))"

definition reschedule :: "instant \<Rightarrow> 'cb timer_entry list \<Rightarrow> 'cb wheel_inner \<Rightarrow> 'cb wheel_inner" where
  "reschedule now to_reschedule w =
     (if to_reschedule = [] then w
      else reschedule_loop (instant_to_tick w now) to_reschedule w)"

text \<open>One call of \<open>tick\<close> that nothing interleaves with: \<open>now\<close> is the clock at its start,
  \<open>later\<close> the clock when the callbacks have run. The expired entries are returned too.\<close>

definition tick :: "('cb \<Rightarrow> 'cb timer_wheel \<Rightarrow> 'cb timer_wheel) \<Rightarrow> instant \<Rightarrow> instant
    \<Rightarrow> 'cb timer_wheel \<Rightarrow> 'cb timer_entry list \<times> 'cb timer_wheel" where
  "tick run now later tw =
     (let (expired, w) = advance_to now (inner tw);
          tw = tw\<lparr>inner := w\<rparr> in
      if expired = [] then (expired, tw)
      else
        let tw = tw\<lparr>inner := mark_in_flight expired (inner tw)\<rparr>;
            (to_reschedule, tw) = fire_callbacks run expired [] tw
        in (expired, tw\<lparr>inner := reschedule later to_reschedule (inner tw)\<rparr>))"

definition pending_count :: "'cb timer_wheel \<Rightarrow> usize" where
  "pending_count tw = timer_count (inner tw)"

definition wheel_time_until_next :: "instant \<Rightarrow> 'cb timer_wheel \<Rightarrow> duration option \<times> 'cb timer_wheel" where
  "wheel_time_until_next now tw =
     (let (r, w) = time_until_next now (inner tw) in (r, tw\<lparr>inner := w\<rparr>))"

end
