(* ===== verification/Wheel_Placement.thy ===== *)
theory Wheel_Placement
  imports Timer_Wheel "HOL-Library.Multiset"
begin

section \<open>Where the timer wheel keeps its timers\<close>

text \<open>
  The placement invariant of the timer wheel: every live timer has exactly one place, in a
  slot whose next visit by the cursor is no later than its deadline, or in the overflow
  list with a deadline out of the wheel's range. Word operations are read as arithmetic on
  \<open>nat\<close>; \<open>cursor\<close> is the current tick and \<open>due_tick\<close> a deadline as numbers.
\<close>

unbundle bit_operations_syntax

definition cursor :: "'cb wheel_inner \<Rightarrow> nat" where
  "cursor w = unat (current_tick w)"

definition due_tick :: "'cb timer_entry \<Rightarrow> nat" where
  "due_tick e = unat (deadline_tick e)"

subsection \<open>Slot and level arithmetic\<close>

lemmas wheel_constants = NUM_LEVELS_def LEVEL_BITS_def LEVEL_SIZE_def SHIFTS_def MASKS_def

lemma level_cases: "l < 4 \<Longrightarrow> l = 0 \<or> l = 1 \<or> l = 2 \<or> l = (3 :: nat)"
  by auto

lemma mask_eqs: "(0xFF :: u64) = mask 8" "(0x3F :: u64) = mask 6"
  by (simp_all add: mask_eq_exp_minus_1)

lemma unat_drop_mask:
  "unat (drop_bit n (x :: u64) AND mask m) = (unat x div 2 ^ n) mod 2 ^ m"
  by (simp only: take_bit_eq_mask [symmetric] unsigned_take_bit_eq unat_drop_bit_eq
      take_bit_eq_mod [where 'a = nat] drop_bit_eq_div [where 'a = nat])

lemma and_low_mask_eq_0:
  "(x :: u64) AND (push_bit n 1 - 1) = 0 \<longleftrightarrow> 2 ^ n dvd unat x"
proof -
  have "push_bit n (1 :: u64) - 1 = mask n"
    by (simp add: mask_eq_exp_minus_1 push_bit_eq_mult)
  moreover have "unat (x AND mask n) = unat x mod 2 ^ n"
    by (simp only: take_bit_eq_mask [symmetric] unsigned_take_bit_eq take_bit_eq_mod [where 'a = nat])
  ultimately show ?thesis
    by (metis unat_eq_zero dvd_eq_mod_eq_0)
qed

lemma slot_of_div_mod:
  assumes "l < 4"
  shows "slot_of l t = (unat t div 2 ^ (SHIFTS ! l)) mod (LEVEL_SIZE ! l)"
  using level_cases [OF assms] unat_drop_mask [of 0 t 8] unat_drop_mask [of 8 t 6]
    unat_drop_mask [of 14 t 6] unat_drop_mask [of 20 t 6]
  by (auto simp: slot_of_def wheel_constants mask_eqs)

lemma first_slot: "unat (t AND (MASKS ! 0)) = unat t mod 256"
  using unat_drop_mask [of 0 t 8] by (simp add: MASKS_def mask_eqs)

lemma level_size_pos: "l < 4 \<Longrightarrow> 0 < LEVEL_SIZE ! l"
  using level_cases [of l] by (auto simp: wheel_constants)

lemma slot_of_bound: "l < 4 \<Longrightarrow> slot_of l t < LEVEL_SIZE ! l"
  by (simp add: slot_of_div_mod level_size_pos)

lemma unat_MAX_RANGE_TICKS [simp]: "unat MAX_RANGE_TICKS = 67108864"
  by (simp add: MAX_RANGE_TICKS_def)

lemma level_for_delta_bounds:
  "level_for_delta delta =
     (if unat delta < 256 then 0 else if unat delta < 16384 then 1
      else if unat delta < 1048576 then 2 else 3)"
  by (simp add: level_for_delta_def wheel_constants word_less_nat_alt Let_def)

lemma level_for_delta_less: "level_for_delta delta < 4"
  by (simp add: level_for_delta_bounds)

text \<open>
  \<open>slot_ok lo c l s d\<close>: with the cursor at \<open>c\<close>, slot \<open>s\<close> of level \<open>l\<close> is the right place for
  the deadline \<open>d\<close>. On level 0 the cursor reaches the slot exactly at \<open>d\<close>; on a higher level
  the slot is the deadline's, between \<open>lo\<close> and 64 slots ahead of the cursor's.
\<close>

definition slot_ok :: "nat \<Rightarrow> nat \<Rightarrow> nat \<Rightarrow> nat \<Rightarrow> nat \<Rightarrow> bool" where
  "slot_ok lo c l s d =
     (if l = 0 then c \<le> d \<and> d < c + 256 \<and> s = d mod 256
      else c div 2 ^ (SHIFTS ! l) + lo \<le> d div 2 ^ (SHIFTS ! l)
           \<and> d div 2 ^ (SHIFTS ! l) \<le> c div 2 ^ (SHIFTS ! l) + 64
           \<and> s = (d div 2 ^ (SHIFTS ! l)) mod 64)"

lemma div_ahead:
  fixes c d g :: nat
  assumes "0 < g" and "c + g \<le> d" and "d < c + 64 * g"
  shows "c div g + 1 \<le> d div g" and "d div g \<le> c div g + 64"
proof -
  have "(c + g) div g \<le> d div g"
    by (rule div_le_mono) (rule assms(2))
  with assms(1) show "c div g + 1 \<le> d div g" by (simp add: div_add_self2)
  have "d div g \<le> (c + 64 * g) div g"
    by (rule div_le_mono) (use assms(3) in simp)
  with assms(1) show "d div g \<le> c div g + 64" by simp
qed

lemma slot_ok_insert:
  assumes "cur \<le> dl" and "unat dl - unat cur < 67108864" and "l = level_for_delta (saturating_sub dl cur)"
  shows "slot_ok 1 (unat cur) l (slot_of l dl) (unat dl)"
proof -
  let ?c = "unat cur" and ?d = "unat dl"
  have le: "?c \<le> ?d"
    using assms(1) by (simp add: word_le_nat_alt)
  have l: "l = (if ?d - ?c < 256 then 0 else if ?d - ?c < 16384 then 1
                else if ?d - ?c < 1048576 then 2 else 3)"
    by (simp add: assms(3) level_for_delta_bounds unat_saturating_sub)
  consider "l = 0" "?d < ?c + 256"
    | "l = 1" "?c + 256 \<le> ?d" "?d < ?c + 64 * 256"
    | "l = 2" "?c + 16384 \<le> ?d" "?d < ?c + 64 * 16384"
    | "l = 3" "?c + 1048576 \<le> ?d" "?d < ?c + 64 * 1048576"
    using le l assms(2) by (auto split: if_splits)
  then show ?thesis
  proof cases
    case 1
    with le show ?thesis
      by (simp add: slot_ok_def slot_of_div_mod wheel_constants)
  next
    case 2
    from div_ahead [OF _ 2(2,3)] 2(1) show ?thesis
      by (simp add: slot_ok_def slot_of_div_mod wheel_constants)
  next
    case 3
    from div_ahead [OF _ 3(2,3)] 3(1) show ?thesis
      by (simp add: slot_ok_def slot_of_div_mod wheel_constants)
  next
    case 4
    from div_ahead [OF _ 4(2,3)] 4(1) show ?thesis
      by (simp add: slot_ok_def slot_of_div_mod wheel_constants)
  qed
qed

lemma slot_ok_lo: "slot_ok lo c l s d \<Longrightarrow> lo' \<le> lo \<Longrightarrow> slot_ok lo' c l s d"
  by (auto simp: slot_ok_def split: if_splits)

lemma slot_ok_ahead: "slot_ok 1 c l s d \<Longrightarrow> l \<noteq> 0 \<Longrightarrow> c < d"
  by (auto simp: slot_ok_def) (meson div_le_mono leD less_or_eq_imp_le not_less_eq_eq not_le)

text \<open>When the cursor moves on, a higher-level slot comes one closer only at a wrap.\<close>

lemma slot_ok_tick:
  assumes "slot_ok 1 c l s d" and "l \<noteq> 0" and "l < 4"
  shows "slot_ok (if 2 ^ (SHIFTS ! l) dvd c + 1 then 0 else 1) (c + 1) l s d"
proof (cases "2 ^ (SHIFTS ! l) dvd c + 1")
  case True
  then have "(c + 1) div 2 ^ (SHIFTS ! l) = c div 2 ^ (SHIFTS ! l) + 1"
    by (metis Suc_eq_plus1 div_Suc dvd_imp_mod_0)
  with assms True show ?thesis by (simp add: slot_ok_def)
next
  case False
  then have "(c + 1) div 2 ^ (SHIFTS ! l) = c div 2 ^ (SHIFTS ! l)"
    by (metis Suc_eq_plus1 div_Suc dvd_eq_mod_eq_0)
  with assms False show ?thesis by (simp add: slot_ok_def)
qed

subsection \<open>The ids in the wheel\<close>

definition shape :: "'cb wheel_inner \<Rightarrow> bool" where
  "shape w \<longleftrightarrow> map length (levels w) = LEVEL_SIZE"

definition slot_ids :: "'cb wheel_inner \<Rightarrow> nat \<Rightarrow> nat \<Rightarrow> u64 set" where
  "slot_ids w l s = (if l < 4 \<and> s < LEVEL_SIZE ! l then set (levels w ! l ! s) else {})"

definition all_ids :: "'cb wheel_inner \<Rightarrow> u64 list" where
  "all_ids w = concat (concat (levels w)) @ overflow w"

lemma shape_lengths:
  assumes "shape w"
  shows "length (levels w) = 4" and "l < 4 \<Longrightarrow> length (levels w ! l) = LEVEL_SIZE ! l"
proof -
  have "length (map length (levels w)) = length LEVEL_SIZE"
    using assms by (simp add: shape_def)
  then show len: "length (levels w) = 4"
    by (simp add: LEVEL_SIZE_def)
  show "length (levels w ! l) = LEVEL_SIZE ! l" if "l < 4"
    using assms that len by (metis nth_map shape_def)
qed

lemma map_length_update:
  "length x = length (ls ! l) \<Longrightarrow> map length (ls[l := x]) = map length ls"
  using list_update_id [of "map length ls" l]
  by (cases "l < length ls") (simp_all add: map_update list_update_beyond)

lemma shape_push: "map length (push_slot l s i ls) = map length ls"
  by (simp add: push_slot_def map_length_update)

lemma shape_clear: "map length (clear_slot l s ls) = map length ls"
  by (simp add: clear_slot_def map_length_update)

lemma mset_concat_update:
  "l < length xss \<Longrightarrow> mset (concat (xss[l := ys])) + mset (xss ! l) = mset (concat xss) + mset ys"
proof (induction xss arbitrary: l)
  case Nil
  then show ?case by simp
next
  case (Cons xs xss)
  then show ?case
    by (cases l) (simp_all add: add.commute add.left_commute union_assoc)
qed

lemma mset_slots_update:
  assumes "l < length ls" and "s < length (ls ! l)"
  shows "mset (concat (concat (ls[l := (ls ! l)[s := ys]]))) + mset (ls ! l ! s)
    = mset (concat (concat ls)) + mset ys"
proof -
  let ?row = "(ls ! l)[s := ys]"
  have concat2: "concat (concat xs) = concat (map concat xs)" for xs :: "'a list list list"
    by (induction xs) simp_all
  have "mset (concat (concat (ls[l := ?row]))) + mset (concat (ls ! l))
      = mset (concat (concat ls)) + mset (concat ?row)"
    using mset_concat_update [of l "map concat ls" "concat ?row"] assms(1)
    by (simp add: concat2 map_update)
  moreover have "mset (concat ?row) + mset (ls ! l ! s) = mset (concat (ls ! l)) + mset ys"
    by (rule mset_concat_update) (rule assms(2))
  ultimately have "(mset (concat (concat (ls[l := ?row]))) + mset (ls ! l ! s)) + mset (concat (ls ! l))
      = (mset (concat (concat ls)) + mset ys) + mset (concat (ls ! l))"
    by (metis add.assoc add.commute)
  then show ?thesis
    by (rule add_right_imp_eq)
qed

lemma mset_push:
  assumes "l < length ls" and "s < length (ls ! l)"
  shows "mset (concat (concat (push_slot l s i ls))) = add_mset i (mset (concat (concat ls)))"
proof -
  have "mset (concat (concat (push_slot l s i ls))) + mset (ls ! l ! s)
      = add_mset i (mset (concat (concat ls))) + mset (ls ! l ! s)"
    using mset_slots_update [OF assms, of "ls ! l ! s @ [i]"] by (simp add: push_slot_def)
  then show ?thesis
    by (rule add_right_imp_eq)
qed

lemma mset_clear:
  assumes "l < length ls" and "s < length (ls ! l)"
  shows "mset (concat (concat (clear_slot l s ls))) + mset (ls ! l ! s) = mset (concat (concat ls))"
  using mset_slots_update [OF assms, of "[]"] by (simp add: clear_slot_def)

lemma slot_ids_push:
  assumes "shape w" and "l < 4" and "s < LEVEL_SIZE ! l"
  shows "slot_ids (w\<lparr>levels := push_slot l s i (levels w)\<rparr>) l' s'
    = (if l' = l \<and> s' = s then insert i (slot_ids w l s) else slot_ids w l' s')"
  using assms shape_lengths [OF assms(1)]
  by (auto simp: slot_ids_def push_slot_def nth_list_update)

lemma slot_ids_clear:
  assumes "shape w" and "l < 4" and "s < LEVEL_SIZE ! l"
  shows "slot_ids (w\<lparr>levels := clear_slot l s (levels w)\<rparr>) l' s'
    = (if l' = l \<and> s' = s then {} else slot_ids w l' s')"
  using assms shape_lengths [OF assms(1)]
  by (auto simp: slot_ids_def clear_slot_def nth_list_update)

lemma all_ids_slots:
  assumes "shape w"
  shows "set (all_ids w) = (\<Union>l. \<Union>s. slot_ids w l s) \<union> set (overflow w)"
proof -
  have "i \<in> set (concat (concat (levels w))) \<longleftrightarrow> (\<exists>l s. i \<in> slot_ids w l s)" for i
  proof
    assume "i \<in> set (concat (concat (levels w)))"
    then obtain row slot where "row \<in> set (levels w)" "slot \<in> set row" "i \<in> set slot"
      by auto
    then obtain l s where "l < length (levels w)" "s < length (levels w ! l)"
      "i \<in> set (levels w ! l ! s)"
      by (metis in_set_conv_nth)
    with shape_lengths [OF assms] show "\<exists>l s. i \<in> slot_ids w l s"
      by (intro exI [of _ l] exI [of _ s]) (simp add: slot_ids_def)
  next
    assume "\<exists>l s. i \<in> slot_ids w l s"
    then obtain l s where "l < 4" "s < LEVEL_SIZE ! l" "i \<in> set (levels w ! l ! s)"
      by (auto simp: slot_ids_def split: if_splits)
    with shape_lengths [OF assms] show "i \<in> set (concat (concat (levels w)))"
      by (auto intro!: bexI [of _ "levels w ! l"] bexI [of _ "levels w ! l ! s"])
  qed
  then have "set (concat (concat (levels w))) = (\<Union>l. \<Union>s. slot_ids w l s)"
    by (intro set_eqI) (simp only: UN_iff bex_UNIV)
  then show ?thesis
    by (simp only: all_ids_def set_append)
qed

subsection \<open>The placement invariant\<close>

definition lookup :: "'cb wheel_inner \<Rightarrow> u64 \<Rightarrow> 'cb timer_entry option" where
  "lookup w i = hm_get (timers w) i"

definition live :: "'cb wheel_inner \<Rightarrow> u64 set" where
  "live w = dom (lookup w)"

text \<open>The timers table: distinct keys, entries under their own id, and the count.\<close>

definition store_ok :: "'cb wheel_inner \<Rightarrow> bool" where
  "store_ok w \<longleftrightarrow> hm_wf (timers w) \<and> unat (timer_count w) = length (timers w)
     \<and> (\<forall>i e. lookup w i = Some e \<longrightarrow> entry_id e = i)"

text \<open>
  \<open>placed k w\<close>: every live id in a slot is in a right one. While a tick cascades, the
  levels from \<open>k\<close> on still hold the slot the cursor has just reached.
\<close>

definition min_ahead :: "nat \<Rightarrow> nat \<Rightarrow> nat \<Rightarrow> nat" where
  "min_ahead k l c = (if k \<le> l \<and> 2 ^ (SHIFTS ! l) dvd c then 0 else 1)"

definition placed :: "nat \<Rightarrow> 'cb wheel_inner \<Rightarrow> bool" where
  "placed k w \<longleftrightarrow> (\<forall>l s i e. i \<in> slot_ids w l s \<longrightarrow> lookup w i = Some e \<longrightarrow>
     slot_ok (min_ahead k l (cursor w)) (cursor w) l s (due_tick e))"

text \<open>\<open>overflow_ok T w\<close>: live timers in the overflow list are due at \<open>T\<close> or later, and not
  before the cached minimum.\<close>

definition overflow_ok :: "nat \<Rightarrow> 'cb wheel_inner \<Rightarrow> bool" where
  "overflow_ok T w \<longleftrightarrow> (\<forall>i e. i \<in> set (overflow w) \<longrightarrow> lookup w i = Some e \<longrightarrow>
     T \<le> due_tick e \<and> (\<exists>m. overflow_min_deadline w = Some m \<and> unat m \<le> due_tick e))"

text \<open>\<open>cover pend w\<close>: no id has two places (the ids \<open>pend\<close> are being moved) and every live
  timer has one.\<close>

definition cover :: "u64 list \<Rightarrow> 'cb wheel_inner \<Rightarrow> bool" where
  "cover pend w \<longleftrightarrow> distinct (all_ids w @ pend) \<and> live w \<subseteq> set (all_ids w) \<union> set pend"

definition earliest_ok :: "'cb wheel_inner \<Rightarrow> bool" where
  "earliest_ok w \<longleftrightarrow> (\<forall>m. earliest_deadline w = Some m \<longrightarrow>
     (\<exists>i e. lookup w i = Some e \<and> deadline_tick e = m)
     \<and> (\<forall>i e. lookup w i = Some e \<longrightarrow> m \<le> deadline_tick e))"

definition wheel_inv :: "'cb wheel_inner \<Rightarrow> bool" where
  "wheel_inv w \<longleftrightarrow> shape w \<and> store_ok w \<and> placed 4 w
     \<and> overflow_ok (cursor w + 67108864) w \<and> cover [] w \<and> earliest_ok w"

definition mid :: "nat \<Rightarrow> nat \<Rightarrow> u64 list \<Rightarrow> 'cb wheel_inner \<Rightarrow> bool" where
  "mid k T pend w \<longleftrightarrow> shape w \<and> placed k w \<and> overflow_ok T w \<and> cover pend w"

lemma frame_lookup [simp]:
  "lookup (insert_into_wheel i d w) = lookup w" "cursor (insert_into_wheel i d w) = cursor w"
  "lookup (reinsert_ids ids w) = lookup w" "cursor (reinsert_ids ids w) = cursor w"
  "lookup (cascade l w) = lookup w" "cursor (cascade l w) = cursor w"
  "lookup (cascade_levels l bs sh w) = lookup w" "cursor (cascade_levels l bs sh w) = cursor w"
  by (simp_all add: lookup_def fun_eq_iff cursor_def)

lemma frame_live [simp]:
  "live (insert_into_wheel i d w) = live w" "live (reinsert_ids ids w) = live w"
  "live (cascade l w) = live w" "live (cascade_levels l bs sh w) = live w"
  by (simp_all add: live_def)

lemma lookup_update [simp]:
  "lookup (w\<lparr>levels := ls\<rparr>) = lookup w" "lookup (w\<lparr>overflow := ov\<rparr>) = lookup w"
  "lookup (w\<lparr>overflow_min_deadline := m\<rparr>) = lookup w" "lookup (w\<lparr>current_tick := t\<rparr>) = lookup w"
  "lookup (w\<lparr>earliest_deadline := x\<rparr>) = lookup w" "lookup (w\<lparr>in_flight := f\<rparr>) = lookup w"
  "lookup (w\<lparr>canceled_in_flight := f\<rparr>) = lookup w" "lookup (w\<lparr>timer_count := n\<rparr>) = lookup w"
  by (simp_all add: lookup_def fun_eq_iff)

lemma cursor_update [simp]:
  "cursor (w\<lparr>levels := ls\<rparr>) = cursor w" "cursor (w\<lparr>overflow := ov\<rparr>) = cursor w"
  "cursor (w\<lparr>overflow_min_deadline := m\<rparr>) = cursor w" "cursor (w\<lparr>timers := ts\<rparr>) = cursor w"
  "cursor (w\<lparr>earliest_deadline := x\<rparr>) = cursor w" "cursor (w\<lparr>in_flight := f\<rparr>) = cursor w"
  "cursor (w\<lparr>canceled_in_flight := f\<rparr>) = cursor w" "cursor (w\<lparr>timer_count := n\<rparr>) = cursor w"
  "cursor (w\<lparr>current_tick := t\<rparr>) = unat t"
  by (simp_all add: cursor_def)

lemma slot_ids_update [simp]:
  "slot_ids (w\<lparr>timers := ts\<rparr>) = slot_ids w" "slot_ids (w\<lparr>overflow := ov\<rparr>) = slot_ids w"
  "slot_ids (w\<lparr>overflow_min_deadline := m\<rparr>) = slot_ids w" "slot_ids (w\<lparr>current_tick := t\<rparr>) = slot_ids w"
  "slot_ids (w\<lparr>earliest_deadline := x\<rparr>) = slot_ids w" "slot_ids (w\<lparr>timer_count := n\<rparr>) = slot_ids w"
  "slot_ids (w\<lparr>in_flight := f\<rparr>) = slot_ids w" "slot_ids (w\<lparr>canceled_in_flight := f\<rparr>) = slot_ids w"
  by (simp_all add: slot_ids_def fun_eq_iff)

lemma cover_perm:
  assumes "cover pend w" and "live w' = live w"
    and "mset (all_ids w') + mset pend' = mset (all_ids w) + mset pend"
  shows "cover pend' w'"
proof -
  have m: "mset (all_ids w' @ pend') = mset (all_ids w @ pend)"
    using assms(3) by simp
  have "distinct (all_ids w' @ pend') = distinct (all_ids w @ pend)"
    by (rule mset_eq_imp_distinct_iff) (rule m)
  moreover have "set (all_ids w') \<union> set pend' = set (all_ids w) \<union> set pend"
    using mset_eq_setD [OF m] by simp
  ultimately show ?thesis
    using assms(1,2) by (simp add: cover_def)
qed

lemma mid_skip: "mid k T (i # pend) w \<Longrightarrow> lookup w i = None \<Longrightarrow> mid k T pend w"
  by (auto simp: mid_def cover_def live_def domIff)

text \<open>Inserting a live id that has no place, at or after its turn, gives it a right one.\<close>

lemma insert_into_wheel_eq:
  "insert_into_wheel i d w =
     (if 67108864 \<le> unat d - cursor w
      then w\<lparr>overflow := overflow w @ [i], overflow_min_deadline :=
        Some (case overflow_min_deadline w of None \<Rightarrow> d | Some m \<Rightarrow> min m d)\<rparr>
      else let l = level_for_delta (saturating_sub d (current_tick w))
           in w\<lparr>levels := push_slot l (slot_of l d) i (levels w)\<rparr>)"
  by (simp add: insert_into_wheel_def Let_def word_le_nat_alt unat_saturating_sub cursor_def)

lemma mid_insert_far:
  assumes "mid k T (i # pend) w" and "lookup w i = Some e" and "T \<le> due_tick e"
  shows "mid k T pend (w\<lparr>overflow := overflow w @ [i], overflow_min_deadline :=
    Some (case overflow_min_deadline w of None \<Rightarrow> deadline_tick e | Some m \<Rightarrow> min m (deadline_tick e))\<rparr>)"
    (is "mid k T pend ?w")
proof -
  have "overflow_ok T ?w"
    using assms unfolding mid_def overflow_ok_def
    by (auto simp: due_tick_def min_def word_le_nat_alt split: option.splits)
  moreover have "cover (i # pend) w"
    using assms(1) by (simp add: mid_def)
  then have "cover pend ?w"
    by (rule cover_perm) (simp_all add: all_ids_def live_def)
  ultimately show ?thesis
    using assms(1) by (simp add: mid_def placed_def shape_def)
qed

lemma mid_insert_slot:
  assumes "mid k T (i # pend) w" and "lookup w i = Some e" and "l < 4"
    and "slot_ok 1 (cursor w) l (slot_of l (deadline_tick e)) (due_tick e)"
  shows "mid k T pend (w\<lparr>levels := push_slot l (slot_of l (deadline_tick e)) i (levels w)\<rparr>)"
    (is "mid k T pend ?w")
proof -
  let ?s = "slot_of l (deadline_tick e)"
  have shape: "shape w" and cov: "cover (i # pend) w" and s: "?s < LEVEL_SIZE ! l"
    using assms(1,3) by (simp_all add: mid_def slot_of_bound)
  have "slot_ok (min_ahead k l (cursor w)) (cursor w) l ?s (due_tick e)"
    using assms(4) by (rule slot_ok_lo) (simp add: min_ahead_def)
  then have "placed k ?w"
    using assms(1,2) unfolding mid_def placed_def
    by (auto simp: slot_ids_push [OF shape assms(3) s] split: if_splits)
  moreover have "mset (concat (concat (push_slot l ?s i (levels w))))
      = add_mset i (mset (concat (concat (levels w))))"
    using shape_lengths [OF shape] assms(3) s by (intro mset_push) simp_all
  then have "cover pend ?w"
    by (intro cover_perm [OF cov]) (simp_all add: all_ids_def live_def)
  moreover have "shape ?w" "overflow_ok T ?w"
    using assms(1) shape by (simp_all add: mid_def overflow_ok_def shape_def shape_push)
  ultimately show ?thesis
    by (simp add: mid_def)
qed

lemma mid_insert:
  assumes mid: "mid k T (i # pend) w" and e: "lookup w i = Some e"
    and due: "cursor w \<le> due_tick e" and T: "T \<le> cursor w + 67108864"
  shows "mid k T pend (insert_into_wheel i (deadline_tick e) w)"
proof (cases "67108864 \<le> due_tick e - cursor w")
  case True
  then have "T \<le> due_tick e"
    using due T by simp
  with True show ?thesis
    using mid_insert_far [OF mid e] by (simp add: insert_into_wheel_eq due_tick_def)
next
  case False
  let ?l = "level_for_delta (saturating_sub (deadline_tick e) (current_tick w))"
  have "slot_ok 1 (cursor w) ?l (slot_of ?l (deadline_tick e)) (due_tick e)"
    using False due slot_ok_insert [of "current_tick w" "deadline_tick e", OF _ _ refl]
    by (simp add: cursor_def due_tick_def word_le_nat_alt)
  with False show ?thesis
    using mid_insert_slot [OF mid e level_for_delta_less]
    by (simp add: insert_into_wheel_eq due_tick_def Let_def)
qed

lemma mid_reinsert:
  "mid k T (ids @ pend) w \<Longrightarrow> T \<le> cursor w + 67108864 \<Longrightarrow>
     \<forall>i e. i \<in> set ids \<longrightarrow> lookup w i = Some e \<longrightarrow> cursor w \<le> due_tick e \<Longrightarrow>
     mid k T pend (reinsert_ids ids w)"
proof (induction ids w rule: reinsert_ids.induct)
  case (1 w)
  then show ?case by simp
next
  case (2 i ids w)
  show ?case
  proof (cases "lookup w i")
    case None
    then have "mid k T (ids @ pend) w"
      using "2.prems"(1) mid_skip by simp
    with "2.IH" "2.prems"(2,3) None show ?thesis
      by (auto simp: lookup_def)
  next
    case (Some e)
    then have "mid k T (ids @ pend) (insert_into_wheel i (deadline_tick e) w)"
      using "2.prems" by (intro mid_insert) simp_all
    with "2.IH" "2.prems"(2,3) Some show ?thesis
      by (auto simp: lookup_def [of w])
  qed
qed

end
