(* ===== verification/Wheel_Advance.thy ===== *)
theory Wheel_Advance
  imports Wheel_Placement
begin

section \<open>Advancing the timer wheel\<close>

text \<open>
  What one tick, the loop of ticks and the jump over a long gap do to the live timers:
  exactly the due ones leave the wheel, each once, and the placement invariant holds again.
\<close>

subsection \<open>Cascading\<close>

lemma level_size_high: "0 < l \<Longrightarrow> l < 4 \<Longrightarrow> LEVEL_SIZE ! l = 64"
  using level_cases [of l] by (auto simp: wheel_constants)

text \<open>Emptying a slot leaves its ids without a place.\<close>

lemma clear_moves:
  assumes "shape w" and "cover [] w" and "l < 4" and "s < LEVEL_SIZE ! l"
  defines "w' \<equiv> w\<lparr>levels := clear_slot l s (levels w)\<rparr>"
  shows "shape w'" and "cover (levels w ! l ! s) w'"
proof -
  show "shape w'"
    using assms(1) by (simp add: w'_def shape_def shape_clear)
  show "cover (levels w ! l ! s) w'"
  proof (rule cover_perm [OF assms(2)])
    have "mset (concat (concat (clear_slot l s (levels w)))) + mset (levels w ! l ! s)
        = mset (concat (concat (levels w)))"
      using shape_lengths [OF assms(1)] assms(3,4) by (intro mset_clear) simp_all
    then show "mset (all_ids w') + mset (levels w ! l ! s) = mset (all_ids w) + mset []"
      by (simp add: w'_def all_ids_def union_commute union_lcomm)
  qed (simp add: w'_def live_def)
qed

lemma slot_passed:
  assumes "slot_ok (min_ahead k k c) c k s d" and "0 < k" and "2 ^ (SHIFTS ! k) dvd c"
    and "s \<noteq> (c div 2 ^ (SHIFTS ! k)) mod 64"
  shows "slot_ok 1 c k s d"
proof -
  let ?g = "2 ^ (SHIFTS ! k) :: nat"
  have ahead: "c div ?g \<le> d div ?g" "d div ?g \<le> c div ?g + 64" "s = d div ?g mod 64"
    using assms(1-3) by (simp_all add: slot_ok_def min_ahead_def)
  with assms(4) have "c div ?g + 1 \<le> d div ?g"
    by (metis Suc_eq_plus1 Suc_leI le_neq_implies_less)
  with ahead assms(2) show ?thesis
    by (simp add: slot_ok_def)
qed

lemma placed_clear:
  assumes "shape w" and "placed k w" and "0 < k" "k < 4" and "2 ^ (SHIFTS ! k) dvd cursor w"
    and s: "s = (cursor w div 2 ^ (SHIFTS ! k)) mod 64" "s < LEVEL_SIZE ! k"
  shows "placed (Suc k) (w\<lparr>levels := clear_slot k s (levels w)\<rparr>)"
  unfolding placed_def
proof (intro allI impI)
  fix l s' i e
  assume "i \<in> slot_ids (w\<lparr>levels := clear_slot k s (levels w)\<rparr>) l s'"
    and "lookup (w\<lparr>levels := clear_slot k s (levels w)\<rparr>) i = Some e"
  then have i: "i \<in> slot_ids w l s'" and not_here: "\<not> (l = k \<and> s' = s)" and e: "lookup w i = Some e"
    by (auto simp: slot_ids_clear [OF assms(1,4) s(2)] split: if_splits)
  from assms(2) i e have ok: "slot_ok (min_ahead k l (cursor w)) (cursor w) l s' (due_tick e)"
    by (simp add: placed_def)
  have "slot_ok (min_ahead (Suc k) l (cursor w)) (cursor w) l s' (due_tick e)"
  proof (cases "l = k")
    case False
    then have "min_ahead (Suc k) l (cursor w) = min_ahead k l (cursor w)"
      by (auto simp: min_ahead_def)
    with ok show ?thesis by simp
  next
    case True
    with ok not_here have "slot_ok 1 (cursor w) k s' (due_tick e)"
      by (intro slot_passed assms(3,5)) (simp_all add: s(1))
    with True show ?thesis
      by (simp add: min_ahead_def)
  qed
  then show "slot_ok (min_ahead (Suc k) l (cursor (w\<lparr>levels := clear_slot k s (levels w)\<rparr>)))
      (cursor (w\<lparr>levels := clear_slot k s (levels w)\<rparr>)) l s' (due_tick e)"
    by simp
qed

lemma slot_not_overdue:
  assumes "slot_ok lo c k s d" and "0 < k" and "2 ^ (SHIFTS ! k) dvd c"
  shows "c \<le> d"
proof -
  have "c div 2 ^ (SHIFTS ! k) \<le> d div 2 ^ (SHIFTS ! k)"
    using assms(1,2) by (auto simp: slot_ok_def)
  then have "c div 2 ^ (SHIFTS ! k) * 2 ^ (SHIFTS ! k) \<le> d"
    by (metis dual_order.trans mult_le_mono1 div_times_less_eq_dividend)
  with assms(3) show ?thesis
    by simp
qed

lemma mid_cascade:
  assumes mid: "mid k T [] w" and k: "0 < k" "k < 4"
    and wrap: "2 ^ (SHIFTS ! k) dvd cursor w" and T: "T \<le> cursor w + 67108864"
  shows "mid (Suc k) T [] (cascade k w)"
proof -
  let ?s = "slot_of k (current_tick w)"
  let ?ids = "levels w ! k ! ?s"
  let ?w = "w\<lparr>levels := clear_slot k ?s (levels w)\<rparr>"
  from mid have shape: "shape w" and placed: "placed k w" and ov: "overflow_ok T w"
    and cov: "cover [] w"
    by (simp_all add: mid_def)
  have sb: "?s < LEVEL_SIZE ! k" and s: "?s = (cursor w div 2 ^ (SHIFTS ! k)) mod 64"
    using k by (simp_all add: slot_of_bound slot_of_div_mod level_size_high cursor_def)
  have "mid (Suc k) T (?ids @ []) ?w"
    using clear_moves [OF shape cov k(2) sb] placed_clear [OF shape placed k wrap s sb] ov
    by (simp add: mid_def overflow_ok_def)
  moreover have "cursor ?w \<le> due_tick e" if "i \<in> set ?ids" "lookup ?w i = Some e" for i e
  proof -
    have "i \<in> slot_ids w k ?s"
      using that k sb by (simp add: slot_ids_def)
    with placed that(2) have "slot_ok (min_ahead k k (cursor w)) (cursor w) k ?s (due_tick e)"
      by (simp add: placed_def)
    with k(1) wrap show ?thesis
      by (simp add: slot_not_overdue)
  qed
  ultimately have "mid (Suc k) T [] (reinsert_ids ?ids ?w)"
    using T by (intro mid_reinsert) simp_all
  then show ?thesis
    by (simp add: cascade_def Let_def)
qed

lemma mid_no_wrap:
  assumes "mid k T [] w" and "\<forall>l. k \<le> l \<longrightarrow> l < 4 \<longrightarrow> \<not> 2 ^ (SHIFTS ! l) dvd cursor w"
  shows "mid 4 T [] w"
proof -
  have "slot_ids w l s = {}" if "\<not> l < 4" for l s
    using that by (simp add: slot_ids_def)
  moreover have "min_ahead k l (cursor w) = min_ahead 4 l (cursor w)" if "l < 4" for l
    using assms(2) that by (auto simp: min_ahead_def)
  ultimately have "placed 4 w"
    using assms(1) unfolding mid_def placed_def by (metis empty_iff)
  with assms(1) show ?thesis
    by (simp add: mid_def)
qed

lemma shifts_dvd:
  assumes "\<not> 2 ^ (SHIFTS ! k) dvd c" and "k \<le> l" and "l < 4"
  shows "\<not> 2 ^ (SHIFTS ! l) dvd (c :: nat)"
proof -
  have "SHIFTS ! k \<le> SHIFTS ! l"
    using assms(2,3) level_cases [of l] level_cases [of k] by (auto simp: wheel_constants)
  then have "(2 :: nat) ^ (SHIFTS ! k) dvd 2 ^ (SHIFTS ! l)"
    by (rule le_imp_power_dvd)
  with assms(1) show ?thesis
    using dvd_trans by blast
qed

lemma cascade_levels_dvd:
  "cascade_levels l (b # bs) sh w =
     (if 2 ^ sh dvd cursor w then cascade_levels (Suc l) bs (sh + b) (cascade l w) else w)"
  by (simp only: cascade_levels.simps and_low_mask_eq_0 cursor_def)

lemma mid_cascade_step:
  assumes mid: "mid k T [] w" and k: "0 < k" "k < 4" "k' = Suc k" and sh: "sh = SHIFTS ! k"
    and T: "T \<le> cursor w + 67108864"
    and rest: "mid k' T [] (cascade k w) \<Longrightarrow> mid 4 T [] (cascade_levels k' bs (sh + b) (cascade k w))"
  shows "mid 4 T [] (cascade_levels k (b # bs) sh w)"
proof (cases "2 ^ sh dvd cursor w")
  case True
  with rest mid_cascade [OF mid k(1,2) _ T] sh k(3) show ?thesis
    by (simp add: cascade_levels_dvd del: cascade_levels.simps)
next
  case False
  then have "mid 4 T [] w"
    using mid mid_no_wrap shifts_dvd sh by blast
  with False show ?thesis
    by (simp add: cascade_levels_dvd del: cascade_levels.simps)
qed

lemma mid_cascade_levels:
  assumes "mid 1 T [] w" and T: "T \<le> cursor w + 67108864"
  shows "mid 4 T [] (cascade_levels 1 (drop 1 LEVEL_BITS) (LEVEL_BITS ! 0) w)"
proof -
  have bits: "drop 1 LEVEL_BITS = [6, 6, 6]" "LEVEL_BITS ! 0 = 8"
    by (simp_all add: LEVEL_BITS_def)
  show ?thesis
    unfolding bits
  proof (rule mid_cascade_step [OF assms(1), where k' = 2])
    assume m2: "mid 2 T [] (cascade 1 w)"
    show "mid 4 T [] (cascade_levels 2 [6, 6] (8 + 6) (cascade 1 w))"
    proof (rule mid_cascade_step [OF m2, where k' = 3])
      assume m3: "mid 3 T [] (cascade 2 (cascade 1 w))"
      show "mid 4 T [] (cascade_levels 3 [6] (8 + 6 + 6) (cascade 2 (cascade 1 w)))"
        by (rule mid_cascade_step [OF m3, where k' = 4]) (simp_all add: SHIFTS_def T)
    qed (simp_all add: SHIFTS_def T)
  qed (simp_all add: SHIFTS_def T)
qed

subsection \<open>Removing timers\<close>

lemma lookup_remove [simp]: "lookup (w\<lparr>timers := hm_remove i (timers w)\<rparr>) j = (if j = i then None else lookup w j)"
  by (simp add: lookup_def hm_simps)

lemma lookup_insert [simp]:
  "lookup (w\<lparr>timers := hm_insert i e (timers w)\<rparr>) j = (if j = i then Some e else lookup w j)"
  by (simp add: lookup_def hm_simps)

lemma store_ok_remove:
  assumes "store_ok w" and "lookup w i = Some e"
  shows "store_ok (w\<lparr>timers := hm_remove i (timers w), timer_count := timer_count w - 1\<rparr>)"
proof -
  have wf: "hm_wf (timers w)" and n: "unat (timer_count w) = length (timers w)"
    using assms(1) by (simp_all add: store_ok_def)
  have "hm_get (timers w) i = Some e"
    using assms(2) by (simp add: lookup_def)
  then have len: "Suc (length (hm_remove i (timers w))) = length (timers w)"
    by (rule hm.size_del [OF wf])
  then have "0 < unat (timer_count w)"
    using n by linarith
  then have "unat (timer_count w - 1) = length (hm_remove i (timers w))"
    using n len unat_dec_pos [of "timer_count w"] by linarith
  then show ?thesis
    using assms wf by (auto simp: store_ok_def hm.wf_del lookup_def hm_simps)
qed

definition taken :: "'cb wheel_inner \<Rightarrow> 'cb timer_entry list \<Rightarrow> bool" where
  "taken w es \<longleftrightarrow> distinct (map entry_id es) \<and> (\<forall>e \<in> set es. lookup w (entry_id e) = Some e)"

definition keep :: "('cb timer_entry \<Rightarrow> bool) \<Rightarrow> (u64 \<Rightarrow> 'cb timer_entry option) \<Rightarrow> u64
    \<Rightarrow> 'cb timer_entry option" where
  "keep P m i = (case m i of Some e \<Rightarrow> if P e then Some e else None | None \<Rightarrow> None)"

lemma keep_Some [simp]: "keep P m i = Some e \<longleftrightarrow> m i = Some e \<and> P e"
  by (auto simp: keep_def split: option.splits)

lemma keep_keep: "keep P (keep Q m) = keep (\<lambda>e. Q e \<and> P e) m"
  by (auto simp: keep_def fun_eq_iff split: option.splits)

lemma keep_cong: "(\<And>i e. m i = Some e \<Longrightarrow> P e = Q e) \<Longrightarrow> keep P m = keep Q m"
  by (auto simp: keep_def fun_eq_iff split: option.splits)

lemma keep_all: "(\<And>i e. m i = Some e \<Longrightarrow> P e) \<Longrightarrow> keep P m = m"
  by (auto simp: keep_def fun_eq_iff split: option.splits)

text \<open>From \<open>w\<close> to \<open>w'\<close> the entries \<open>es\<close> leave the table: those among \<open>I\<close> that satisfy \<open>P\<close>.\<close>

definition expires :: "('cb timer_entry \<Rightarrow> bool) \<Rightarrow> u64 set \<Rightarrow> 'cb timer_entry list
    \<Rightarrow> 'cb wheel_inner \<Rightarrow> 'cb wheel_inner \<Rightarrow> bool" where
  "expires P I es w w' \<longleftrightarrow> taken w es \<and> set es = {e. \<exists>i \<in> I. lookup w i = Some e \<and> P e}
     \<and> (\<forall>i. lookup w' i = (if i \<in> I then keep (\<lambda>e. \<not> P e) (lookup w) i else lookup w i))"

lemma expiresD:
  assumes "expires P I es w w'"
  shows "distinct (map entry_id es)" "x \<in> set es \<Longrightarrow> lookup w (entry_id x) = Some x"
    "x \<in> set es \<longleftrightarrow> (\<exists>i \<in> I. lookup w i = Some x \<and> P x)"
    "lookup w' i = (if i \<in> I then keep (\<lambda>e. \<not> P e) (lookup w) i else lookup w i)"
  using assms unfolding expires_def taken_def by blast+

lemma expiresI:
  assumes "distinct (map entry_id es)" and "\<And>x. x \<in> set es \<Longrightarrow> lookup w (entry_id x) = Some x"
    and "\<And>x. x \<in> set es \<longleftrightarrow> (\<exists>i \<in> I. lookup w i = Some x \<and> P x)"
    and "\<And>i. lookup w' i = (if i \<in> I then keep (\<lambda>e. \<not> P e) (lookup w) i else lookup w i)"
  shows "expires P I es w w'"
  using assms unfolding expires_def taken_def by blast

lemma expires_none: "expires P {} [] w w"
  by (simp add: expires_def taken_def)

lemma expires_lookup: "lookup v = lookup w \<Longrightarrow> expires P I es v w' = expires P I es w w'"
  by (simp add: expires_def taken_def)

lemma expires_skip: "expires P I es w w' \<Longrightarrow> lookup w i = None \<Longrightarrow> expires P (insert i I) es w w'"
  by (auto simp: expires_def keep_def)

lemma expires_stay:
  "expires P I es w w' \<Longrightarrow> lookup w i = Some e \<Longrightarrow> \<not> P e \<Longrightarrow> expires P (insert i I) es w w'"
  by (auto simp: expires_def keep_def)

lemma expires_take:
  assumes "expires P I es w1 w'" and "lookup w i = Some e" and "P e" and "entry_id e = i"
    and w1: "\<And>j. lookup w1 j = (if j = i then None else lookup w j)"
  shows "expires P (insert i I) (e # es) w w'"
proof -
  note es = expiresD [OF assms(1)]
  have other: "entry_id x \<noteq> i" "lookup w (entry_id x) = Some x" if "x \<in> set es" for x
    using es(2) [OF that] w1 [of "entry_id x"] by (auto split: if_splits)
  show ?thesis
  proof (rule expiresI)
    have "i \<notin> entry_id ` set es"
      using other(1) by blast
    then show "distinct (map entry_id (e # es))"
      using es(1) assms(4) by simp
    show "lookup w (entry_id x) = Some x" if "x \<in> set (e # es)" for x
      using that other(2) assms(2,4) by auto
    show "x \<in> set (e # es) \<longleftrightarrow> (\<exists>j \<in> insert i I. lookup w j = Some x \<and> P x)" for x
    proof (cases "x = e")
      case True
      then show ?thesis using assms(2,3) by auto
    next
      case False
      then have "lookup w1 j = Some x \<longleftrightarrow> lookup w j = Some x" for j
        using assms(2) by (simp add: w1)
      with False es(3) [of x] assms(2) show ?thesis by auto
    qed
    show "lookup w' j = (if j \<in> insert i I then keep (\<lambda>e. \<not> P e) (lookup w) j else lookup w j)" for j
      using assms(2,3) by (simp add: es(4) w1 keep_def)
  qed
qed

text \<open>The ids of \<open>I\<close> are those of the live entries that satisfy \<open>P\<close>, or include them all.\<close>

lemma expires_exactly:
  assumes "expires (\<lambda>_. True) I es w w'" and "\<And>i e. lookup w i = Some e \<Longrightarrow> i \<in> I \<longleftrightarrow> P e"
  shows "expires P UNIV es w w'"
  using assms by (auto simp: expires_def keep_def split: option.splits)

lemma expires_all:
  assumes "expires P I es w w'" and "live w \<subseteq> I"
  shows "expires P UNIV es w w'"
proof -
  have "i \<in> I" if "lookup w i = Some e" for i e
    using assms(2) that by (auto simp: live_def)
  moreover from this have "lookup w i = None" if "i \<notin> I" for i
    using that by fastforce
  ultimately show ?thesis
    using assms(1) unfolding expires_def by (auto simp: keep_def)
qed

lemma expires_UNIV:
  "expires P UNIV es w w' \<longleftrightarrow> taken w es \<and> set es = {e. \<exists>i. lookup w i = Some e \<and> P e}
     \<and> lookup w' = keep (\<lambda>e. \<not> P e) (lookup w)"
  by (simp add: expires_def fun_eq_iff)

lemma expires_append:
  assumes "expires P UNIV es w w1" and "expires Q UNIV fs w1 w'"
  shows "expires (\<lambda>e. P e \<or> Q e) UNIV (es @ fs) w w'"
proof -
  note es = expiresD [OF assms(1), simplified] and fs = expiresD [OF assms(2), simplified]
  have f: "lookup w (entry_id f) = Some f \<and> \<not> P f" if "f \<in> set fs" for f
    using fs(2) [OF that] by (simp add: es(4))
  have apart: "entry_id e \<noteq> entry_id f" if "e \<in> set es" "f \<in> set fs" for e f
  proof
    assume "entry_id e = entry_id f"
    then have "e = f"
      using f [OF that(2)] es(2) [OF that(1)] by simp
    moreover have "P e"
      using es(3) [of e] that(1) by blast
    ultimately show False
      using f [OF that(2)] by simp
  qed
  show ?thesis
  proof (rule expiresI)
    have "entry_id ` set es \<inter> entry_id ` set fs = {}"
      by (auto dest: apart)
    then show "distinct (map entry_id (es @ fs))"
      using es(1) fs(1) by simp
    show "lookup w (entry_id x) = Some x" if "x \<in> set (es @ fs)" for x
      using that es(2) f by auto
    show "x \<in> set (es @ fs) \<longleftrightarrow> (\<exists>i \<in> UNIV. lookup w i = Some x \<and> (P x \<or> Q x))" for x
      using es(3,4) fs(3) [of x] by auto
    have "lookup w1 = keep (\<lambda>e. \<not> P e) (lookup w)" "lookup w' = keep (\<lambda>e. \<not> Q e) (lookup w1)"
      using es(4) fs(4) by blast+
    then show "lookup w' i = (if i \<in> UNIV then keep (\<lambda>e. \<not> (P e \<or> Q e)) (lookup w) i else lookup w i)" for i
      by (simp add: keep_keep)
  qed
qed

lemma expires_cong:
  assumes "expires P UNIV es w w'" and "\<And>i e. lookup w i = Some e \<Longrightarrow> P e = Q e"
  shows "expires Q UNIV es w w'"
  using assms keep_cong [of "lookup w" "\<lambda>e. \<not> P e" "\<lambda>e. \<not> Q e"] by (auto simp: expires_UNIV)

lemma fire_ids_spec:
  "distinct ids \<Longrightarrow> store_ok w \<Longrightarrow> fire_ids ids ex w = (ex', w') \<Longrightarrow>
     \<exists>es. ex' = ex @ es \<and> expires (\<lambda>_. True) (set ids) es w w' \<and> store_ok w'"
proof (induction ids ex w rule: fire_ids.induct)
  case (1 ex w)
  then show ?case by (simp add: expires_none)
next
  case (2 i ids ex w)
  show ?case
  proof (cases "lookup w i")
    case None
    then have "hm_get (timers w) i = None"
      by (simp add: lookup_def)
    with 2 None show ?thesis
      by (auto intro: expires_skip)
  next
    case (Some e)
    let ?w = "w\<lparr>timers := hm_remove i (timers w), timer_count := timer_count w - 1\<rparr>"
    have ent: "entry_id e = i"
      using Some "2.prems"(2) by (simp add: store_ok_def)
    have "fire_ids ids (ex @ [e]) ?w = (ex', w')"
      using "2.prems"(3) Some by (simp add: lookup_def)
    moreover have "store_ok ?w"
      using "2.prems"(2) Some by (rule store_ok_remove)
    ultimately obtain es where "ex' = (ex @ [e]) @ es" "expires (\<lambda>_. True) (set ids) es ?w w'" "store_ok w'"
      using "2.IH"(2) [of e] "2.prems"(1) Some by (auto simp: lookup_def)
    then show ?thesis
      using expires_take [of _ _ es ?w w' w i e] Some ent by auto
  qed
qed

subsection \<open>One tick\<close>

lemma placed_slot:
  assumes "placed 4 w" and i: "i \<in> slot_ids w l s" and "lookup w i = Some e"
  shows "slot_ok 1 (cursor w) l s (due_tick e)"
proof -
  have "l < 4"
    using i by (auto simp: slot_ids_def split: if_splits)
  then have "min_ahead 4 l (cursor w) = 1"
    by (simp add: min_ahead_def)
  with assms show ?thesis
    unfolding placed_def by metis
qed

text \<open>Once its cursor's slots are right, the wheel holds no timer that is overdue.\<close>

lemma mid_not_overdue:
  assumes "mid 4 T [] w" and "cursor w \<le> T" and e: "lookup w i = Some e"
  shows "cursor w \<le> due_tick e"
proof -
  have "i \<in> set (all_ids w)"
    using assms(1) e by (auto simp: mid_def cover_def live_def)
  then consider l s where "i \<in> slot_ids w l s" | "i \<in> set (overflow w)"
    using assms(1) all_ids_slots [of w] by (auto simp: mid_def)
  then show ?thesis
  proof cases
    case 1
    then have "slot_ok 1 (cursor w) l s (due_tick e)"
      using assms(1) e placed_slot by (auto simp: mid_def)
    then show ?thesis
      using slot_ok_ahead [of "cursor w" l s "due_tick e"]
      by (cases "l = 0") (simp_all add: slot_ok_def [where l = 0])
  next
    case 2
    with assms show ?thesis
      by (force simp: mid_def overflow_ok_def)
  qed
qed

lemma same_slot_same_tick:
  assumes "c \<le> d" and "d < c + 256" and "c mod 256 = d mod (256 :: nat)"
  shows "d = c"
proof -
  have "256 dvd d - c"
    using assms by (metis mod_eq_dvd_iff_nat)
  moreover have "d - c < 256"
    using assms by simp
  ultimately have "d - c = 0"
    using nat_dvd_not_less by blast
  with assms(1) show ?thesis by simp
qed

text \<open>The slot that a tick drains holds, of the live timers, exactly those due now.\<close>

lemma due_now_slot:
  assumes "mid 4 T [] w" and "cursor w < T" and e: "lookup w i = Some e"
  shows "i \<in> set (levels w ! 0 ! (cursor w mod 256)) \<longleftrightarrow> due_tick e = cursor w"
proof -
  have here: "slot_ids w 0 (cursor w mod 256) = set (levels w ! 0 ! (cursor w mod 256))"
    by (simp add: slot_ids_def LEVEL_SIZE_def)
  have ok: "slot_ok 1 (cursor w) l s (due_tick e)" if "i \<in> slot_ids w l s" for l s
    using assms(1) e that placed_slot by (auto simp: mid_def)
  show ?thesis
  proof
    assume "i \<in> set (levels w ! 0 ! (cursor w mod 256))"
    then have "slot_ok 1 (cursor w) 0 (cursor w mod 256) (due_tick e)"
      using ok here by blast
    then have "cursor w \<le> due_tick e" "due_tick e < cursor w + 256"
      "cursor w mod 256 = due_tick e mod 256"
      by (simp_all add: slot_ok_def)
    then show "due_tick e = cursor w"
      by (rule same_slot_same_tick)
  next
    assume now: "due_tick e = cursor w"
    have "i \<in> set (all_ids w)"
      using assms(1) e by (auto simp: mid_def cover_def live_def)
    moreover have "i \<notin> set (overflow w)"
      using assms now e by (force simp: mid_def overflow_ok_def)
    ultimately obtain l s where "i \<in> slot_ids w l s"
      using assms(1) all_ids_slots [of w] by (auto simp: mid_def)
    moreover from ok [OF this] have "l = 0" "s = cursor w mod 256"
      using now slot_ok_ahead [of "cursor w" l s "due_tick e"]
      by (auto simp: slot_ok_def split: if_splits)
    ultimately show "i \<in> set (levels w ! 0 ! (cursor w mod 256))"
      using here by blast
  qed
qed

text \<open>With the drained slot's timers gone, the cursor may move on.\<close>

lemma placed_after_tick:
  assumes shape: "shape w" and placed: "placed 4 w" and c: "cursor w2 = cursor w + 1"
    and slots: "slot_ids w2 = slot_ids (w\<lparr>levels := clear_slot 0 (cursor w mod 256) (levels w)\<rparr>)"
    and gone: "expires (\<lambda>e. due_tick e = cursor w) UNIV es w w2"
  shows "placed 1 w2"
  unfolding placed_def
proof (intro allI impI)
  fix l s i e
  have first: "cursor w mod 256 < LEVEL_SIZE ! 0"
    by (simp add: LEVEL_SIZE_def)
  assume "i \<in> slot_ids w2 l s" and "lookup w2 i = Some e"
  then have i: "i \<in> slot_ids w l s" and e: "lookup w i = Some e" and later: "due_tick e \<noteq> cursor w"
    using gone by (auto simp: slots slot_ids_clear [OF shape _ first] expires_UNIV split: if_splits)
  have ok: "slot_ok 1 (cursor w) l s (due_tick e)"
    using placed_slot [OF placed i e] .
  have "l < 4"
    using i by (auto simp: slot_ids_def split: if_splits)
  then show "slot_ok (min_ahead 1 l (cursor w2)) (cursor w2) l s (due_tick e)"
    unfolding c using ok later slot_ok_tick [OF ok]
    by (cases "l = 0") (auto simp: slot_ok_def [where l = 0] min_ahead_def)
qed

lemma advance_tick_spec:
  assumes mid: "mid 4 T [] w" and store: "store_ok w" and c: "cursor w < T"
    and T: "T \<le> cursor w + 1 + 67108864" and no_wrap: "cursor w + 1 < 2 ^ 64"
    and adv: "advance_tick ex w = (ex', w')"
  shows "\<exists>es. ex' = ex @ es \<and> expires (\<lambda>e. due_tick e = cursor w) UNIV es w w'
     \<and> mid 4 T [] w' \<and> store_ok w' \<and> cursor w' = cursor w + 1"
proof -
  let ?s = "cursor w mod 256"
  let ?ids = "levels w ! 0 ! ?s"
  let ?w0 = "w\<lparr>levels := clear_slot 0 ?s (levels w)\<rparr>"
  have s: "?s < LEVEL_SIZE ! 0" "unat (current_tick w AND (MASKS ! 0)) = ?s"
    unfolding first_slot by (simp_all add: LEVEL_SIZE_def cursor_def)
  obtain w1 where fire: "fire_ids ?ids ex ?w0 = (ex', w1)"
    and w': "w' = cascade_levels 1 (drop 1 LEVEL_BITS) (LEVEL_BITS ! 0)
      (w1\<lparr>current_tick := current_tick w1 + 1\<rparr>)"
    using adv by (auto simp: advance_tick_def s(2) Let_def split: prod.splits)
  let ?w2 = "w1\<lparr>current_tick := current_tick w1 + 1\<rparr>"
  note frame = fire_ids_frame [OF fire]
  have shape: "shape w" and placed: "placed 4 w" and cov: "cover [] w"
    using mid by (simp_all add: mid_def)
  note clear = clear_moves [OF shape cov _ s(1), simplified]
  obtain es where es: "ex' = ex @ es" "expires (\<lambda>_. True) (set ?ids) es w w1" "store_ok w1"
    using fire_ids_spec [OF _ _ fire] clear(2) store
    by (auto simp: cover_def store_ok_def expires_lookup [of ?w0 w])
  have now: "i \<in> set ?ids \<longleftrightarrow> due_tick e = cursor w" if "lookup w i = Some e" for i e
    by (rule due_now_slot [OF mid c that])
  then have gone: "expires (\<lambda>e. due_tick e = cursor w) UNIV es w w1"
    by (rule expires_exactly [OF es(2)])
  then have gone2: "expires (\<lambda>e. due_tick e = cursor w) UNIV es w ?w2"
    by (simp add: expires_def)
  have c2: "cursor ?w2 = cursor w + 1" and slots: "slot_ids ?w2 = slot_ids ?w0"
    using frame no_wrap by (simp_all add: cursor_def unat_add_no_wrap slot_ids_def fun_eq_iff)
  have "cover [] ?w2"
  proof -
    have "live ?w2 = live ?w0 - set ?ids" "all_ids ?w2 = all_ids ?w0"
      using gone now frame by (auto simp: live_def expires_UNIV all_ids_def)
    with clear(2) show ?thesis
      by (auto simp: cover_def)
  qed
  moreover have "overflow_ok T ?w2" "shape ?w2"
    using mid frame gone clear(1) by (auto simp: mid_def overflow_ok_def shape_def expires_UNIV)
  ultimately have "mid 1 T [] ?w2"
    using placed_after_tick [OF shape placed c2 slots gone2] by (simp add: mid_def)
  then have "mid 4 T [] w'"
    unfolding w' using T c2 by (intro mid_cascade_levels) simp_all
  with es(1,3) gone2 c2 show ?thesis
    unfolding w' by (auto simp: store_ok_def expires_def)
qed

subsection \<open>The loop of ticks\<close>

lemma sorted_with_now:
  assumes "\<And>e. e \<in> set es \<Longrightarrow> f e = c" and "\<And>e. e \<in> set fs \<Longrightarrow> (c :: nat) \<le> f e" and "sorted (map f fs)"
  shows "sorted (map f (es @ fs))"
proof -
  have "map f es = replicate (length es) c"
    using assms(1) by (simp add: map_replicate_const [symmetric])
  with assms show ?thesis
    by (auto simp: sorted_append)
qed

lemma advance_loop_spec:
  "mid 4 T [] w \<Longrightarrow> store_ok w \<Longrightarrow> unat target \<le> T \<Longrightarrow> cursor w \<le> T \<Longrightarrow>
     T \<le> cursor w + 67108864 \<Longrightarrow> advance_loop target ex w = (ex', w') \<Longrightarrow>
     \<exists>es. ex' = ex @ es \<and> sorted (map due_tick es)
       \<and> expires (\<lambda>e. due_tick e < unat target) UNIV es w w'
       \<and> mid 4 T [] w' \<and> store_ok w' \<and> cursor w' = max (cursor w) (unat target)"
proof (induction target ex w rule: advance_loop.induct)
  case (1 target ex w)
  have later: "cursor w \<le> due_tick e" if "lookup w i = Some e" for i e
    using mid_not_overdue [OF "1.prems"(1,4) that] .
  show ?case
  proof (cases "current_tick w < target")
    case False
    then have le: "unat target \<le> cursor w"
      by (simp add: cursor_def word_less_nat_alt)
    have same: "ex' = ex" "w' = w"
      using "1.prems"(6) False by (simp_all add: advance_loop.simps [of target ex w])
    have "\<not> due_tick e < unat target" if "lookup w i = Some e" for i e
      using later [OF that] le by simp
    then have "expires (\<lambda>e. due_tick e < unat target) UNIV [] w w"
      using keep_all [of "lookup w"] by (auto simp: expires_UNIV taken_def)
    with same "1.prems"(1,2) le show ?thesis
      by (intro exI [of _ "[]"]) (simp add: max_def)
  next
    case True
    then have less: "cursor w < unat target"
      by (simp add: cursor_def word_less_nat_alt)
    obtain ex1 w1 where tick: "advance_tick ex w = (ex1, w1)"
      by fastforce
    have "cursor w + 1 < 2 ^ 64"
      using less unat_u64_bound [of target] by linarith
    with advance_tick_spec [OF "1.prems"(1,2) _ _ _ tick] less "1.prems"(3,5)
    obtain es where es: "ex1 = ex @ es" "expires (\<lambda>e. due_tick e = cursor w) UNIV es w w1"
      "mid 4 T [] w1" "store_ok w1" "cursor w1 = cursor w + 1"
      by fastforce
    have "advance_loop target ex1 w1 = (ex', w')"
      using "1.prems"(6) True tick by (simp add: advance_loop.simps [of target ex w])
    with "1.IH" [OF True tick [symmetric] refl es(3,4)] es(5) less "1.prems"(3,5)
    obtain fs where fs: "ex' = ex1 @ fs" "sorted (map due_tick fs)"
      "expires (\<lambda>e. due_tick e < unat target) UNIV fs w1 w'"
      "mid 4 T [] w'" "store_ok w'" "cursor w' = max (cursor w1) (unat target)"
      by fastforce
    have "sorted (map due_tick (es @ fs))"
      using es(2) fs(2,3) later by (intro sorted_with_now [where c = "cursor w"]) (auto simp: expires_UNIV)
    moreover have "expires (\<lambda>e. due_tick e < unat target) UNIV (es @ fs) w w'"
      by (rule expires_cong [OF expires_append [OF es(2) fs(3)]]) (use less in auto)
    ultimately show ?thesis
      using fs(1,4,5,6) es(1,5) less by (intro exI [of _ "es @ fs"]) (simp add: max_def)
  qed
qed

lemma all_ids_update [simp]:
  "all_ids (w\<lparr>timers := ts\<rparr>) = all_ids w" "all_ids (w\<lparr>timer_count := n\<rparr>) = all_ids w"
  "all_ids (w\<lparr>earliest_deadline := x\<rparr>) = all_ids w" "all_ids (w\<lparr>in_flight := f\<rparr>) = all_ids w"
  "all_ids (w\<lparr>canceled_in_flight := f\<rparr>) = all_ids w"
  by (simp_all add: all_ids_def)

lemma mid_remove:
  assumes "mid k T (i # pend) w"
  shows "mid k T pend (w\<lparr>timers := hm_remove i (timers w), timer_count := n\<rparr>)"
proof -
  let ?w = "w\<lparr>timers := hm_remove i (timers w), timer_count := n\<rparr>"
  have "live ?w = live w - {i}"
    by (auto simp: live_def split: if_splits)
  then have "cover pend ?w"
    using assms by (auto simp: mid_def cover_def)
  with assms show ?thesis
    by (auto simp: mid_def shape_def placed_def overflow_ok_def split: if_splits)
qed

subsection \<open>The jump over a gap longer than the wheel\<close>

lemma drain_ids_spec:
  "mid 4 (cursor w + 67108864) ids w \<Longrightarrow> store_ok w \<Longrightarrow> cursor w = unat target \<Longrightarrow>
     drain_ids target ids ex w = (ex', w') \<Longrightarrow>
     \<exists>es. ex' = ex @ es \<and> expires (\<lambda>e. due_tick e \<le> unat target) (set ids) es w w'
       \<and> mid 4 (cursor w + 67108864) [] w' \<and> store_ok w' \<and> cursor w' = cursor w"
proof (induction target ids ex w rule: drain_ids.induct)
  case (1 target ex w)
  then show ?case by (auto simp: expires_none)
next
  case (2 target i ids ex w)
  show ?case
  proof (cases "lookup w i")
    case None
    with "2.prems" mid_skip have "mid 4 (cursor w + 67108864) ids w"
      by blast
    moreover have "hm_get (timers w) i = None"
      using None by (simp add: lookup_def)
    ultimately show ?thesis
      using "2.IH"(1) "2.prems" None by (auto intro: expires_skip)
  next
    case (Some e)
    show ?thesis
    proof (cases "deadline_tick e \<le> target")
      case False
      then have later: "\<not> due_tick e \<le> unat target"
        by (simp add: due_tick_def word_le_nat_alt)
      let ?w = "insert_into_wheel i (deadline_tick e) w"
      have "mid 4 (cursor ?w + 67108864) ids ?w" "store_ok ?w"
        using mid_insert [OF "2.prems"(1) Some] later "2.prems"(2,3) by (simp_all add: store_ok_def)
      moreover have "drain_ids target ids ex ?w = (ex', w')"
        using "2.prems"(4) Some False by (simp add: lookup_def)
      ultimately obtain es where "ex' = ex @ es" "expires (\<lambda>e. due_tick e \<le> unat target) (set ids) es ?w w'"
        "mid 4 (cursor w + 67108864) [] w'" "store_ok w'" "cursor w' = cursor w"
        using "2.IH"(3) [of e] Some False "2.prems"(3) by (auto simp: lookup_def)
      then show ?thesis
        using expires_stay [of _ _ es w w' i e] Some later
        by (auto simp: expires_lookup [of ?w w])
    next
      case True
      then have due: "due_tick e \<le> unat target"
        by (simp add: due_tick_def word_le_nat_alt)
      let ?w = "w\<lparr>timers := hm_remove i (timers w), timer_count := timer_count w - 1\<rparr>"
      have ent: "entry_id e = i"
        using Some "2.prems"(2) by (simp add: store_ok_def)
      have "mid 4 (cursor ?w + 67108864) ids ?w" "store_ok ?w"
        using mid_remove [OF "2.prems"(1)] store_ok_remove [OF "2.prems"(2) Some] by simp_all
      moreover have "drain_ids target ids (ex @ [e]) ?w = (ex', w')"
        using "2.prems"(4) Some True by (simp add: lookup_def)
      ultimately obtain es where "ex' = (ex @ [e]) @ es"
        "expires (\<lambda>e. due_tick e \<le> unat target) (set ids) es ?w w'"
        "mid 4 (cursor w + 67108864) [] w'" "store_ok w'" "cursor w' = cursor w"
        using "2.IH"(2) [of e] Some True "2.prems"(3) by (auto simp: lookup_def)
      then show ?thesis
        using expires_take [of _ _ es ?w w' w i e] Some ent due by auto
    qed
  qed
qed

lemma advance_tick_earliest:
  "advance_tick ex w = (ex', w') \<Longrightarrow> earliest_deadline w' = earliest_deadline w
     \<and> in_flight w' = in_flight w \<and> canceled_in_flight w' = canceled_in_flight w
     \<and> start_time w' = start_time w"
  by (auto simp: advance_tick_def Let_def dest: fire_ids_frame split: prod.splits)

lemma advance_loop_frame:
  "advance_loop target ex w = (ex', w') \<Longrightarrow> earliest_deadline w' = earliest_deadline w
     \<and> in_flight w' = in_flight w \<and> canceled_in_flight w' = canceled_in_flight w
     \<and> start_time w' = start_time w"
proof (induction target ex w rule: advance_loop.induct)
  case (1 target ex w)
  then show ?case
    by (cases "advance_tick ex w")
      (auto simp: advance_loop.simps [of target ex w] dest: advance_tick_earliest split: if_splits)
qed

lemmas advance_loop_earliest = advance_loop_frame [THEN conjunct1]

subsection \<open>\<open>advance_to\<close>\<close>

text \<open>Which deadlines an advance to the tick \<open>T\<close> finds due: those before \<open>T\<close>, and after a
  jump of more than the wheel's range those at \<open>T\<close> as well.\<close>

definition due_at :: "nat \<Rightarrow> nat \<Rightarrow> nat \<Rightarrow> bool" where
  "due_at c T d = (if c + 67108864 < T then d \<le> T else d < T)"

lemma concat_map_Nil: "concat (concat (map (map (\<lambda>_. [])) xss)) = []"
proof -
  have "concat (map (\<lambda>_. []) xs) = []" for xs :: "'a list"
    by (induction xs) simp_all
  then show ?thesis
    by (induction xss) simp_all
qed

lemma wheel_inv_mid: "wheel_inv w \<Longrightarrow> mid 4 (cursor w + 67108864) [] w"
  by (simp add: wheel_inv_def mid_def)

lemma frame_store:
  "store_ok (insert_into_wheel i d w) = store_ok w" "store_ok (reinsert_ids ids w) = store_ok w"
  by (simp_all add: store_ok_def)

lemma mid_update [simp]:
  "mid k T p (w\<lparr>earliest_deadline := x\<rparr>) = mid k T p w"
  "mid k T p (w\<lparr>in_flight := f\<rparr>) = mid k T p w"
  "mid k T p (w\<lparr>canceled_in_flight := f\<rparr>) = mid k T p w"
  by (simp_all add: mid_def shape_def placed_def overflow_ok_def cover_def live_def)

lemma store_update [simp]:
  "store_ok (w\<lparr>earliest_deadline := x\<rparr>) = store_ok w" "store_ok (w\<lparr>in_flight := f\<rparr>) = store_ok w"
  "store_ok (w\<lparr>canceled_in_flight := f\<rparr>) = store_ok w"
  by (simp_all add: store_ok_def)

lemma mid_emptied:
  assumes "shape w" and "cover [] w"
  shows "mid 4 T (all_ids w) (w\<lparr>levels := map (map (\<lambda>_. [])) (levels w), overflow := [],
    overflow_min_deadline := None, current_tick := t\<rparr>)" (is "mid 4 T _ ?w")
proof -
  have "shape ?w"
    using assms(1) by (simp add: shape_def comp_def)
  moreover have "slot_ids ?w l s = {}" for l s
    using shape_lengths [OF assms(1)] by (simp add: slot_ids_def)
  then have "placed 4 ?w"
    by (simp add: placed_def)
  moreover have "cover (all_ids w) ?w"
    using assms(2) by (simp add: cover_def all_ids_def concat_map_Nil live_def)
  ultimately show ?thesis
    by (simp add: mid_def overflow_ok_def)
qed

lemma drain_due_into_spec:
  assumes inv: "wheel_inv w" and jump: "cursor w \<le> unat target"
    and run: "drain_due_into target ex w = (ex', w')"
  shows "\<exists>es. ex' = ex @ es \<and> expires (\<lambda>e. due_tick e \<le> unat target) UNIV es w w'
     \<and> mid 4 (unat target + 67108864) [] w' \<and> store_ok w' \<and> cursor w' = unat target
     \<and> earliest_deadline w' = None"
proof -
  let ?w0 = "w\<lparr>levels := map (map (\<lambda>_. [])) (levels w), overflow := [],
                overflow_min_deadline := None, current_tick := target\<rparr>"
  obtain w1 where drain: "drain_ids target (all_ids w) ex ?w0 = (ex', w1)"
    and w': "w' = w1\<lparr>earliest_deadline := None\<rparr>"
    using run by (auto simp: drain_due_into_def all_ids_def Let_def split: prod.splits)
  have "mid 4 (cursor ?w0 + 67108864) (all_ids w) ?w0" "store_ok ?w0"
    using inv by (simp_all add: wheel_inv_def mid_emptied store_ok_def)
  from drain_ids_spec [OF this _ drain]
  obtain es where es: "ex' = ex @ es"
    "expires (\<lambda>e. due_tick e \<le> unat target) (set (all_ids w)) es ?w0 w1"
    "mid 4 (unat target + 67108864) [] w1" "store_ok w1" "cursor w1 = unat target"
    by auto
  have "live w \<subseteq> set (all_ids w)"
    using inv by (simp add: wheel_inv_def cover_def)
  then have "expires (\<lambda>e. due_tick e \<le> unat target) UNIV es w w1"
    using expires_all es(2) expires_lookup [of ?w0 w] by simp
  with es w' show ?thesis
    by (auto simp: expires_def)
qed

lemma mid_reinsert_overflow:
  assumes "mid 4 T [] w" and "cursor w \<le> T"
  shows "mid 4 (cursor w + 67108864) [] (reinsert_overflow w)"
proof -
  let ?w0 = "w\<lparr>overflow := [], overflow_min_deadline := None\<rparr>"
  have cov: "cover [] w"
    using assms(1) by (simp add: mid_def)
  have "cover (overflow w) ?w0"
    by (rule cover_perm [OF cov]) (simp_all add: all_ids_def live_def)
  with assms(1) have "mid 4 (cursor ?w0 + 67108864) (overflow w @ []) ?w0"
    by (simp add: mid_def shape_def placed_def overflow_ok_def)
  moreover have "\<forall>i e. i \<in> set (overflow w) \<longrightarrow> lookup ?w0 i = Some e \<longrightarrow> cursor ?w0 \<le> due_tick e"
    using assms by (force simp: mid_def overflow_ok_def)
  ultimately have "mid 4 (cursor ?w0 + 67108864) [] (reinsert_ids (overflow w) ?w0)"
    by (intro mid_reinsert) simp_all
  then show ?thesis
    by (simp add: reinsert_overflow_def Let_def)
qed

text \<open>The check after the loop of ticks, which leaves an overflow out of range alone.\<close>

definition overflow_near :: "'cb wheel_inner \<Rightarrow> bool" where
  "overflow_near w \<longleftrightarrow> (\<exists>d. overflow_min_deadline w = Some d
     \<and> saturating_sub d (current_tick w) < MAX_RANGE_TICKS)"

lemma mid_overflow_far:
  assumes "mid 4 T [] w" and "\<not> overflow_near w"
  shows "mid 4 (cursor w + 67108864) [] w"
proof -
  have "cursor w + 67108864 \<le> due_tick e \<and> (\<exists>m. overflow_min_deadline w = Some m \<and> unat m \<le> due_tick e)"
    if i: "i \<in> set (overflow w)" and e: "lookup w i = Some e" for i e
  proof -
    obtain m where m: "overflow_min_deadline w = Some m" "unat m \<le> due_tick e"
      using assms(1) i e by (auto simp: mid_def overflow_ok_def)
    with assms(2) have "67108864 \<le> unat m - cursor w"
      by (simp add: overflow_near_def word_less_nat_alt unat_saturating_sub cursor_def)
    with m show ?thesis
      by auto
  qed
  with assms(1) show ?thesis
    by (simp add: mid_def overflow_ok_def)
qed

lemma after_loop:
  assumes "mid 4 T [] w" and "store_ok w" and "cursor w \<le> T"
  defines "w' \<equiv> (case overflow_min_deadline w of
      Some d \<Rightarrow> if saturating_sub d (current_tick w) < MAX_RANGE_TICKS then reinsert_overflow w else w
    | None \<Rightarrow> w)"
  shows "mid 4 (cursor w + 67108864) [] w'" and "store_ok w'" and "lookup w' = lookup w"
    and "cursor w' = cursor w" and "earliest_deadline w' = earliest_deadline w"
proof -
  have w': "w' = (if overflow_near w then reinsert_overflow w else w)"
    by (auto simp: w'_def overflow_near_def split: option.splits)
  show "mid 4 (cursor w + 67108864) [] w'"
    using mid_reinsert_overflow [OF assms(1,3)] mid_overflow_far [OF assms(1)] by (simp add: w')
  show "store_ok w'" "lookup w' = lookup w" "cursor w' = cursor w"
    "earliest_deadline w' = earliest_deadline w"
    using assms(2) by (simp_all add: w' reinsert_overflow_def Let_def frame_store store_ok_def)
qed

lemma min_top_less:
  "(t :: nat) < 18446744073709551616 \<Longrightarrow>
     min (c + 67108864) 18446744073709551615 < t \<longleftrightarrow> c + 67108864 < t"
  by auto

lemma jump_iff: "saturating_add c MAX_RANGE_TICKS < t \<longleftrightarrow> unat c + 67108864 < unat t"
  using min_top_less [OF unat_u64_less] by (simp add: word_less_nat_alt unat_saturating_add)

lemma advance_to_spec:
  assumes inv: "wheel_inv w" and run: "advance_to now w = (ex, w')"
  defines "T \<equiv> unat (instant_to_tick w now)"
  shows "taken w ex \<and> set ex = {e. \<exists>i. lookup w i = Some e \<and> due_at (cursor w) T (due_tick e)}
     \<and> lookup w' = keep (\<lambda>e. \<not> due_at (cursor w) T (due_tick e)) (lookup w)
     \<and> wheel_inv w' \<and> cursor w' = max (cursor w) T
     \<and> (cursor w + 67108864 < T \<or> sorted (map due_tick ex))"
proof -
  let ?t = "instant_to_tick w now"
  have jump: "saturating_add (current_tick w) MAX_RANGE_TICKS < ?t \<longleftrightarrow> cursor w + 67108864 < T"
    by (simp add: jump_iff cursor_def T_def)
  have store: "store_ok w" and early: "earliest_ok w"
    using inv by (simp_all add: wheel_inv_def)
  show ?thesis
  proof (cases "cursor w + 67108864 < T")
    case True
    then have "drain_due_into ?t [] w = (ex, w')"
      using run jump by (simp add: advance_to_def Let_def)
    with drain_due_into_spec [OF inv _ this] True show ?thesis
      by (auto simp: T_def due_at_def wheel_inv_def mid_def earliest_ok_def expires_UNIV)
  next
    case False
    obtain w1 where loop: "advance_loop ?t [] w = (ex, w1)"
      using run jump False by (auto simp: advance_to_def Let_def split: prod.splits)
    let ?w2 = "case overflow_min_deadline w1 of
        Some d \<Rightarrow> if saturating_sub d (current_tick w1) < MAX_RANGE_TICKS then reinsert_overflow w1 else w1
      | None \<Rightarrow> w1"
    have w': "w' = (if ex \<noteq> [] then ?w2\<lparr>earliest_deadline := None\<rparr> else ?w2)"
      using run jump False loop by (simp add: advance_to_def Let_def split: prod.splits)
    from advance_loop_spec [OF wheel_inv_mid [OF inv] store _ _ _ loop] False
    have spec: "taken w ex" "sorted (map due_tick ex)"
      "set ex = {e. \<exists>i. lookup w i = Some e \<and> due_tick e < T}"
      "lookup w1 = keep (\<lambda>e. \<not> due_tick e < T) (lookup w)"
      "mid 4 (cursor w + 67108864) [] w1" "store_ok w1" "cursor w1 = max (cursor w) T"
      by (auto simp: T_def expires_UNIV)
    have "cursor w1 \<le> cursor w + 67108864"
      using False spec(7) by simp
    note rest = after_loop [OF spec(5,6) this]
    have due: "due_at (cursor w) T = (\<lambda>d. d < T)"
      using False by (simp add: due_at_def fun_eq_iff)
    have early1: "earliest_deadline w1 = earliest_deadline w"
      using advance_loop_earliest [OF loop] .
    have "earliest_ok w'"
    proof (cases "ex = []")
      case True
      then have "lookup w1 = lookup w"
        unfolding spec(4) using spec(3) by (intro keep_all) auto
      with True early rest(3,5) early1 show ?thesis
        by (simp add: w' earliest_ok_def)
    next
      case False
      then show ?thesis by (simp add: w' earliest_ok_def)
    qed
    moreover have "mid 4 (cursor w' + 67108864) [] w'" "store_ok w'" "lookup w' = lookup w1"
      "cursor w' = cursor w1"
      using rest by (simp_all add: w')
    ultimately show ?thesis
      using spec by (auto simp: due wheel_inv_def mid_def)
  qed
qed

end
