(* ===== verification/Wheel_Ids.thy ===== *)
theory Wheel_Ids
  imports Wheel_Advance
begin

section \<open>The ids an advance takes out of the wheel\<close>

text \<open>
  An advance only moves ids or drops them: with the ids of the entries it expires, the wheel
  holds no id more often than before. An expired id is then in no slot any more, and can be
  put back when its timer repeats.
\<close>

definition own_ids :: "'cb wheel_inner \<Rightarrow> bool" where
  "own_ids w \<longleftrightarrow> (\<forall>i e. lookup w i = Some e \<longrightarrow> entry_id e = i)"

lemma own_ids_update [simp]:
  "own_ids (w\<lparr>levels := ls\<rparr>) = own_ids w" "own_ids (w\<lparr>overflow := ov\<rparr>) = own_ids w"
  "own_ids (w\<lparr>overflow_min_deadline := m\<rparr>) = own_ids w" "own_ids (w\<lparr>current_tick := t\<rparr>) = own_ids w"
  "own_ids (w\<lparr>timer_count := n\<rparr>) = own_ids w" "own_ids (w\<lparr>earliest_deadline := x\<rparr>) = own_ids w"
  "own_ids (insert_into_wheel i d w) = own_ids w" "own_ids (reinsert_ids ids w) = own_ids w"
  "own_ids (cascade l w) = own_ids w" "own_ids (cascade_levels l bs sh w) = own_ids w"
  by (simp_all add: own_ids_def)

lemma sub_add_mset: "A \<subseteq># B \<Longrightarrow> A \<subseteq># add_mset x B"
  by (erule subset_mset.order_trans) simp

lemma sub_mset_distinct:
  assumes "mset xs \<subseteq># mset ys" and "distinct ys"
  shows "distinct xs"
proof -
  obtain zs where "mset ys = mset xs + mset zs"
    using assms(1) by (metis mset_subset_eq_exists_conv ex_mset)
  then have "mset ys = mset (xs @ zs)"
    by simp
  from mset_eq_imp_distinct_iff [OF this] assms(2) show ?thesis
    by simp
qed

lemma own_ids_remove: "own_ids w \<Longrightarrow> own_ids (w\<lparr>timers := hm_remove i (timers w)\<rparr>)"
  by (simp add: own_ids_def)

lemma insert_into_wheel_ids:
  assumes "shape w"
  shows "shape (insert_into_wheel i d w)"
    and "mset (all_ids (insert_into_wheel i d w)) = add_mset i (mset (all_ids w))"
proof -
  let ?l = "level_for_delta (saturating_sub d (current_tick w))"
  have "mset (concat (concat (push_slot ?l (slot_of ?l d) i (levels w))))
      = add_mset i (mset (concat (concat (levels w))))"
    using shape_lengths [OF assms] level_for_delta_less slot_of_bound by (intro mset_push) simp_all
  then show "mset (all_ids (insert_into_wheel i d w)) = add_mset i (mset (all_ids w))"
    by (simp add: insert_into_wheel_def Let_def all_ids_def)
  show "shape (insert_into_wheel i d w)"
    using assms by (simp add: insert_into_wheel_def Let_def shape_def shape_push)
qed

lemma reinsert_ids_ids:
  "shape w \<Longrightarrow> shape (reinsert_ids ids w)
     \<and> mset (all_ids (reinsert_ids ids w)) \<subseteq># mset ids + mset (all_ids w)"
proof (induction ids w rule: reinsert_ids.induct)
  case (1 w)
  then show ?case by simp
next
  case (2 i ids w)
  show ?case
  proof (cases "hm_get (timers w) i")
    case None
    with 2 show ?thesis by (simp add: sub_add_mset)
  next
    case (Some e)
    with 2 insert_into_wheel_ids [OF "2.prems"] show ?thesis by simp
  qed
qed

lemma cascade_ids:
  assumes "shape w" and "l < 4"
  shows "shape (cascade l w) \<and> mset (all_ids (cascade l w)) \<subseteq># mset (all_ids w)"
proof -
  let ?s = "slot_of l (current_tick w)"
  let ?w = "w\<lparr>levels := clear_slot l ?s (levels w)\<rparr>"
  have shape: "shape ?w"
    using assms by (simp add: shape_def shape_clear)
  have "mset (concat (concat (clear_slot l ?s (levels w)))) + mset (levels w ! l ! ?s)
      = mset (concat (concat (levels w)))"
    using shape_lengths [OF assms(1)] assms(2) slot_of_bound by (intro mset_clear) simp_all
  then have "mset (levels w ! l ! ?s) + mset (all_ids ?w) = mset (all_ids w)"
    by (simp add: all_ids_def union_commute union_lcomm)
  with reinsert_ids_ids [OF shape, of "levels w ! l ! ?s"] show ?thesis
    by (simp add: cascade_def Let_def)
qed

lemma cascade_levels_ids:
  "shape w \<Longrightarrow> l + length bs \<le> 4 \<Longrightarrow> shape (cascade_levels l bs sh w)
     \<and> mset (all_ids (cascade_levels l bs sh w)) \<subseteq># mset (all_ids w)"
proof (induction l bs sh w rule: cascade_levels.induct)
  case (1 l sh w)
  then show ?case by simp
next
  case (2 l b bs sh w)
  have "shape (cascade l w)" "mset (all_ids (cascade l w)) \<subseteq># mset (all_ids w)"
    using 2 cascade_ids [of w l] by simp_all
  with 2 show ?case
    by (simp del: cascade_levels.simps add: cascade_levels.simps(2))
      (blast intro: subset_mset.order_trans)
qed

lemma fire_ids_ids:
  "fire_ids ids ex w = (ex', w') \<Longrightarrow> own_ids w \<Longrightarrow>
     own_ids w' \<and> mset (map entry_id ex') \<subseteq># mset (map entry_id ex) + mset ids"
proof (induction ids ex w rule: fire_ids.induct)
  case (1 ex w)
  then show ?case by simp
next
  case (2 i ids ex w)
  show ?case
  proof (cases "hm_get (timers w) i")
    case None
    with 2 show ?thesis by (simp add: sub_add_mset)
  next
    case (Some e)
    then have "entry_id e = i"
      using "2.prems"(2) by (simp add: own_ids_def lookup_def)
    moreover have "own_ids (w\<lparr>timers := hm_remove i (timers w), timer_count := timer_count w - 1\<rparr>)"
      using own_ids_remove [OF "2.prems"(2), of i] by (simp add: own_ids_def)
    ultimately show ?thesis
      using "2.IH"(2) [OF Some] "2.prems" Some by simp
  qed
qed

lemma advance_tick_ids:
  assumes "advance_tick ex w = (ex', w')" and "shape w" and "own_ids w"
  shows "shape w' \<and> own_ids w'
    \<and> mset (all_ids w') + mset (map entry_id ex') \<subseteq># mset (all_ids w) + mset (map entry_id ex)"
proof -
  let ?s = "unat (current_tick w AND (MASKS ! 0))"
  let ?ids = "levels w ! 0 ! ?s"
  let ?w0 = "w\<lparr>levels := clear_slot 0 ?s (levels w)\<rparr>"
  obtain w1 where fire: "fire_ids ?ids ex ?w0 = (ex', w1)"
    and w': "w' = cascade_levels 1 (drop 1 LEVEL_BITS) (LEVEL_BITS ! 0)
      (w1\<lparr>current_tick := current_tick w1 + 1\<rparr>)"
    using assms(1) by (auto simp: advance_tick_def Let_def split: prod.splits)
  let ?w2 = "w1\<lparr>current_tick := current_tick w1 + 1\<rparr>"
  have fired: "own_ids w1" "mset (map entry_id ex') \<subseteq># mset (map entry_id ex) + mset ?ids"
    using fire_ids_ids [OF fire] assms(3) by simp_all
  have "shape ?w2" "all_ids ?w2 = all_ids ?w0"
    using fire_ids_frame [OF fire] assms(2) by (simp_all add: shape_def shape_clear all_ids_def)
  with cascade_levels_ids [of ?w2 1 "drop 1 LEVEL_BITS" "LEVEL_BITS ! 0"]
  have moved: "shape w'" "mset (all_ids w') \<subseteq># mset (all_ids ?w0)"
    by (simp_all add: w' LEVEL_BITS_def)
  have "mset (concat (concat (clear_slot 0 ?s (levels w)))) + mset ?ids
      = mset (concat (concat (levels w)))"
    using shape_lengths [OF assms(2)] by (intro mset_clear) (simp_all add: first_slot LEVEL_SIZE_def)
  then have "mset (all_ids ?w0) + mset ?ids = mset (all_ids w)"
    by (simp add: all_ids_def union_commute union_lcomm)
  with subset_mset.add_mono [OF moved(2) fired(2)] moved(1) fired(1) show ?thesis
    by (simp add: w' union_commute union_lcomm union_assoc)
qed

lemma advance_loop_ids:
  "advance_loop t ex w = (ex', w') \<Longrightarrow> shape w \<Longrightarrow> own_ids w \<Longrightarrow> shape w' \<and> own_ids w'
    \<and> mset (all_ids w') + mset (map entry_id ex') \<subseteq># mset (all_ids w) + mset (map entry_id ex)"
proof (induction t ex w rule: advance_loop.induct)
  case (1 t ex w)
  show ?case
  proof (cases "current_tick w < t")
    case True
    obtain ex1 w1 where step: "advance_tick ex w = (ex1, w1)"
      by fastforce
    with True "1.prems" have "advance_loop t ex1 w1 = (ex', w')"
      by (simp add: advance_loop.simps [of t ex w])
    with "1.IH" [OF True step [symmetric] refl] advance_tick_ids [OF step "1.prems"(2,3)]
    show ?thesis
      by (auto intro: subset_mset.order_trans)
  next
    case False
    with "1.prems" show ?thesis
      by (simp add: advance_loop.simps [of t ex w])
  qed
qed

lemma drain_ids_ids:
  "drain_ids t ids ex w = (ex', w') \<Longrightarrow> shape w \<Longrightarrow> own_ids w \<Longrightarrow>
     mset (all_ids w') + mset (map entry_id ex')
       \<subseteq># mset ids + mset (all_ids w) + mset (map entry_id ex)"
proof (induction t ids ex w rule: drain_ids.induct)
  case (1 t ex w)
  then show ?case by simp
next
  case (2 t i ids ex w)
  show ?case
  proof (cases "hm_get (timers w) i")
    case None
    with 2 show ?thesis by (simp add: sub_add_mset)
  next
    case (Some e)
    show ?thesis
    proof (cases "deadline_tick e \<le> t")
      case True
      let ?w = "w\<lparr>timers := hm_remove i (timers w), timer_count := timer_count w - 1\<rparr>"
      have "entry_id e = i"
        using "2.prems"(3) Some by (simp add: own_ids_def lookup_def)
      moreover have "shape ?w" "own_ids ?w"
        using "2.prems"(2) own_ids_remove [OF "2.prems"(3), of i] by (simp_all add: shape_def)
      ultimately show ?thesis
        using "2.IH"(2) [OF Some True] "2.prems" Some True by (simp add: all_ids_def)
    next
      case False
      with "2.IH"(3) [OF Some False] "2.prems" Some insert_into_wheel_ids [OF "2.prems"(2)]
      show ?thesis by simp
    qed
  qed
qed

lemma reinsert_overflow_ids:
  assumes "shape w"
  shows "mset (all_ids (reinsert_overflow w)) \<subseteq># mset (all_ids w)"
proof -
  have "shape (w\<lparr>overflow := [], overflow_min_deadline := None\<rparr>)"
    using assms by (simp add: shape_def)
  from reinsert_ids_ids [OF this, of "overflow w"] show ?thesis
    by (simp add: reinsert_overflow_def Let_def all_ids_def union_commute)
qed

lemma advance_to_ids:
  assumes "advance_to now w = (ex, w')" and "shape w" and "own_ids w"
  shows "mset (all_ids w') + mset (map entry_id ex) \<subseteq># mset (all_ids w)"
proof (cases "saturating_add (current_tick w) MAX_RANGE_TICKS < instant_to_tick w now")
  case True
  let ?w0 = "w\<lparr>levels := map (map (\<lambda>_. [])) (levels w), overflow := [],
                overflow_min_deadline := None, current_tick := instant_to_tick w now\<rparr>"
  obtain w1 where drain: "drain_ids (instant_to_tick w now) (all_ids w) [] ?w0 = (ex, w1)"
    and w': "w' = w1\<lparr>earliest_deadline := None\<rparr>"
    using assms(1) True
    by (auto simp: advance_to_def drain_due_into_def Let_def all_ids_def split: prod.splits)
  have "shape ?w0" "own_ids ?w0"
    using assms(2,3) by (simp_all add: shape_def comp_def)
  moreover have "all_ids ?w0 = []"
    using concat_map_Nil [of "levels w"] by (simp add: all_ids_def)
  moreover have "all_ids w' = all_ids w1"
    by (simp add: w' all_ids_def)
  ultimately show ?thesis
    using drain_ids_ids [OF drain] by simp
next
  case False
  obtain w1 where loop: "advance_loop (instant_to_tick w now) [] w = (ex, w1)"
    using assms(1) False by (auto simp: advance_to_def Let_def split: prod.splits)
  note ids = advance_loop_ids [OF loop assms(2,3)]
  have "mset (all_ids w') \<subseteq># mset (all_ids w1)"
    using assms(1) False loop reinsert_overflow_ids [of w1] ids
    by (auto simp: advance_to_def Let_def all_ids_def split: option.splits if_splits)
  then have "mset (all_ids w') + mset (map entry_id ex)
      \<subseteq># mset (all_ids w1) + mset (map entry_id ex)"
    by (rule subset_mset.add_right_mono)
  then show ?thesis
    by (rule subset_mset.order_trans) (use ids in simp)
qed

lemma expired_not_placed:
  assumes "wheel_inv w" and "advance_to now w = (ex, w')"
  shows "set (all_ids w') \<subseteq> set (all_ids w)" and "set (map entry_id ex) \<subseteq> set (all_ids w)"
    and "set (map entry_id ex) \<inter> set (all_ids w') = {}"
proof -
  have "shape w" "own_ids w" "distinct (all_ids w)"
    using assms(1) by (simp_all add: wheel_inv_def store_ok_def own_ids_def cover_def)
  note sub = advance_to_ids [OF assms(2) this(1,2)]
  have sub': "mset (all_ids w' @ map entry_id ex) \<subseteq># mset (all_ids w)"
    using sub by simp
  have "set (all_ids w' @ map entry_id ex) \<subseteq> set (all_ids w)"
    using set_mset_mono [OF sub'] by (simp only: set_mset_mset)
  then show "set (all_ids w') \<subseteq> set (all_ids w)" "set (map entry_id ex) \<subseteq> set (all_ids w)"
    by simp_all
  have "distinct (all_ids w' @ map entry_id ex)"
    using sub' \<open>distinct (all_ids w)\<close> by (rule sub_mset_distinct)
  then show "set (map entry_id ex) \<inter> set (all_ids w') = {}"
    by auto
qed

end
