(* ===== verification/Timer_Service.thy ===== *)
theory Timer_Service
  imports Wheel_Ids
begin

section \<open>The timer operations\<close>

text \<open>
  What \<open>schedule_once\<close>, \<open>schedule_repeating\<close>, \<open>cancel\<close>, \<open>tick\<close> and \<open>time_until_next\<close> do to
  the timers, from the placement invariant and the specification of \<open>advance_to\<close>; and the
  interface a user of timers relies on, as a locale interpreted on them.
\<close>

subsection \<open>The earliest deadline\<close>

lemma list_min_None [simp]: "list_min ds = None \<longleftrightarrow> ds = []"
  by (cases ds) (auto split: option.splits)

lemma list_min_Some: "list_min ds = Some m \<Longrightarrow> m \<in> set ds \<and> (\<forall>d \<in> set ds. m \<le> d)"
  by (induction ds arbitrary: m) (fastforce split: option.splits simp: min_def)+

lemma timers_lookup: "store_ok w \<Longrightarrow> (i, e) \<in> set (timers w) \<longleftrightarrow> lookup w i = Some e"
  by (simp add: store_ok_def lookup_def hm_in_set_get)

lemma finite_live: "finite (live w)"
  unfolding live_def lookup_def [abs_def] by (rule hm.finite_dom)

lemma count_card: "store_ok w \<Longrightarrow> unat (timer_count w) = card (live w)"
  by (simp add: store_ok_def live_def lookup_def [abs_def] hm.size_card)

lemma recompute_earliest_ok:
  assumes "store_ok w" and "recompute_earliest w = (r, w')"
  shows "earliest_ok w'" and "r = earliest_deadline w'" and "r = None \<longleftrightarrow> live w = {}"
proof -
  have r: "r = list_min (map (\<lambda>(_, e). deadline_tick e) (timers w))"
    and w': "w' = w\<lparr>earliest_deadline := r\<rparr>"
    using assms(2) by (auto simp: recompute_earliest_def Let_def)
  show "r = earliest_deadline w'"
    by (simp add: w')
  have "timers w = [] \<longleftrightarrow> live w = {}"
    using count_card [OF assms(1)] assms(1) finite_live [of w] by (auto simp: store_ok_def)
  then show "r = None \<longleftrightarrow> live w = {}"
    by (simp add: r)
  show "earliest_ok w'"
    unfolding earliest_ok_def w'
  proof (intro allI impI conjI)
    fix m
    assume "earliest_deadline (w\<lparr>earliest_deadline := r\<rparr>) = Some m"
    then have "list_min (map (\<lambda>(_, e). deadline_tick e) (timers w)) = Some m"
      using r by simp
    note min = list_min_Some [OF this]
    from min have least: "\<And>i e. (i, e) \<in> set (timers w) \<Longrightarrow> m \<le> deadline_tick e"
      by (auto simp: case_prod_beta)
    from min obtain i e where "(i, e) \<in> set (timers w)" "deadline_tick e = m"
      by auto
    then show "\<exists>i e. lookup (w\<lparr>earliest_deadline := r\<rparr>) i = Some e \<and> deadline_tick e = m"
      using timers_lookup [OF assms(1)] by auto
    show "m \<le> deadline_tick e" if "lookup (w\<lparr>earliest_deadline := r\<rparr>) i = Some e" for i e
      using that least timers_lookup [OF assms(1), of i e] by auto
  qed
qed

definition deadlines :: "'cb wheel_inner \<Rightarrow> nat set" where
  "deadlines w = {due_tick e | i e. lookup w i = Some e}"

lemma finite_deadlines: "finite (deadlines w)"
proof -
  have "deadlines w = (\<lambda>i. due_tick (the (lookup w i))) ` live w"
    by (force simp: deadlines_def live_def)
  then show ?thesis using finite_live by simp
qed

lemma earliest_Min:
  assumes "earliest_ok w" and "earliest_deadline w = Some m"
  shows "unat m = Min (deadlines w)" and "deadlines w \<noteq> {}"
proof -
  from assms obtain i e where e: "lookup w i = Some e" "deadline_tick e = m"
    by (auto simp: earliest_ok_def)
  then have "unat m \<in> deadlines w"
    by (auto simp: deadlines_def due_tick_def)
  moreover have "unat m \<le> d" if "d \<in> deadlines w" for d
    using that assms by (auto simp: deadlines_def earliest_ok_def due_tick_def word_le_nat_alt)
  ultimately show "unat m = Min (deadlines w)" and "deadlines w \<noteq> {}"
    using Min_eqI [OF finite_deadlines, of w "unat m"] by (metis, blast)
qed

text \<open>Reading the cache, or filling it.\<close>

lemma earliest_read:
  assumes inv: "wheel_inv w" and some: "live w \<noteq> {}"
    and run: "(case earliest_deadline w of Some e \<Rightarrow> (Some e, w) | None \<Rightarrow> recompute_earliest w) = (c, w1)"
  obtains m where "c = Some m" and "unat m = Min (deadlines w)" and "wheel_inv w1"
    and "lookup w1 = lookup w" and "cursor w1 = cursor w" and "start_time w1 = start_time w"
proof -
  have store: "store_ok w" and early: "earliest_ok w"
    using inv by (simp_all add: wheel_inv_def)
  have c: "c = earliest_deadline w1" "earliest_ok w1" "c \<noteq> None"
    using run early some recompute_earliest_ok [OF store] by (auto split: option.splits)
  then obtain m where m: "earliest_deadline w1 = Some m" "c = Some m"
    by auto
  have "w1 = w\<lparr>earliest_deadline := earliest_deadline w1\<rparr>"
    using run by (cases "earliest_deadline w") (auto simp: recompute_earliest_def Let_def)
  then obtain x where w1: "w1 = w\<lparr>earliest_deadline := x\<rparr>" ..
  have same: "lookup w1 = lookup w" "cursor w1 = cursor w" "start_time w1 = start_time w"
    by (simp_all add: w1)
  have "mid 4 (cursor w + 67108864) [] w1" "store_ok w1"
    using wheel_inv_mid [OF inv] store by (simp_all add: w1)
  then have "wheel_inv w1"
    using c(2) by (simp add: wheel_inv_def mid_def same)
  moreover have "deadlines w1 = deadlines w"
    by (simp add: deadlines_def same)
  with earliest_Min [OF c(2) m(1)] have "unat m = Min (deadlines w)"
    by simp
  ultimately show thesis
    using that m(2) same by blast
qed

lemma time_until_next_spec:
  assumes inv: "wheel_inv w" and run: "time_until_next now w = (r, w')"
  shows "wheel_inv w' \<and> lookup w' = lookup w \<and> cursor w' = cursor w
    \<and> r = (if live w = {} then None
           else Some ((Min (deadlines w) - unat (instant_to_tick w now)) * 1000000))"
proof -
  have store: "store_ok w"
    using inv by (simp add: wheel_inv_def)
  have empty: "timer_count w = 0 \<longleftrightarrow> live w = {}"
    using count_card [OF store] finite_live [of w] by (auto simp: unat_eq_zero [symmetric])
  show ?thesis
  proof (cases "live w = {}")
    case True
    with run inv show ?thesis by (simp add: time_until_next_def empty)
  next
    case False
    obtain c w1 where cached: "(case earliest_deadline w of Some e \<Rightarrow> (Some e, w)
        | None \<Rightarrow> recompute_earliest w) = (c, w1)"
      by fastforce
    obtain m where m: "c = Some m" "unat m = Min (deadlines w)" and w1: "wheel_inv w1"
      "lookup w1 = lookup w" "cursor w1 = cursor w" "start_time w1 = start_time w"
      by (rule earliest_read [OF inv False cached])
    have "instant_to_tick w1 now = instant_to_tick w now"
      by (simp add: instant_to_tick_def w1(4))
    then have "w' = w1 \<and> r = Some (if m \<le> instant_to_tick w now then 0
        else from_millis (m - instant_to_tick w now))"
      using run False cached m(1) by (auto simp: time_until_next_def empty Let_def)
    moreover have "(if m \<le> instant_to_tick w now then 0 else from_millis (m - instant_to_tick w now))
        = (unat m - unat (instant_to_tick w now)) * 1000000"
      by (auto simp: from_millis_def word_le_nat_alt unat_sub)
    ultimately show ?thesis
      using w1 False by (simp add: m(2))
  qed
qed

subsection \<open>Adding a timer\<close>

lemma note_inserted_eq:
  "\<exists>x. note_inserted d w = w\<lparr>earliest_deadline := x\<rparr>"
  unfolding note_inserted_def by blast

lemma note_removed_eq: "\<exists>x. note_removed d w = w\<lparr>earliest_deadline := x\<rparr>"
proof (cases "earliest_deadline w = Some d")
  case True
  then show ?thesis by (auto simp: note_removed_def)
next
  case False
  then have "note_removed d w = w\<lparr>earliest_deadline := earliest_deadline w\<rparr>"
    by (simp add: note_removed_def)
  then show ?thesis ..
qed

lemma mid_hm_insert:
  assumes "mid k T [] w" and "i \<notin> set (all_ids w)"
  shows "mid k T [i] (w\<lparr>timers := hm_insert i e (timers w), timer_count := n\<rparr>)"
proof -
  have shape: "shape w"
    using assms(1) by (simp add: mid_def)
  have "i \<notin> slot_ids w l s" for l s
    using assms(2) all_ids_slots [OF shape] by auto
  moreover have "i \<notin> set (overflow w)"
    using assms(2) by (simp add: all_ids_def)
  moreover have "live (w\<lparr>timers := hm_insert i e (timers w), timer_count := n\<rparr>) = insert i (live w)"
    by (auto simp: live_def)
  ultimately show ?thesis
    using assms
    by (auto simp: mid_def shape_def placed_def overflow_ok_def cover_def split: if_splits)
qed

lemma store_ok_insert:
  assumes "store_ok w" and "lookup w i = None" and "card (insert i (live w)) < 2 ^ 64"
    and "entry_id e = i"
  shows "store_ok (w\<lparr>timers := hm_insert i e (timers w), timer_count := timer_count w + 1\<rparr>)"
proof -
  let ?m = "hm_insert i e (timers w)"
  have wf: "hm_wf ?m"
    using assms(1) by (simp add: store_ok_def hm.wf_put)
  have "dom (hm_get ?m) = insert i (live w)"
    by (simp add: hm_simps live_def lookup_def [abs_def])
  then have len: "length ?m = card (insert i (live w))"
    using hm.size_card [OF wf] by simp
  also have "\<dots> = Suc (unat (timer_count w))"
    using count_card [OF assms(1)] assms(2) finite_live [of w]
    by (simp add: live_def domIff)
  finally have "unat (timer_count w + 1) = length ?m"
    using assms(3) len unat_add_no_wrap [of "timer_count w" 1] by simp
  then show ?thesis
    using assms wf by (simp add: store_ok_def split: if_splits)
qed

lemma earliest_insert:
  assumes "earliest_ok w" and "lookup w i = None" and "store_ok w'"
    and w': "lookup w' = (lookup w)(i \<mapsto> e)" "earliest_deadline w' = earliest_deadline w"
  shows "earliest_ok (note_inserted (deadline_tick e) w')"
proof (cases "earliest_deadline w")
  case None
  show ?thesis
  proof (cases "timer_count w' = 1")
    case True
    have "card (live w') = 1"
      using count_card [OF assms(3)] True by simp
    moreover have "i \<in> live w'"
      by (simp add: live_def w')
    ultimately have "live w' = {i}"
      by (metis card_1_singletonE singletonD)
    then have only: "lookup w' j = Some x \<longleftrightarrow> j = i \<and> x = e" for j x
      by (auto simp: live_def w')
    show ?thesis
      using None True by (auto simp: note_inserted_def earliest_ok_def w'(2) only)
  next
    case False
    with None show ?thesis
      by (simp add: note_inserted_def earliest_ok_def w')
  qed
next
  case (Some m)
  with assms(1) obtain j x where x: "lookup w j = Some x" "deadline_tick x = m"
    and least: "\<And>k y. lookup w k = Some y \<Longrightarrow> m \<le> deadline_tick y"
    by (auto simp: earliest_ok_def)
  moreover have "j \<noteq> i"
    using x assms(2) by auto
  ultimately have "\<exists>k y. lookup w' k = Some y \<and> deadline_tick y = min m (deadline_tick e)"
    by (cases "m \<le> deadline_tick e") (auto simp: w' min_def)
  moreover have "min m (deadline_tick e) \<le> deadline_tick y" if "lookup w' k = Some y" for k y
    using that least [of k y] by (auto simp: w' min_def split: if_splits)
  ultimately show ?thesis
    using Some by (simp add: note_inserted_def earliest_ok_def w'(2))
qed

lemma add_entry_spec:
  assumes inv: "wheel_inv w" and fresh: "entry_id e \<notin> set (all_ids w)"
    and due: "cursor w \<le> due_tick e" and room: "card (insert (entry_id e) (live w)) < 2 ^ 64"
  shows "wheel_inv (add_entry e w)"
    and "lookup (add_entry e w) = (lookup w)(entry_id e \<mapsto> e)"
    and "cursor (add_entry e w) = cursor w"
    and "set (all_ids (add_entry e w)) = insert (entry_id e) (set (all_ids w))"
    and "in_flight (add_entry e w) = in_flight w"
    and "canceled_in_flight (add_entry e w) = canceled_in_flight w"
    and "start_time (add_entry e w) = start_time w"
proof -
  let ?i = "entry_id e"
  let ?w0 = "w\<lparr>timers := hm_insert ?i e (timers w), timer_count := timer_count w + 1\<rparr>"
  let ?w1 = "insert_into_wheel ?i (deadline_tick e) ?w0"
  obtain x where x: "note_inserted (deadline_tick e) ?w1 = ?w1\<lparr>earliest_deadline := x\<rparr>"
    using note_inserted_eq by blast
  have w': "add_entry e w = note_inserted (deadline_tick e) ?w1"
    by (simp add: add_entry_def Let_def)
  note mid = wheel_inv_mid [OF inv]
  have store: "store_ok w" and early: "earliest_ok w" and "live w \<subseteq> set (all_ids w)"
    using inv by (simp_all add: wheel_inv_def cover_def)
  with fresh have none: "lookup w ?i = None"
    by (auto simp: live_def)
  have mid1: "mid 4 (cursor w + 67108864) [] ?w1"
    using mid_insert [OF mid_hm_insert [OF mid fresh, where e = e and n = "timer_count w + 1"], of e]
      due by simp
  have store1: "store_ok ?w1"
    using store_ok_insert [OF store none room refl] by (simp add: frame_store)
  have look: "lookup ?w1 = (lookup w)(?i \<mapsto> e)"
    by (simp add: fun_eq_iff)
  have "earliest_ok (add_entry e w)"
    unfolding w' by (rule earliest_insert [OF early none store1 look]) simp
  moreover have "mid 4 (cursor w + 67108864) [] (add_entry e w)" "store_ok (add_entry e w)"
    using mid1 store1 by (simp_all add: w' x)
  ultimately show "wheel_inv (add_entry e w)"
    by (simp add: wheel_inv_def mid_def w' x)
  have "mset (all_ids ?w1) = add_mset ?i (mset (all_ids w))"
    using insert_into_wheel_ids(2) [of ?w0 ?i "deadline_tick e"] mid by (simp add: mid_def shape_def)
  from arg_cong [OF this, of set_mset]
  show "set (all_ids (add_entry e w)) = insert ?i (set (all_ids w))"
    by (simp add: w' x)
qed (auto simp: add_entry_def Let_def fun_eq_iff note_inserted_def)

subsection \<open>Removing a timer\<close>

text \<open>The cached minimum survives the removal of a timer that does not have it.\<close>

lemma earliest_ok_remove:
  assumes "earliest_ok w" and "lookup w i = Some e" and "lookup w' = (lookup w)(i := None)"
    and cache: "\<And>m. earliest_deadline w' = Some m \<Longrightarrow> earliest_deadline w = Some m \<and> m \<noteq> deadline_tick e"
  shows "earliest_ok w'"
  unfolding earliest_ok_def
proof (intro allI impI)
  fix m assume "earliest_deadline w' = Some m"
  then have m: "earliest_deadline w = Some m" "m \<noteq> deadline_tick e"
    using cache by simp_all
  with assms(1) obtain j y where y: "lookup w j = Some y" "deadline_tick y = m"
    by (auto simp: earliest_ok_def)
  with assms(2) m(2) have "j \<noteq> i"
    by auto
  with y have "\<exists>j y. lookup w' j = Some y \<and> deadline_tick y = m"
    by (auto simp: assms(3))
  moreover have "\<forall>j y. lookup w' j = Some y \<longrightarrow> m \<le> deadline_tick y"
    using assms(1) m(1) by (auto simp: assms(3) earliest_ok_def split: if_splits)
  ultimately show "(\<exists>j y. lookup w' j = Some y \<and> deadline_tick y = m)
      \<and> (\<forall>j y. lookup w' j = Some y \<longrightarrow> m \<le> deadline_tick y)"
    by blast
qed

lemma cancel_inner_live:
  assumes inv: "wheel_inv w" and e: "lookup w i = Some e"
    and run: "cancel_inner i w = (b, w')"
  shows "b" and "wheel_inv w'" and "lookup w' = (lookup w)(i := None)" and "cursor w' = cursor w"
    and "all_ids w' = all_ids w" and "in_flight w' = in_flight w"
    and "canceled_in_flight w' = canceled_in_flight w" and "start_time w' = start_time w"
proof -
  let ?w0 = "w\<lparr>timers := hm_remove i (timers w), timer_count := timer_count w - 1\<rparr>"
  obtain x where x: "note_removed (deadline_tick e) ?w0 = ?w0\<lparr>earliest_deadline := x\<rparr>"
    using note_removed_eq by blast
  have res: "b" "w' = note_removed (deadline_tick e) ?w0"
    using run e by (simp_all add: cancel_inner_def lookup_def Let_def)
  show "b" by (rule res)
  show look: "lookup w' = (lookup w)(i := None)" and "cursor w' = cursor w"
    and "all_ids w' = all_ids w" and "in_flight w' = in_flight w"
    and "canceled_in_flight w' = canceled_in_flight w" and "start_time w' = start_time w"
    by (simp_all add: res(2) x fun_eq_iff)
  have "cover [] w'"
    using inv by (auto simp: wheel_inv_def cover_def live_def res(2) x split: if_splits)
  moreover have "store_ok w'"
    using store_ok_remove [of w i e] inv e by (simp add: wheel_inv_def res(2) x)
  moreover have "earliest_ok w'"
    using inv by (intro earliest_ok_remove [OF _ e look])
      (auto simp: wheel_inv_def res(2) note_removed_def split: if_splits)
  moreover have "shape w'" "placed 4 w'" "overflow_ok (cursor w' + 67108864) w'"
    using inv
    by (auto simp: wheel_inv_def shape_def placed_def overflow_ok_def res(2) x split: if_splits)
  ultimately show "wheel_inv w'"
    by (simp add: wheel_inv_def)
qed

end
