(* ===== verification/Timer_Ops.thy ===== *)
theory Timer_Ops
  imports Timer_Service
begin

section \<open>The timer wheel as its users see it\<close>

text \<open>
  The invariant of a \<open>TimerWheel\<close>, the operations on it, and \<open>tick\<close> with callbacks that
  schedule and cancel timers: a callback is any list of such operations, each with the
  clock it reads.
\<close>

subsection \<open>The invariant with ids\<close>

text \<open>Ids below \<open>n\<close> have been given out; those in flight have no place in the wheel.\<close>

definition ids_inv :: "u64 \<Rightarrow> 'cb wheel_inner \<Rightarrow> bool" where
  "ids_inv n w \<longleftrightarrow> wheel_inv w \<and> (\<forall>i \<in> set (all_ids w) \<union> in_flight w. i < n)
     \<and> in_flight w \<inter> set (all_ids w) = {} \<and> canceled_in_flight w \<subseteq> in_flight w"

definition service_inv :: "'cb timer_wheel \<Rightarrow> bool" where
  "service_inv tw \<longleftrightarrow> ids_inv (next_id tw) (inner tw)"

lemma live_placed: "wheel_inv w \<Longrightarrow> live w \<subseteq> set (all_ids w)"
  by (simp add: wheel_inv_def cover_def)

lemma room_below:
  assumes "A \<subseteq> {i. i < (n :: u64)}"
  shows "card A < 2 ^ 64"
proof -
  have "unat ` A \<subseteq> {..< unat n}"
    using assms by (auto simp: word_less_nat_alt)
  moreover have "card (unat ` A) = card A"
    by (intro card_image inj_onI) (simp add: unsigned_word_eqI)
  ultimately have "card A \<le> unat n"
    by (metis card_lessThan card_mono finite_lessThan)
  then show ?thesis
    using unat_u64_bound [of n] by linarith
qed

lemma add_entry_ids:
  assumes inv: "ids_inv n w" and i: "entry_id e < n" "entry_id e \<notin> set (all_ids w) \<union> in_flight w"
    and due: "cursor w \<le> due_tick e"
  shows "ids_inv n (add_entry e w)"
proof -
  have w: "wheel_inv w"
    using inv by (simp add: ids_inv_def)
  have "card (insert (entry_id e) (live w)) < 2 ^ 64"
    using inv i(1) live_placed [OF w] by (intro room_below [of _ n]) (auto simp: ids_inv_def)
  note add = add_entry_spec [OF w _ due this]
  show ?thesis
    using inv i add by (auto simp: ids_inv_def)
qed

lemma ids_inv_mono: "ids_inv n w \<Longrightarrow> n \<le> m \<Longrightarrow> ids_inv m w"
  unfolding ids_inv_def by (metis order_less_le_trans)

lemma next_id_less: "unat (n :: u64) + 1 < 2 ^ 64 \<Longrightarrow> n < n + 1"
  using unat_add_no_wrap [of n 1] by (simp add: word_less_nat_alt)

text \<open>The entry that scheduling at \<open>now\<close> with a delay puts in, and when it does not wrap.\<close>

definition schedulable :: "instant \<Rightarrow> duration \<Rightarrow> 'cb timer_wheel \<Rightarrow> bool" where
  "schedulable now delay tw \<longleftrightarrow> unat (next_id tw) + 1 < 2 ^ 64
     \<and> cursor (inner tw) \<le> unat (instant_to_tick (inner tw) now)
     \<and> unat (instant_to_tick (inner tw) now) + unat (as_millis_u64 delay) < 2 ^ 64"

lemma schedulable_due:
  "schedulable now delay tw \<Longrightarrow>
     unat (instant_to_tick (inner tw) now + as_millis_u64 delay)
       = unat (instant_to_tick (inner tw) now) + unat (as_millis_u64 delay)"
  by (simp add: schedulable_def unat_add_no_wrap)

definition add_timer :: "duration \<Rightarrow> 'cb timer_kind \<Rightarrow> instant \<Rightarrow> 'cb timer_wheel
    \<Rightarrow> timer_id \<times> 'cb timer_wheel" where
  "add_timer delay k now tw =
     (next_id tw, tw\<lparr>next_id := next_id tw + 1, inner := add_entry
        \<lparr>entry_id = next_id tw, deadline_tick = instant_to_tick (inner tw) now + as_millis_u64 delay,
         kind = k\<rparr> (inner tw)\<rparr>)"

lemma schedule_add_timer:
  "schedule_once delay cb now tw = add_timer delay (Once (Some cb)) now tw"
  "schedule_repeating interval cb now tw = add_timer interval (Repeating cb interval) now tw"
  by (simp_all add: schedule_once_def schedule_repeating_def add_timer_def Let_def)

lemma add_timer_spec:
  assumes inv: "service_inv tw" and ok: "schedulable now delay tw"
    and run: "add_timer delay k now tw = (i, tw')"
  shows "service_inv tw' \<and> i = next_id tw \<and> lookup (inner tw) i = None
    \<and> (\<exists>e. lookup (inner tw') = (lookup (inner tw))(i \<mapsto> e) \<and> kind e = k \<and> entry_id e = i
         \<and> due_tick e = unat (instant_to_tick (inner tw) now) + unat (as_millis_u64 delay))
    \<and> next_id tw' = next_id tw + 1 \<and> cursor (inner tw') = cursor (inner tw)
    \<and> in_flight (inner tw') = in_flight (inner tw) \<and> start_time (inner tw') = start_time (inner tw)
    \<and> canceled_in_flight (inner tw') = canceled_in_flight (inner tw)
    \<and> set (all_ids (inner tw')) = insert i (set (all_ids (inner tw)))"
proof -
  let ?e = "\<lparr>entry_id = next_id tw,
    deadline_tick = instant_to_tick (inner tw) now + as_millis_u64 delay, kind = k\<rparr>"
  let ?n = "next_id tw + 1"
  have less: "next_id tw < ?n"
    using ok by (intro next_id_less) (simp add: schedulable_def)
  have due: "due_tick ?e = unat (instant_to_tick (inner tw) now) + unat (as_millis_u64 delay)"
    using schedulable_due [OF ok] by (simp add: due_tick_def)
  then have ahead: "cursor (inner tw) \<le> due_tick ?e"
    using ok by (simp add: schedulable_def)
  have "ids_inv (next_id tw) (inner tw)"
    using inv by (simp add: service_inv_def)
  then have ids: "ids_inv ?n (inner tw)"
    and fresh: "next_id tw \<notin> set (all_ids (inner tw)) \<union> in_flight (inner tw)"
    using less ids_inv_mono [of "next_id tw" "inner tw" ?n] by (simp, auto simp: ids_inv_def)
  have w: "wheel_inv (inner tw)"
    using ids by (simp add: ids_inv_def)
  have none: "lookup (inner tw) (next_id tw) = None"
    using fresh live_placed [OF w] by (auto simp: live_def)
  have "card (insert (entry_id ?e) (live (inner tw))) < 2 ^ 64"
    using ids less live_placed [OF w] by (intro room_below [of _ ?n]) (auto simp: ids_inv_def)
  note add = add_entry_spec [OF w _ ahead this]
  have "ids_inv ?n (add_entry ?e (inner tw))"
    using fresh less by (intro add_entry_ids [OF ids _ _ ahead]) simp_all
  with run add fresh due none show ?thesis
    by (auto simp: add_timer_def service_inv_def)
qed

lemma cancel_inner_spec:
  assumes inv: "ids_inv n w" and run: "cancel_inner i w = (b, w')"
  shows "ids_inv n w' \<and> (b \<longleftrightarrow> i \<in> live w \<union> in_flight w) \<and> lookup w' = (lookup w)(i := None)
    \<and> cursor w' = cursor w \<and> in_flight w' = in_flight w \<and> start_time w' = start_time w
    \<and> canceled_in_flight w' = canceled_in_flight w \<union> (in_flight w \<inter> {i})"
proof (cases "lookup w i")
  case (Some e)
  have w: "wheel_inv w"
    using inv by (simp add: ids_inv_def)
  have live: "i \<in> live w"
    using Some by (simp add: live_def domI)
  then have "i \<notin> in_flight w"
    using inv live_placed [OF w] by (auto simp: ids_inv_def)
  with live cancel_inner_live [OF w Some run] inv show ?thesis
    by (auto simp: ids_inv_def)
next
  case None
  then have "i \<notin> live w" "(lookup w)(i := None) = lookup w" "hm_get (timers w) i = None"
    by (auto simp: live_def lookup_def)
  moreover have "wheel_inv (w\<lparr>canceled_in_flight := f\<rparr>)" if "wheel_inv w" for f
    using that wheel_inv_mid [OF that] by (simp add: wheel_inv_def earliest_ok_def mid_def shape_def
      placed_def overflow_ok_def cover_def live_def)
  ultimately show ?thesis
    using run inv by (auto simp: cancel_inner_def ids_inv_def split: if_splits)
qed


subsection \<open>The contract of a deadline queue\<close>

text \<open>
  What the user of the wheel needs of an advance: it hands out, once, every timer whose
  deadline the clock has passed, and none whose deadline is still to come. \<open>fired_by\<close>
  collects what a series of advances hands out.
\<close>

fun fired_by :: "('t \<Rightarrow> 's \<Rightarrow> 'e list \<times> 's) \<Rightarrow> 't list \<Rightarrow> 's \<Rightarrow> 'e list" where
  "fired_by adv [] s = []"
| "fired_by adv (t # ts) s = (let (ex, s) = adv t s in ex @ fired_by adv ts s)"

lemma count_list_distinct: "distinct xs \<Longrightarrow> x \<in> set xs \<Longrightarrow> count_list xs x = 1"
  by (induction xs) (auto simp: count_list_0_iff)

locale deadline_queue =
  fixes inv :: "'s \<Rightarrow> bool" and pending :: "'s \<Rightarrow> 'i \<Rightarrow> 'e option" and due :: "'e \<Rightarrow> nat"
    and clock :: "'s \<Rightarrow> 't \<Rightarrow> nat" and advance :: "'t \<Rightarrow> 's \<Rightarrow> 'e list \<times> 's"
  assumes advance_inv: "inv s \<Longrightarrow> advance t s = (ex, s') \<Longrightarrow> inv s'"
    and advance_clock: "inv s \<Longrightarrow> advance t s = (ex, s') \<Longrightarrow> clock s' = clock s"
    and advance_due: "inv s \<Longrightarrow> advance t s = (ex, s') \<Longrightarrow> e \<in> set ex \<Longrightarrow>
          due e \<le> clock s t \<and> (\<exists>i. pending s i = Some e)"
    and advance_all: "inv s \<Longrightarrow> advance t s = (ex, s') \<Longrightarrow> pending s i = Some e \<Longrightarrow>
          due e < clock s t \<Longrightarrow> e \<in> set ex"
    and advance_rest: "inv s \<Longrightarrow> advance t s = (ex, s') \<Longrightarrow>
          pending s' i = Some e \<longleftrightarrow> pending s i = Some e \<and> e \<notin> set ex"
    and advance_distinct: "inv s \<Longrightarrow> advance t s = (ex, s') \<Longrightarrow> distinct ex"
begin

lemma fired_pending:
  "inv s \<Longrightarrow> e \<in> set (fired_by advance ts s) \<Longrightarrow> \<exists>i. pending s i = Some e"
proof (induction ts arbitrary: s)
  case Nil
  then show ?case by simp
next
  case (Cons t ts)
  obtain ex s' where step: "advance t s = (ex, s')" by fastforce
  with Cons advance_due [OF Cons.prems(1) step] advance_rest [OF Cons.prems(1) step]
    advance_inv [OF Cons.prems(1) step] show ?case
    by fastforce
qed

lemma fired_once:
  "inv s \<Longrightarrow> pending s i = Some e \<Longrightarrow>
     count_list (fired_by advance ts s) e \<le> 1
     \<and> ((\<exists>t \<in> set ts. due e < clock s t) \<longrightarrow> count_list (fired_by advance ts s) e = 1)
     \<and> ((\<forall>t \<in> set ts. clock s t < due e) \<longrightarrow> count_list (fired_by advance ts s) e = 0)"
proof (induction ts arbitrary: s)
  case Nil
  then show ?case by simp
next
  case (Cons t ts)
  obtain ex s' where step: "advance t s = (ex, s')" by fastforce
  note inv' = advance_inv [OF Cons.prems(1) step] and clock' = advance_clock [OF Cons.prems(1) step]
  show ?case
  proof (cases "e \<in> set ex")
    case True
    have "e \<notin> set (fired_by advance ts s')"
      using fired_pending [OF inv'] advance_rest [OF Cons.prems(1) step] True by blast
    moreover have "count_list ex e = 1"
      using True advance_distinct [OF Cons.prems(1) step] by (simp add: count_list_distinct)
    moreover have "due e \<le> clock s t"
      using advance_due [OF Cons.prems(1) step True] by simp
    ultimately show ?thesis
      by (auto simp: step count_list_0_iff)
  next
    case False
    then have "pending s' i = Some e"
      using advance_rest [OF Cons.prems(1) step] Cons.prems(2) by simp
    from Cons.IH [OF inv' this] False advance_all [OF Cons.prems(1) step Cons.prems(2)]
    show ?thesis
      by (auto simp: step clock' count_list_0_iff)
  qed
qed

end

lemma advance_to_frame:
  assumes "advance_to now w = (ex, w')" and "wheel_inv w"
  shows "start_time w' = start_time w" and "in_flight w' = in_flight w"
    and "canceled_in_flight w' = canceled_in_flight w"
proof -
  have drain: "drain_ids t ids ex0 w0 = (ex1, w1) \<Longrightarrow> start_time w1 = start_time w0
      \<and> in_flight w1 = in_flight w0 \<and> canceled_in_flight w1 = canceled_in_flight w0"
    for t ids ex0 ex1 and w0 w1 :: "'a wheel_inner"
    by (induction t ids ex0 w0 rule: drain_ids.induct) (auto split: option.splits if_splits)
  have "start_time w' = start_time w \<and> in_flight w' = in_flight w
      \<and> canceled_in_flight w' = canceled_in_flight w"
    using assms(1) by (auto simp: advance_to_def drain_due_into_def reinsert_overflow_def Let_def
        dest!: drain advance_loop_frame split: prod.splits if_splits option.splits)
  then show "start_time w' = start_time w" and "in_flight w' = in_flight w"
    and "canceled_in_flight w' = canceled_in_flight w"
    by simp_all
qed

abbreviation tick_of :: "'cb wheel_inner \<Rightarrow> instant \<Rightarrow> nat" where
  "tick_of w now \<equiv> unat (instant_to_tick w now)"

interpretation wq: deadline_queue wheel_inv lookup due_tick tick_of advance_to
proof (unfold_locales, goal_cases)
  case (1 s t ex s')
  then show ?case using advance_to_spec by blast
next
  case (2 s t ex s')
  then show ?case by (simp add: fun_eq_iff instant_to_tick_def advance_to_frame(1))
next
  case (3 s t ex s' e)
  then have "\<exists>i. lookup s i = Some e \<and> due_at (cursor s) (tick_of s t) (due_tick e)"
    using advance_to_spec by blast
  then show ?case by (auto simp: due_at_def split: if_splits)
next
  case (4 s t ex s' i e)
  then have "due_at (cursor s) (tick_of s t) (due_tick e)"
    by (simp add: due_at_def)
  with 4 show ?case using advance_to_spec by blast
next
  case (5 s t ex s' i e)
  then have "set ex = {e. \<exists>i. lookup s i = Some e \<and> due_at (cursor s) (tick_of s t) (due_tick e)}"
    and "lookup s' = keep (\<lambda>e. \<not> due_at (cursor s) (tick_of s t) (due_tick e)) (lookup s)"
    using advance_to_spec by blast+
  then show ?case by auto
next
  case (6 s t ex s')
  then have "taken s ex" using advance_to_spec by blast
  then show ?case by (auto simp: taken_def distinct_map)
qed

text \<open>An advance keeps the ids apart: the expired ones have left the wheel.\<close>

lemma advance_ids:
  assumes inv: "ids_inv n w" and run: "advance_to now w = (ex, w')"
  shows "ids_inv n w'" and "\<forall>e \<in> set ex. entry_id e < n"
    and "set (map entry_id ex) \<inter> (set (all_ids w') \<union> in_flight w') = {}"
proof -
  have w: "wheel_inv w" "wheel_inv w'"
    using inv advance_to_spec [OF _ run] by (simp_all add: ids_inv_def)
  note exp = expired_not_placed [OF w(1) run] and frame = advance_to_frame [OF run w(1)]
  show "ids_inv n w'"
    using inv w exp frame by (auto simp: ids_inv_def)
  show "\<forall>e \<in> set ex. entry_id e < n"
    using inv exp(2) by (auto simp: ids_inv_def)
  show "set (map entry_id ex) \<inter> (set (all_ids w') \<union> in_flight w') = {}"
    using inv exp(2,3) frame(2) by (auto simp: ids_inv_def)
qed

subsection \<open>A new wheel\<close>

lemma wheel_inner_new_inv: "wheel_inv (wheel_inner_new now)"
proof -
  let ?w = "wheel_inner_new now :: 'a wheel_inner"
  have ids: "all_ids ?w = []"
    by (simp add: all_ids_def wheel_inner_new_def)
  have shape: "shape ?w"
    by (simp add: shape_def wheel_inner_new_def LEVEL_SIZE_def)
  have none: "lookup ?w i = None" for i
    by (simp add: lookup_def wheel_inner_new_def)
  have "store_ok ?w" "earliest_deadline ?w = None"
    by (simp_all add: store_ok_def lookup_def wheel_inner_new_def)
  then show ?thesis
    using shape none
    by (simp add: wheel_inv_def placed_def overflow_ok_def cover_def earliest_ok_def ids live_def
        dom_def)
qed

lemma service_new: "service_inv (timer_wheel_new now)"
  using wheel_inner_new_inv [of now]
  by (simp add: service_inv_def timer_wheel_new_def ids_inv_def wheel_inner_new_def all_ids_def)

end
