(* ===== verification/Timer_Tick.thy ===== *)
theory Timer_Tick
  imports Timer_Ops
begin

section \<open>One \<open>tick\<close> with its callbacks\<close>

text \<open>
  \<open>tick\<close> as a whole: what it fires, and which repeating timers it puts back, when the
  callbacks schedule and cancel timers themselves. A callback is a list of operations with
  the clock each reads; \<open>prog\<close> gives the list of each callback.
\<close>

subsection \<open>Operations a callback may run\<close>

datatype 'cb timer_op =
    Schedule_once duration 'cb
  | Schedule_repeating duration 'cb
  | Cancel timer_id

fun timer_op_step :: "instant \<times> 'cb timer_op \<Rightarrow> 'cb timer_wheel \<Rightarrow> 'cb timer_wheel" where
  "timer_op_step (now, Schedule_once delay cb) tw = snd (schedule_once delay cb now tw)"
| "timer_op_step (now, Schedule_repeating interval cb) tw = snd (schedule_repeating interval cb now tw)"
| "timer_op_step (now, Cancel i) tw = snd (cancel i tw)"

definition run_ops :: "(instant \<times> 'cb timer_op) list \<Rightarrow> 'cb timer_wheel \<Rightarrow> 'cb timer_wheel" where
  "run_ops ops tw = fold timer_op_step ops tw"

definition cancels :: "(instant \<times> 'cb timer_op) list \<Rightarrow> timer_id set" where
  "cancels ops = {i. \<exists>now. (now, Cancel i) \<in> set ops}"

text \<open>The operations neither run out of ids nor wrap a deadline, and read a clock that the
  wheel has not passed.\<close>

fun op_delay :: "'cb timer_op \<Rightarrow> duration" where
  "op_delay (Schedule_once delay _) = delay"
| "op_delay (Schedule_repeating interval _) = interval"
| "op_delay (Cancel _) = 0"

definition ops_ok :: "(instant \<times> 'cb timer_op) list \<Rightarrow> 'cb timer_wheel \<Rightarrow> bool" where
  "ops_ok ops tw \<longleftrightarrow> unat (next_id tw) + length ops < 2 ^ 64
     \<and> (\<forall>(now, op) \<in> set ops. cursor (inner tw) \<le> tick_of (inner tw) now
          \<and> tick_of (inner tw) now + unat (as_millis_u64 (op_delay op)) < 2 ^ 64)"

lemma tick_of_start: "start_time w = start_time v \<Longrightarrow> instant_to_tick w = instant_to_tick v"
  by (simp add: instant_to_tick_def fun_eq_iff)

lemma cancel_spec:
  assumes "service_inv tw" and "cancel i tw = (b, tw')"
  shows "service_inv tw' \<and> (b \<longleftrightarrow> i \<in> live (inner tw) \<union> in_flight (inner tw))
    \<and> lookup (inner tw') = (lookup (inner tw))(i := None) \<and> cursor (inner tw') = cursor (inner tw)
    \<and> in_flight (inner tw') = in_flight (inner tw) \<and> start_time (inner tw') = start_time (inner tw)
    \<and> canceled_in_flight (inner tw')
        = canceled_in_flight (inner tw) \<union> (in_flight (inner tw) \<inter> {i})
    \<and> next_id tw' = next_id tw"
proof -
  obtain w' where "cancel_inner i (inner tw) = (b, w')" "tw' = tw\<lparr>inner := w'\<rparr>"
    using assms(2) by (auto simp: cancel_def split: prod.splits)
  with cancel_inner_spec [of "next_id tw" "inner tw" i b w'] assms(1) show ?thesis
    by (simp add: service_inv_def)
qed

text \<open>One operation, with what it leaves alone.\<close>

definition kept :: "'cb timer_wheel \<Rightarrow> 'cb timer_wheel \<Rightarrow> bool" where
  "kept tw tw' \<longleftrightarrow> cursor (inner tw') = cursor (inner tw) \<and> in_flight (inner tw') = in_flight (inner tw)
     \<and> start_time (inner tw') = start_time (inner tw)"

lemma timer_op_step_spec:
  assumes inv: "service_inv tw" and ok: "ops_ok ((now, op) # ops) tw"
    and tw': "tw' = timer_op_step (now, op) tw"
  shows "service_inv tw' \<and> kept tw tw' \<and> ops_ok ops tw' \<and> next_id tw \<le> next_id tw'
    \<and> canceled_in_flight (inner tw') = canceled_in_flight (inner tw)
        \<union> (in_flight (inner tw) \<inter> cancels [(now, op)])
    \<and> (\<forall>i < next_id tw. lookup (inner tw') i
        = (if i \<in> cancels [(now, op)] then None else lookup (inner tw) i))"
proof -
  have added: ?thesis if "tw' = snd (add_timer (op_delay op) k now tw)" "\<nexists>i. op = Cancel i" for k
  proof -
    have run: "add_timer (op_delay op) k now tw = (next_id tw, tw')"
      using that(1) by (simp add: add_timer_def)
    have sched: "schedulable now (op_delay op) tw"
      using ok by (auto simp: ops_ok_def schedulable_def)
    note add = add_timer_spec [OF inv sched run]
    have id: "unat (next_id tw') = unat (next_id tw) + 1"
      using add sched unat_add_no_wrap [of "next_id tw" 1] by (simp add: schedulable_def)
    have "cancels [(now, op)] = {}"
      using that(2) by (auto simp: cancels_def)
    moreover have "ops_ok ops tw'"
      using ok id add tick_of_start [of "inner tw'" "inner tw"] by (auto simp: ops_ok_def)
    ultimately show ?thesis
      using add id by (auto simp: kept_def word_le_nat_alt)
  qed
  show ?thesis
  proof (cases op)
    case (Schedule_once d cb)
    then show ?thesis
      using tw' by (intro added [of "Once (Some cb)"]) (simp_all add: schedule_add_timer)
  next
    case (Schedule_repeating d cb)
    then show ?thesis
      using tw' by (intro added [of "Repeating cb d"]) (simp_all add: schedule_add_timer)
  next
    case (Cancel i)
    then obtain b where "cancel i tw = (b, tw')"
      using tw' by (metis timer_op_step.simps(3) prod.collapse)
    note can = cancel_spec [OF inv this]
    have "cancels [(now, op)] = {i}"
      by (simp add: cancels_def Cancel)
    moreover have "ops_ok ops tw'"
      using ok can tick_of_start [of "inner tw'" "inner tw"] by (auto simp: ops_ok_def)
    ultimately show ?thesis
      using can by (simp add: kept_def)
  qed
qed

lemma run_ops_spec:
  "service_inv tw \<Longrightarrow> ops_ok ops tw \<Longrightarrow> service_inv (run_ops ops tw) \<and> kept tw (run_ops ops tw)
     \<and> next_id tw \<le> next_id (run_ops ops tw)
     \<and> canceled_in_flight (inner (run_ops ops tw))
         = canceled_in_flight (inner tw) \<union> (in_flight (inner tw) \<inter> cancels ops)
     \<and> (\<forall>i < next_id tw. lookup (inner (run_ops ops tw)) i
         = (if i \<in> cancels ops then None else lookup (inner tw) i))"
proof (induction ops arbitrary: tw)
  case Nil
  then show ?case by (simp add: run_ops_def kept_def cancels_def)
next
  case (Cons p ops)
  obtain now op where p: "p = (now, op)" by fastforce
  let ?tw1 = "timer_op_step (now, op) tw"
  note step = timer_op_step_spec [OF Cons.prems(1) Cons.prems(2) [unfolded p] refl]
  have "cancels (p # ops) = cancels [(now, op)] \<union> cancels ops"
    by (auto simp: cancels_def p)
  moreover have "run_ops (p # ops) tw = run_ops ops ?tw1"
    by (simp add: run_ops_def p)
  moreover have "i < next_id ?tw1" if "i < next_id tw" for i
    using that step by (auto intro: order_less_le_trans)
  moreover have "next_id tw \<le> next_id (run_ops ops ?tw1)"
    using step Cons.IH [of ?tw1] by (blast intro: order_trans)
  ultimately show ?case
    using step Cons.IH [of ?tw1] by (simp add: kept_def Un_assoc Int_Un_distrib)
qed

subsection \<open>Firing\<close>

definition entry_ops :: "('cb \<Rightarrow> (instant \<times> 'cb timer_op) list) \<Rightarrow> 'cb timer_entry
    \<Rightarrow> (instant \<times> 'cb timer_op) list" where
  "entry_ops prog e = (case kind e of Once None \<Rightarrow> [] | Once (Some cb) \<Rightarrow> prog cb
                       | Repeating cb _ \<Rightarrow> prog cb)"

lemma fire_callbacks_ops:
  "fire_callbacks (\<lambda>cb. run_ops (prog cb)) es rs tw =
     (rs @ filter is_repeating es, run_ops (concat (map (entry_ops prog) es)) tw)"
  by (induction es arbitrary: rs tw)
    (auto simp: run_ops_def entry_ops_def is_repeating_def split: timer_kind.splits option.splits)

subsection \<open>Putting repeating timers back\<close>

definition rearmed :: "u64 \<Rightarrow> 'cb timer_entry \<Rightarrow> 'cb timer_entry" where
  "rearmed now_tick e = (case kind e of
      Repeating _ interval \<Rightarrow> e\<lparr>deadline_tick := now_tick + as_millis_u64 interval\<rparr>
    | Once _ \<Rightarrow> e)"

definition interval_ticks :: "'cb timer_entry \<Rightarrow> nat" where
  "interval_ticks e = (case kind e of Repeating _ interval \<Rightarrow> unat (as_millis_u64 interval) | Once _ \<Rightarrow> 0)"

lemma due_rearmed:
  "is_repeating e \<Longrightarrow> unat t + interval_ticks e < 2 ^ 64 \<Longrightarrow> due_tick (rearmed t e) = unat t + interval_ticks e"
  by (auto simp: rearmed_def interval_ticks_def due_tick_def is_repeating_def unat_add_no_wrap
      split: timer_kind.splits)

lemma rearmed_fields [simp]: "entry_id (rearmed t e) = entry_id e" "kind (rearmed t e) = kind e"
  by (simp_all add: rearmed_def split: timer_kind.splits)

lemma wheel_inv_flight [simp]:
  "wheel_inv (w\<lparr>in_flight := f\<rparr>) = wheel_inv w"
  "wheel_inv (w\<lparr>canceled_in_flight := f\<rparr>) = wheel_inv w"
  by (simp_all add: wheel_inv_def shape_def placed_def overflow_ok_def cover_def live_def
      earliest_ok_def)

lemma reschedule_loop_Cons:
  assumes "is_repeating e"
  shows "reschedule_loop t (e # es) w =
    (if entry_id e \<in> canceled_in_flight w
     then reschedule_loop t es (w\<lparr>in_flight := in_flight w - {entry_id e},
            canceled_in_flight := canceled_in_flight w - {entry_id e}\<rparr>)
     else reschedule_loop t es (add_entry (rearmed t e) (w\<lparr>in_flight := in_flight w - {entry_id e}\<rparr>)))"
  using assms by (auto simp: rearmed_def is_repeating_def Let_def split: timer_kind.splits)

definition put_back :: "u64 \<Rightarrow> u64 \<Rightarrow> 'cb timer_entry list \<Rightarrow> 'cb wheel_inner \<Rightarrow> 'cb wheel_inner \<Rightarrow> bool" where
  "put_back n t es w w' \<longleftrightarrow> ids_inv n w'
     \<and> in_flight w' = in_flight w - entry_id ` set es
     \<and> canceled_in_flight w' = canceled_in_flight w - entry_id ` set es
     \<and> cursor w' = cursor w \<and> start_time w' = start_time w
     \<and> set (all_ids w') \<subseteq> set (all_ids w) \<union> entry_id ` set es
     \<and> (\<forall>e \<in> set es. lookup w' (entry_id e)
          = (if entry_id e \<in> canceled_in_flight w then None else Some (rearmed t e)))
     \<and> (\<forall>i. i \<notin> entry_id ` set es \<longrightarrow> lookup w' i = lookup w i)"

text \<open>A timer to put back: repeating, marked, its next deadline in range.\<close>

definition due_back :: "u64 \<Rightarrow> u64 \<Rightarrow> 'cb wheel_inner \<Rightarrow> 'cb timer_entry \<Rightarrow> bool" where
  "due_back n t w e \<longleftrightarrow> is_repeating e \<and> entry_id e < n \<and> entry_id e \<in> in_flight w
     \<and> unat t + interval_ticks e < 2 ^ 64"

lemma in_flight_gone: "ids_inv n w \<Longrightarrow> i \<in> in_flight w \<Longrightarrow> lookup w i = None"
  using live_placed [of w] by (auto simp: ids_inv_def live_def)

lemma put_back_drop:
  assumes "put_back n t es (w\<lparr>in_flight := in_flight w - {i}, canceled_in_flight := canceled_in_flight w - {i}\<rparr>) w'"
    and "entry_id e = i" and "i \<in> canceled_in_flight w" and "lookup w i = None" and "i \<notin> entry_id ` set es"
  shows "put_back n t (e # es) w w'"
proof -
  have "lookup w' i = None"
    using assms(1,4,5) unfolding put_back_def by simp
  moreover have "entry_id x \<noteq> i" if "x \<in> set es" for x
    using that assms(5) by blast
  then have "\<forall>x \<in> set es. lookup w' (entry_id x)
      = (if entry_id x \<in> canceled_in_flight w then None else Some (rearmed t x))"
    using assms(1) unfolding put_back_def by simp
  ultimately show ?thesis
    using assms(1-3) unfolding put_back_def by (simp add: Diff_insert2 [symmetric]) blast
qed

lemma put_back_again:
  assumes "put_back n t es w2 w'" and "entry_id e \<notin> canceled_in_flight w" and "entry_id e \<notin> entry_id ` set es"
    and w2: "lookup w2 = (lookup w)(entry_id e \<mapsto> rearmed t e)" "cursor w2 = cursor w"
      "in_flight w2 = in_flight w - {entry_id e}" "canceled_in_flight w2 = canceled_in_flight w"
      "start_time w2 = start_time w" "set (all_ids w2) = insert (entry_id e) (set (all_ids w))"
  shows "put_back n t (e # es) w w'"
proof -
  have "lookup w' (entry_id e) = Some (rearmed t e)"
    using assms(1,3) unfolding put_back_def by (simp add: w2)
  moreover have "canceled_in_flight w - insert (entry_id e) X = canceled_in_flight w - X" for X
    using assms(2) by auto
  ultimately show ?thesis
    using assms(1,2) unfolding put_back_def by (simp add: w2 Diff_insert2 [symmetric])
qed

lemma add_back:
  assumes ids: "ids_inv n w" and e: "due_back n t w e" and c: "cursor w \<le> unat t"
    and here: "entry_id e \<notin> canceled_in_flight w"
  defines "w2 \<equiv> add_entry (rearmed t e) (w\<lparr>in_flight := in_flight w - {entry_id e}\<rparr>)"
  shows "ids_inv n w2" "lookup w2 = (lookup w)(entry_id e \<mapsto> rearmed t e)" "cursor w2 = cursor w"
    "in_flight w2 = in_flight w - {entry_id e}" "canceled_in_flight w2 = canceled_in_flight w"
    "start_time w2 = start_time w" "set (all_ids w2) = insert (entry_id e) (set (all_ids w))"
proof -
  let ?w1 = "w\<lparr>in_flight := in_flight w - {entry_id e}\<rparr>"
  have rep: "is_repeating e" "entry_id e < n" "entry_id e \<in> in_flight w" "unat t + interval_ticks e < 2 ^ 64"
    using e by (simp_all add: due_back_def)
  have ids1: "ids_inv n ?w1" and fresh: "entry_id e \<notin> set (all_ids w)"
    using ids here rep(3) by (auto simp: ids_inv_def)
  have due: "cursor ?w1 \<le> due_tick (rearmed t e)"
    using c due_rearmed [OF rep(1,4)] by simp
  show "ids_inv n w2"
    unfolding w2_def using rep(2) fresh by (intro add_entry_ids [OF ids1 _ _ due]) simp_all
  have w1: "wheel_inv ?w1"
    using ids1 by (simp add: ids_inv_def)
  have "card (insert (entry_id e) (live ?w1)) < 2 ^ 64"
    using ids1 rep(2) live_placed [OF w1] by (intro room_below [of _ n]) (auto simp: ids_inv_def)
  with fresh show "lookup w2 = (lookup w)(entry_id e \<mapsto> rearmed t e)" "cursor w2 = cursor w"
    "in_flight w2 = in_flight w - {entry_id e}" "canceled_in_flight w2 = canceled_in_flight w"
    "start_time w2 = start_time w" "set (all_ids w2) = insert (entry_id e) (set (all_ids w))"
    using add_entry_spec [OF w1 _ due] by (simp_all add: w2_def)
qed

lemma reschedule_loop_spec:
  "ids_inv n w \<Longrightarrow> distinct (map entry_id es) \<Longrightarrow> \<forall>e \<in> set es. due_back n t w e \<Longrightarrow>
   cursor w \<le> unat t \<Longrightarrow> put_back n t es w (reschedule_loop t es w)"
proof (induction es arbitrary: w)
  case Nil
  then show ?case by (simp add: put_back_def)
next
  case (Cons e es)
  let ?i = "entry_id e"
  have e: "due_back n t w e" and rep: "is_repeating e" and dist: "distinct (map entry_id es)"
    and out: "?i \<notin> entry_id ` set es"
    using Cons.prems(2,3) by (simp_all add: due_back_def)
  have rest: "\<forall>x \<in> set es. due_back n t v x" if "in_flight v = in_flight w - {?i}" for v :: "'a wheel_inner"
  proof
    fix x assume x: "x \<in> set es"
    with out have "entry_id x \<noteq> ?i"
      by (metis image_eqI)
    with x Cons.prems(3) that show "due_back n t v x"
      by (simp add: due_back_def)
  qed
  show ?case
  proof (cases "?i \<in> canceled_in_flight w")
    case True
    let ?w2 = "w\<lparr>in_flight := in_flight w - {?i}, canceled_in_flight := canceled_in_flight w - {?i}\<rparr>"
    have "ids_inv n ?w2"
      using Cons.prems(1) by (auto simp: ids_inv_def)
    then have "put_back n t es ?w2 (reschedule_loop t es ?w2)"
      using Cons.prems(4) by (intro Cons.IH dist rest) simp_all
    moreover have "lookup w ?i = None"
      using in_flight_gone [OF Cons.prems(1)] e by (simp add: due_back_def)
    ultimately have "put_back n t (e # es) w (reschedule_loop t es ?w2)"
      using True out by (intro put_back_drop) simp_all
    then show ?thesis
      using True by (simp only: reschedule_loop_Cons [OF rep] if_True)
  next
    case False
    note add = add_back [OF Cons.prems(1) e Cons.prems(4) False]
    then have "put_back n t (e # es) w (reschedule_loop t es
        (add_entry (rearmed t e) (w\<lparr>in_flight := in_flight w - {?i}\<rparr>)))"
      using False out Cons.prems(4) by (intro put_back_again [OF Cons.IH] dist rest) simp_all
    then show ?thesis
      using False by (simp only: reschedule_loop_Cons [OF rep] if_False)
  qed
qed

subsection \<open>The whole tick\<close>

lemma mark_in_flight_spec:
  assumes "ids_inv n w" and "\<forall>e \<in> set ex. entry_id e < n"
    and "set (map entry_id ex) \<inter> set (all_ids w) = {}"
  shows "ids_inv n (mark_in_flight ex w)"
    and "in_flight (mark_in_flight ex w) = in_flight w \<union> entry_id ` set (filter is_repeating ex)"
  using assms by (auto simp: ids_inv_def mark_in_flight_def)

text \<open>The state between the two critical sections that end a tick: every callback has run.\<close>

definition called_back :: "('cb \<Rightarrow> (instant \<times> 'cb timer_op) list) \<Rightarrow> 'cb timer_entry list
    \<Rightarrow> 'cb wheel_inner \<Rightarrow> 'cb timer_wheel \<Rightarrow> 'cb timer_wheel" where
  "called_back prog ex w1 tw =
     run_ops (concat (map (entry_ops prog) ex)) (tw\<lparr>inner := mark_in_flight ex w1\<rparr>)"

lemma tick_unfold:
  assumes "tick (\<lambda>cb. run_ops (prog cb)) now later tw = (fired, tw')" and "advance_to now (inner tw) = (ex, w1)"
  shows "fired = ex" and "ex = [] \<Longrightarrow> tw' = tw\<lparr>inner := w1\<rparr>"
    and "ex \<noteq> [] \<Longrightarrow> tw' = (called_back prog ex w1 tw)\<lparr>inner :=
      reschedule later (filter is_repeating ex) (inner (called_back prog ex w1 tw))\<rparr>"
  using assms by (auto simp: tick_def Let_def fire_callbacks_ops called_back_def split: if_splits prod.splits)

lemma idle_advance:
  assumes "ids_inv n w" and "in_flight w = {}" and "advance_to now w = (ex, w1)"
  shows "canceled_in_flight w1 = {}" "in_flight w1 = {}"
  using assms advance_to_frame [OF assms(3)] by (auto simp: ids_inv_def)

lemma called_back_spec:
  assumes inv: "service_inv tw" and quiet: "in_flight (inner tw) = {}"
    and adv: "advance_to now (inner tw) = (ex, w1)"
    and ops: "ops_ok (concat (map (entry_ops prog) ex)) (tw\<lparr>inner := w1\<rparr>)"
  defines "tw2 \<equiv> called_back prog ex w1 tw" and "gone \<equiv> cancels (concat (map (entry_ops prog) ex))"
  shows "ids_inv (next_id tw2) (inner tw2)" and "next_id tw \<le> next_id tw2"
    and "in_flight (inner tw2) = entry_id ` set (filter is_repeating ex)"
    and "canceled_in_flight (inner tw2) = entry_id ` set (filter is_repeating ex) \<inter> gone"
    and "cursor (inner tw2) = cursor w1" and "instant_to_tick (inner tw2) = instant_to_tick w1"
    and "i < next_id tw \<Longrightarrow> lookup (inner tw2) i = (if i \<in> gone then None else lookup w1 i)"
proof -
  have ids: "ids_inv (next_id tw) (inner tw)"
    using inv by (simp add: service_inv_def)
  note idle = idle_advance [OF ids quiet adv] and a = advance_ids [OF ids adv]
  have "set (map entry_id ex) \<inter> set (all_ids w1) = {}"
    using a(3) by blast
  note mark = mark_in_flight_spec [OF a(1,2) this]
  have inv1: "service_inv (tw\<lparr>inner := mark_in_flight ex w1\<rparr>)"
    and ops1: "ops_ok (concat (map (entry_ops prog) ex)) (tw\<lparr>inner := mark_in_flight ex w1\<rparr>)"
    using mark(1) ops by (auto simp: service_inv_def ops_ok_def mark_in_flight_def instant_to_tick_def)
  note run = run_ops_spec [OF inv1 ops1, folded called_back_def, folded tw2_def gone_def]
  then show "ids_inv (next_id tw2) (inner tw2)" "next_id tw \<le> next_id tw2"
    "in_flight (inner tw2) = entry_id ` set (filter is_repeating ex)" "cursor (inner tw2) = cursor w1"
    "canceled_in_flight (inner tw2) = entry_id ` set (filter is_repeating ex) \<inter> gone"
    "i < next_id tw \<Longrightarrow> lookup (inner tw2) i = (if i \<in> gone then None else lookup w1 i)"
    using mark(2) idle by (simp_all add: service_inv_def kept_def mark_in_flight_def)
  show "instant_to_tick (inner tw2) = instant_to_tick w1"
    using run by (intro tick_of_start) (simp add: kept_def mark_in_flight_def)
qed

lemma rescheduled:
  assumes inv: "service_inv tw" and quiet: "in_flight (inner tw) = {}"
    and adv: "advance_to now (inner tw) = (ex, w1)"
    and ops: "ops_ok (concat (map (entry_ops prog) ex)) (tw\<lparr>inner := w1\<rparr>)"
    and later: "cursor w1 \<le> tick_of w1 later"
      "\<forall>e \<in> set ex. tick_of w1 later + interval_ticks e < 2 ^ 64"
    and ran: "ex \<noteq> []" "tick (\<lambda>cb. run_ops (prog cb)) now later tw = (fired, tw')"
  defines "tw2 \<equiv> called_back prog ex w1 tw"
  shows "put_back (next_id tw2) (instant_to_tick w1 later) (filter is_repeating ex) (inner tw2) (inner tw')"
    and "next_id tw' = next_id tw2"
proof -
  note called = called_back_spec [OF inv quiet adv ops, folded tw2_def]
  have ids: "ids_inv (next_id tw) (inner tw)" and w: "wheel_inv (inner tw)"
    using inv by (simp_all add: service_inv_def ids_inv_def)
  have tw': "tw' = tw2\<lparr>inner := reschedule_loop (instant_to_tick w1 later) (filter is_repeating ex) (inner tw2)\<rparr>"
    using tick_unfold(3) [OF ran(2) adv ran(1)] called(6) by (simp add: tw2_def reschedule_def)
  then show "next_id tw' = next_id tw2"
    by simp
  have "distinct (map entry_id (filter is_repeating ex))"
    using advance_to_spec [OF w adv] by (simp add: taken_def distinct_map_filter)
  moreover have "\<forall>e \<in> set (filter is_repeating ex). due_back (next_id tw2) (instant_to_tick w1 later) (inner tw2) e"
    using later(2) advance_ids(2) [OF ids adv] called(2,3) by (auto simp: due_back_def intro: order_less_le_trans)
  ultimately show "put_back (next_id tw2) (instant_to_tick w1 later) (filter is_repeating ex) (inner tw2) (inner tw')"
    unfolding tw' using later(1) called(1,5) by (simp add: reschedule_loop_spec)
qed

lemma tick_spec:
  assumes inv: "service_inv tw" and quiet: "in_flight (inner tw) = {}"
    and adv: "advance_to now (inner tw) = (ex, w1)"
    and ops: "ops_ok (concat (map (entry_ops prog) ex)) (tw\<lparr>inner := w1\<rparr>)"
    and later: "cursor w1 \<le> tick_of w1 later"
      "\<forall>e \<in> set ex. tick_of w1 later + interval_ticks e < 2 ^ 64"
    and run: "tick (\<lambda>cb. run_ops (prog cb)) now later tw = (fired, tw')"
  shows "fired = ex" and "service_inv tw'"
    and "in_flight (inner tw') = {}" and "canceled_in_flight (inner tw') = {}"
    and "\<forall>i < next_id tw. lookup (inner tw') i =
      (if i \<in> cancels (concat (map (entry_ops prog) ex)) then None
       else if i \<in> entry_id ` set (filter is_repeating ex)
       then map_option (rearmed (instant_to_tick w1 later)) (lookup (inner tw) i)
       else lookup w1 i)"
proof -
  have ids: "ids_inv (next_id tw) (inner tw)" and w: "wheel_inv (inner tw)"
    using inv by (simp_all add: service_inv_def ids_inv_def)
  show "fired = ex"
    by (rule tick_unfold(1) [OF run adv])
  have "service_inv tw' \<and> in_flight (inner tw') = {} \<and> canceled_in_flight (inner tw') = {}
    \<and> (\<forall>i < next_id tw. lookup (inner tw') i =
      (if i \<in> cancels (concat (map (entry_ops prog) ex)) then None
       else if i \<in> entry_id ` set (filter is_repeating ex)
       then map_option (rearmed (instant_to_tick w1 later)) (lookup (inner tw) i)
       else lookup w1 i))" (is "_ \<and> _ \<and> _ \<and> ?table")
  proof (cases "ex = []")
    case True
    with tick_unfold(2) [OF run adv] advance_ids(1) [OF ids adv] idle_advance [OF ids quiet adv]
    show ?thesis
      by (simp add: service_inv_def cancels_def)
  next
    case False
    note called = called_back_spec [OF inv quiet adv ops]
      and restored = rescheduled [OF inv quiet adv ops later False run]
    have before: "lookup (inner tw) (entry_id e) = Some e" if "e \<in> set ex" for e
      using advance_to_spec [OF w adv] that by (simp add: taken_def)
    have ?table
      using restored(1) called(4,7) before by (auto simp: put_back_def)
    moreover have "service_inv tw'" "in_flight (inner tw') = {}" "canceled_in_flight (inner tw') = {}"
      using restored called(3,4) unfolding put_back_def service_inv_def by auto
    ultimately show ?thesis by blast
  qed
  then show "service_inv tw'" "in_flight (inner tw') = {}" "canceled_in_flight (inner tw') = {}"
    and "\<forall>i < next_id tw. lookup (inner tw') i =
      (if i \<in> cancels (concat (map (entry_ops prog) ex)) then None
       else if i \<in> entry_id ` set (filter is_repeating ex)
       then map_option (rearmed (instant_to_tick w1 later)) (lookup (inner tw) i)
       else lookup w1 i)"
    by blast+
qed

end
