(* ===== verification/Timer_Races.thy ===== *)
theory Timer_Races
  imports Timer_Tick
begin

section \<open>Timers used by several threads\<close>

text \<open>
  The timer wheel under interleaving. \<open>tick\<close> takes the lock three times: to advance, to mark
  the expired repeating timers as in flight, and to put them back; between these steps, and
  while callbacks run, any thread may schedule, cancel or tick. A step of the system is one
  critical section or one callback, the clock moves on between steps, and callbacks'
  own operations are further steps. A step that would give out the last id or wrap a tick
  count (\<open>2\<^sup>64\<close> milliseconds) is not in the model.
\<close>

subsection \<open>The system\<close>

datatype 'cb ticker =
    Idle
  | Started instant
  | Expired "'cb timer_entry list"
  | Firing "'cb timer_entry list" "'cb timer_entry list"

record 'cb shared_wheel =
  shared :: "'cb timer_wheel"
  clock :: instant
  tickers :: "nat \<Rightarrow> 'cb ticker"
  fired :: "('cb timer_entry \<times> instant) list"

definition shared_new :: "instant \<Rightarrow> 'cb shared_wheel" where
  "shared_new now = \<lparr>shared = timer_wheel_new now, clock = now, tickers = (\<lambda>_. Idle), fired = []\<rparr>"

abbreviation the_wheel :: "'cb shared_wheel \<Rightarrow> 'cb wheel_inner" where
  "the_wheel s \<equiv> inner (shared s)"

definition with_wheel :: "'cb wheel_inner \<Rightarrow> 'cb shared_wheel \<Rightarrow> 'cb shared_wheel" where
  "with_wheel w s = s\<lparr>shared := (shared s)\<lparr>inner := w\<rparr>\<rparr>"

definition set_ticker :: "nat \<Rightarrow> 'cb ticker \<Rightarrow> 'cb shared_wheel \<Rightarrow> 'cb shared_wheel" where
  "set_ticker k t s = s\<lparr>tickers := (tickers s)(k := t)\<rparr>"

definition in_range :: "'cb wheel_inner \<Rightarrow> instant \<Rightarrow> bool" where
  "in_range w now \<longleftrightarrow> (now - start_time w) div 1000000 < 2 ^ 64"

definition log_entry :: "'cb timer_entry \<Rightarrow> instant \<Rightarrow> ('cb timer_entry \<times> instant) list" where
  "log_entry e now = (case kind e of Once None \<Rightarrow> [] | _ \<Rightarrow> [(e, now)])"

inductive wheel_step :: "'cb shared_wheel \<Rightarrow> 'cb shared_wheel \<Rightarrow> bool" where
  Clock: "clock s \<le> now \<Longrightarrow> in_range (the_wheel s) now \<Longrightarrow> wheel_step s (s\<lparr>clock := now\<rparr>)"
| Sched_once: "schedulable (clock s) delay (shared s) \<Longrightarrow>
    schedule_once delay cb (clock s) (shared s) = (i, tw) \<Longrightarrow> wheel_step s (s\<lparr>shared := tw\<rparr>)"
| Sched_repeating: "schedulable (clock s) interval (shared s) \<Longrightarrow>
    schedule_repeating interval cb (clock s) (shared s) = (i, tw) \<Longrightarrow> wheel_step s (s\<lparr>shared := tw\<rparr>)"
| Cancels: "cancel i (shared s) = (b, tw) \<Longrightarrow> wheel_step s (s\<lparr>shared := tw\<rparr>)"
| Tick_read: "tickers s k = Idle \<Longrightarrow> wheel_step s (set_ticker k (Started (clock s)) s)"
| Tick_advance: "tickers s k = Started now \<Longrightarrow> advance_to now (the_wheel s) = (ex, w) \<Longrightarrow>
    wheel_step s (set_ticker k (if ex = [] then Idle else Expired ex) (with_wheel w s))"
| Tick_mark: "tickers s k = Expired ex \<Longrightarrow>
    wheel_step s (set_ticker k (Firing ex []) (with_wheel (mark_in_flight ex (the_wheel s)) s))"
| Tick_fire: "tickers s k = Firing (e # es) rs \<Longrightarrow>
    wheel_step s (set_ticker k (Firing es (if is_repeating e then rs @ [e] else rs))
      (s\<lparr>fired := fired s @ log_entry e (clock s)\<rparr>))"
| Tick_finish: "tickers s k = Firing [] rs \<Longrightarrow>
    \<forall>e \<in> set rs. tick_of (the_wheel s) (clock s) + interval_ticks e < 2 ^ 64 \<Longrightarrow>
    wheel_step s (set_ticker k Idle (with_wheel (reschedule (clock s) rs (the_wheel s)) s))"

definition reachable :: "'cb shared_wheel \<Rightarrow> bool" where
  "reachable s \<longleftrightarrow> (\<exists>now. wheel_step\<^sup>*\<^sup>* (shared_new now) s)"

lemma set_ticker_fields [simp]:
  "shared (set_ticker k t s) = shared s" "clock (set_ticker k t s) = clock s"
  "fired (set_ticker k t s) = fired s" "tickers (set_ticker k t s) = (tickers s)(k := t)"
  by (simp_all add: set_ticker_def)

lemma with_wheel_fields [simp]:
  "the_wheel (with_wheel w s) = w" "next_id (shared (with_wheel w s)) = next_id (shared s)"
  "clock (with_wheel w s) = clock s" "tickers (with_wheel w s) = tickers s"
  "fired (with_wheel w s) = fired s"
  by (simp_all add: with_wheel_def)

subsection \<open>The invariant\<close>

text \<open>The entries a ticker holds, and the ids of those it has marked as in flight.\<close>

fun owned :: "'cb ticker \<Rightarrow> 'cb timer_entry list" where
  "owned Idle = []"
| "owned (Started _) = []"
| "owned (Expired ex) = ex"
| "owned (Firing es rs) = es @ rs"

fun flying :: "'cb ticker \<Rightarrow> timer_id set" where
  "flying (Firing es rs) = entry_id ` {e \<in> set es \<union> set rs. is_repeating e}"
| "flying _ = {}"

definition owned_ids :: "'cb ticker \<Rightarrow> timer_id set" where
  "owned_ids t = entry_id ` set (owned t)"

lemma flying_owned: "flying t \<subseteq> owned_ids t"
  by (cases t) (auto simp: owned_ids_def)

definition ticker_ok :: "'cb shared_wheel \<Rightarrow> 'cb ticker \<Rightarrow> bool" where
  "ticker_ok s t \<longleftrightarrow> distinct (map entry_id (owned t))
     \<and> (\<forall>e \<in> set (owned t). entry_id e < next_id (shared s) \<and> entry_id e \<notin> set (all_ids (the_wheel s))
          \<and> due_tick e \<le> tick_of (the_wheel s) (clock s))
     \<and> (case t of Started now \<Rightarrow> now \<le> clock s
        | Firing es rs \<Rightarrow> \<forall>e \<in> set rs. is_repeating e | _ \<Rightarrow> True)"

definition race_inv :: "'cb shared_wheel \<Rightarrow> bool" where
  "race_inv s \<longleftrightarrow> service_inv (shared s)
     \<and> cursor (the_wheel s) \<le> tick_of (the_wheel s) (clock s) \<and> in_range (the_wheel s) (clock s)
     \<and> (\<forall>k. ticker_ok s (tickers s k))
     \<and> (\<forall>j k. j \<noteq> k \<longrightarrow> owned_ids (tickers s j) \<inter> owned_ids (tickers s k) = {})
     \<and> in_flight (the_wheel s) = (\<Union>k. flying (tickers s k))
     \<and> (\<forall>(e, t) \<in> set (fired s). due_tick e \<le> tick_of (the_wheel s) t)"

lemma tick_of_eq: "in_range w now \<Longrightarrow> tick_of w now = (now - start_time w) div 1000000"
  by (simp add: in_range_def instant_to_tick_def as_millis_u64_def unat_of_nat)

lemma tick_of_mono:
  assumes "in_range w now" and "t \<le> now"
  shows "tick_of w t \<le> tick_of w now"
proof -
  have "(t - start_time w) div 1000000 \<le> (now - start_time w) div 1000000"
    using assms(2) by (intro div_le_mono diff_le_mono)
  moreover from this have "in_range w t"
    using assms(1) unfolding in_range_def by linarith
  ultimately show ?thesis
    using tick_of_eq assms(1) by metis
qed

lemma race_inv_new: "race_inv (shared_new now)"
  using service_new [of now]
  by (simp add: race_inv_def shared_new_def timer_wheel_new_def ticker_ok_def owned_ids_def
      in_range_def wheel_inner_new_def cursor_def)

lemma ticker_ok_mono:
  assumes ok: "ticker_ok s t" and "next_id (shared s) \<le> next_id (shared s')" "clock s \<le> clock s'"
    and "tick_of (the_wheel s) (clock s) \<le> tick_of (the_wheel s') (clock s')"
    and "owned_ids t \<inter> set (all_ids (the_wheel s')) = {}"
  shows "ticker_ok s' t"
proof -
  have "entry_id e < next_id (shared s') \<and> entry_id e \<notin> set (all_ids (the_wheel s'))
      \<and> due_tick e \<le> tick_of (the_wheel s') (clock s')" if e: "e \<in> set (owned t)" for e
  proof -
    from ok e have "entry_id e < next_id (shared s)" "due_tick e \<le> tick_of (the_wheel s) (clock s)"
      by (auto simp: ticker_ok_def)
    with assms(2,4) have "entry_id e < next_id (shared s')"
      "due_tick e \<le> tick_of (the_wheel s') (clock s')"
      by (auto intro: order_less_le_trans order_trans)
    moreover have "entry_id e \<notin> set (all_ids (the_wheel s'))"
      using assms(5) e by (auto simp: owned_ids_def)
    ultimately show ?thesis by blast
  qed
  with ok assms(3) show ?thesis
    by (auto simp: ticker_ok_def split: ticker.splits)
qed

lemma ticker_ok_ids:
  "ticker_ok s t \<Longrightarrow> owned_ids t \<inter> set (all_ids (the_wheel s)) = {} \<and> (\<forall>i \<in> owned_ids t. i < next_id (shared s))"
  by (auto simp: ticker_ok_def owned_ids_def)

lemma race_tickers: "race_inv s \<Longrightarrow> ticker_ok s (tickers s k)"
  by (simp add: race_inv_def)

lemma race_disjoint:
  "race_inv s \<Longrightarrow> j \<noteq> k \<Longrightarrow> owned_ids (tickers s j) \<inter> owned_ids (tickers s k) = {}"
  by (simp add: race_inv_def)

lemma held_not_live:
  assumes "race_inv s"
  shows "owned_ids (tickers s k) \<inter> live (the_wheel s) = {}"
proof -
  have "wheel_inv (the_wheel s)"
    using assms by (simp add: race_inv_def service_inv_def ids_inv_def)
  from live_placed [OF this] show ?thesis
    using ticker_ok_ids [OF race_tickers [OF assms, of k]] by blast
qed

text \<open>A step of the wheel alone: schedule and cancel.\<close>

lemma race_inv_wheel:
  assumes inv: "race_inv s" and tw: "service_inv tw" "kept (shared s) tw"
    "next_id (shared s) \<le> next_id tw"
    and ids: "set (all_ids (inner tw)) \<subseteq> insert (next_id (shared s)) (set (all_ids (the_wheel s)))"
  shows "race_inv (s\<lparr>shared := tw\<rparr>)"
proof -
  have t: "instant_to_tick (inner tw) = instant_to_tick (the_wheel s)"
    using tw(2) by (intro tick_of_start) (simp add: kept_def)
  have "ticker_ok (s\<lparr>shared := tw\<rparr>) (tickers s k)" for k
    using ticker_ok_ids [OF race_tickers [OF inv, of k]] ids
    by (intro ticker_ok_mono [OF race_tickers [OF inv]]) (auto simp: t tw(3))
  with inv tw show ?thesis
    by (simp add: race_inv_def t kept_def in_range_def)
qed


definition others_flying :: "nat \<Rightarrow> 'cb shared_wheel \<Rightarrow> timer_id set" where
  "others_flying k s = (\<Union>j \<in> - {k}. flying (tickers s j))"

lemma flying_split:
  assumes "race_inv s"
  shows "in_flight (the_wheel s) = flying (tickers s k) \<union> others_flying k s"
proof -
  have "in_flight (the_wheel s) = (\<Union>j. flying (tickers s j))"
    using assms by (simp add: race_inv_def)
  then show ?thesis
    by (auto simp: others_flying_def)
qed

lemma others_flying_disjoint:
  assumes "race_inv s"
  shows "owned_ids (tickers s k) \<inter> others_flying k s = {}"
  using assms flying_owned unfolding race_inv_def others_flying_def by fast

text \<open>A step of ticker \<open>k\<close>: it may take ids out of the wheel or put its own back.\<close>

lemma race_inv_ticker:
  assumes inv: "race_inv s" and s': "s' = set_ticker k t (with_wheel w s)"
    and w: "ids_inv (next_id (shared s)) w" "start_time w = start_time (the_wheel s)"
      "cursor w \<le> tick_of w (clock s)"
    and t: "ticker_ok s' t" "owned_ids t \<subseteq> owned_ids (tickers s k) \<union> set (all_ids (the_wheel s))"
    and ids: "set (all_ids w) \<subseteq> set (all_ids (the_wheel s)) \<union> owned_ids (tickers s k)"
    and fl: "in_flight w = flying t \<union> others_flying k s"
  shows "race_inv s'"
proof -
  have tick: "instant_to_tick w = instant_to_tick (the_wheel s)"
    by (rule tick_of_start [OF w(2)])
  have disj: "owned_ids (tickers s i) \<inter> owned_ids (tickers s j) = {}" if "i \<noteq> j" for i j
    using inv that by (simp add: race_inv_def)
  have away: "owned_ids (tickers s j) \<inter> (set (all_ids w) \<union> owned_ids t) = {}" if "j \<noteq> k" for j
    using disj [OF that] t(2) ids ticker_ok_ids [OF race_tickers [OF inv, of j]] by blast
  have "ticker_ok s' (tickers s' j)" for j
  proof (cases "j = k")
    case True
    with t(1) show ?thesis by (simp add: s')
  next
    case False
    have "ticker_ok s' (tickers s j)"
      using away [OF False] by (intro ticker_ok_mono [OF race_tickers [OF inv]]) (auto simp: s' tick)
    with False show ?thesis by (simp add: s')
  qed
  moreover have "owned_ids (tickers s' i) \<inter> owned_ids (tickers s' j) = {}" if "i \<noteq> j" for i j
    using that away [of i] away [of j] disj [of i j] by (auto simp: s')
  moreover have "in_flight (the_wheel s') = (\<Union>j. flying (tickers s' j))"
    using fl by (auto simp: s' others_flying_def split: if_splits)
  moreover have "\<forall>(e, u) \<in> set (fired s'). due_tick e \<le> tick_of (the_wheel s') u"
    using inv by (simp add: s' tick race_inv_def)
  moreover have "in_range (the_wheel s') (clock s')"
    using inv by (simp add: s' in_range_def w(2) race_inv_def)
  ultimately show ?thesis
    using w unfolding race_inv_def service_inv_def by (simp add: s')
qed

lemma race_inv_advance:
  assumes inv: "race_inv s" and k: "tickers s k = Started now"
    and run: "advance_to now (the_wheel s) = (ex, w)"
  shows "race_inv (set_ticker k (if ex = [] then Idle else Expired ex) (with_wheel w s))"
proof (rule race_inv_ticker [OF inv refl])
  let ?t = "if ex = [] then Idle else Expired ex"
  have ids: "ids_inv (next_id (shared s)) (the_wheel s)"
    using inv by (simp add: race_inv_def service_inv_def)
  then have w: "wheel_inv (the_wheel s)"
    by (simp add: ids_inv_def)
  note a = advance_ids [OF ids run] and frame = advance_to_frame [OF run w]
  note exp = expired_not_placed [OF w run]
  have start: "instant_to_tick w = instant_to_tick (the_wheel s)"
    by (rule tick_of_start [OF frame(1)])
  have now: "tick_of (the_wheel s) now \<le> tick_of (the_wheel s) (clock s)"
    using inv race_tickers [OF inv, of k] k
    by (intro tick_of_mono) (simp_all add: race_inv_def ticker_ok_def)
  show "ids_inv (next_id (shared s)) w" "start_time w = start_time (the_wheel s)"
    by (rule a(1), rule frame(1))
  show "cursor w \<le> tick_of w (clock s)"
    using inv advance_to_spec [OF w run] now by (simp add: start race_inv_def)
  show "owned_ids ?t \<subseteq> owned_ids (tickers s k) \<union> set (all_ids (the_wheel s))"
    using exp(2) by (auto simp: owned_ids_def)
  show "set (all_ids w) \<subseteq> set (all_ids (the_wheel s)) \<union> owned_ids (tickers s k)"
    using exp(1) by blast
  show "in_flight w = flying ?t \<union> others_flying k s"
    using flying_split [OF inv, of k] frame(2) k by simp
  have due: "due_tick e \<le> tick_of w (clock s)" if "e \<in> set ex" for e
    using wq.advance_due [OF w run that] now by (simp add: start)
  have "distinct (map entry_id ex)"
    using advance_to_spec [OF w run] by (simp add: taken_def)
  then show "ticker_ok (set_ticker k ?t (with_wheel w s)) ?t"
    using a(2) exp(3) due by (auto simp: ticker_ok_def)
qed

lemma race_inv_mark:
  assumes inv: "race_inv s" and k: "tickers s k = Expired ex"
  shows "race_inv (set_ticker k (Firing ex []) (with_wheel (mark_in_flight ex (the_wheel s)) s))"
proof (rule race_inv_ticker [OF inv refl])
  let ?w = "mark_in_flight ex (the_wheel s)"
  have ids: "ids_inv (next_id (shared s)) (the_wheel s)"
    using inv by (simp add: race_inv_def service_inv_def)
  have ok: "ticker_ok s (Expired ex)"
    using race_tickers [OF inv, of k] k by simp
  have tick: "instant_to_tick ?w = instant_to_tick (the_wheel s)"
    by (rule tick_of_start) (simp add: mark_in_flight_def)
  have disj: "set (map entry_id ex) \<inter> set (all_ids (the_wheel s)) = {}"
    using ok by (auto simp: ticker_ok_def)
  show "ids_inv (next_id (shared s)) ?w"
    using ok by (intro mark_in_flight_spec(1) [OF ids _ disj]) (simp add: ticker_ok_def)
  show "start_time ?w = start_time (the_wheel s)" and
    "set (all_ids ?w) \<subseteq> set (all_ids (the_wheel s)) \<union> owned_ids (tickers s k)"
    by (simp_all add: mark_in_flight_def)
  show "cursor ?w \<le> tick_of ?w (clock s)"
    using inv by (simp add: tick race_inv_def) (simp add: mark_in_flight_def)
  show "ticker_ok (set_ticker k (Firing ex []) (with_wheel ?w s)) (Firing ex [])"
    using ok by (simp add: ticker_ok_def tick) (simp add: mark_in_flight_def)
  show "owned_ids (Firing ex []) \<subseteq> owned_ids (tickers s k) \<union> set (all_ids (the_wheel s))"
    using k by (simp add: owned_ids_def)
  show "in_flight ?w = flying (Firing ex []) \<union> others_flying k s"
    using flying_split [OF inv, of k] k by (auto simp: mark_in_flight_def)
qed

lemma race_inv_finish:
  assumes inv: "race_inv s" and k: "tickers s k = Firing [] rs"
    and room: "\<forall>e \<in> set rs. tick_of (the_wheel s) (clock s) + interval_ticks e < 2 ^ 64"
  defines "w \<equiv> reschedule (clock s) rs (the_wheel s)"
  shows "race_inv (set_ticker k Idle (with_wheel w s))"
    and "put_back (next_id (shared s)) (instant_to_tick (the_wheel s) (clock s)) rs (the_wheel s) w"
proof -
  let ?t = "instant_to_tick (the_wheel s) (clock s)"
  have ids: "ids_inv (next_id (shared s)) (the_wheel s)"
    using inv by (simp add: race_inv_def service_inv_def)
  have ok: "ticker_ok s (Firing [] rs)"
    using race_tickers [OF inv, of k] k by simp
  have fl: "in_flight (the_wheel s) = entry_id ` set rs \<union> others_flying k s"
    using flying_split [OF inv, of k] k ok by (auto simp: ticker_ok_def)
  have w: "w = reschedule_loop ?t rs (the_wheel s)"
    by (simp add: w_def reschedule_def)
  show restored: "put_back (next_id (shared s)) ?t rs (the_wheel s) w"
    unfolding w
  proof (rule reschedule_loop_spec [OF ids])
    show "distinct (map entry_id rs)" "\<forall>e \<in> set rs. due_back (next_id (shared s)) ?t (the_wheel s) e"
      using ok room fl by (auto simp: ticker_ok_def due_back_def)
    show "cursor (the_wheel s) \<le> unat ?t"
      using inv by (simp add: race_inv_def)
  qed
  have tick: "instant_to_tick w = instant_to_tick (the_wheel s)"
    using restored by (intro tick_of_start) (simp add: put_back_def)
  show "race_inv (set_ticker k Idle (with_wheel w s))"
  proof (rule race_inv_ticker [OF inv refl])
    show "cursor w \<le> tick_of w (clock s)"
      using inv restored by (simp add: tick race_inv_def put_back_def)
    show "in_flight w = flying Idle \<union> others_flying k s"
      using fl restored others_flying_disjoint [OF inv, of k] k
      by (auto simp: put_back_def owned_ids_def)
  qed (use restored k in \<open>simp_all add: put_back_def owned_ids_def ticker_ok_def\<close>)
qed


lemma race_inv_log:
  assumes "race_inv s" and "\<forall>(e, t) \<in> set l. due_tick e \<le> tick_of (the_wheel s) t"
  shows "race_inv (s\<lparr>fired := fired s @ l\<rparr>)"
proof -
  have "ticker_ok (s\<lparr>fired := fired s @ l\<rparr>) t = ticker_ok s t" for t
    by (simp add: ticker_ok_def split: ticker.splits)
  with assms show ?thesis
    by (auto simp: race_inv_def)
qed

lemma race_inv_fire:
  assumes inv: "race_inv s" and k: "tickers s k = Firing (e # es) rs"
  shows "race_inv (set_ticker k (Firing es (if is_repeating e then rs @ [e] else rs))
    (s\<lparr>fired := fired s @ log_entry e (clock s)\<rparr>))"
proof -
  let ?t = "Firing es (if is_repeating e then rs @ [e] else rs)"
  let ?s = "set_ticker k ?t (with_wheel (the_wheel s) s)"
  have ok: "ticker_ok s (Firing (e # es) rs)"
    using race_tickers [OF inv, of k] k by simp
  have "race_inv ?s"
  proof (rule race_inv_ticker [OF inv refl])
    show "ids_inv (next_id (shared s)) (the_wheel s)" "cursor (the_wheel s) \<le> tick_of (the_wheel s) (clock s)"
      using inv by (simp_all add: race_inv_def service_inv_def)
    show "in_flight (the_wheel s) = flying ?t \<union> others_flying k s"
      using flying_split [OF inv, of k] k by auto
    show "ticker_ok ?s ?t"
      using ok by (auto simp: ticker_ok_def)
  qed (use k in \<open>auto simp: owned_ids_def\<close>)
  moreover have "due_tick e \<le> tick_of (the_wheel s) (clock s)"
    using ok by (simp add: ticker_ok_def)
  then have "\<forall>(x, t) \<in> set (log_entry e (clock s)). due_tick x \<le> tick_of (the_wheel ?s) t"
    by (simp add: log_entry_def split: timer_kind.splits option.splits)
  ultimately have "race_inv (?s\<lparr>fired := fired ?s @ log_entry e (clock s)\<rparr>)"
    by (rule race_inv_log)
  moreover have "set_ticker k ?t (s\<lparr>fired := fired s @ log_entry e (clock s)\<rparr>)
      = ?s\<lparr>fired := fired ?s @ log_entry e (clock s)\<rparr>"
    by (rule shared_wheel.equality) (simp_all add: with_wheel_def set_ticker_def)
  ultimately show ?thesis
    by (simp only:)
qed

lemma add_timer_step:
  assumes inv: "race_inv s" and ok: "schedulable now delay (shared s)"
    and run: "add_timer delay c now (shared s) = (i, tw)"
  shows "race_inv (s\<lparr>shared := tw\<rparr>)" and "next_id (shared s) < next_id tw"
    and "live (inner tw) \<subseteq> insert (next_id (shared s)) (live (the_wheel s))"
    and "canceled_in_flight (inner tw) = canceled_in_flight (the_wheel s)"
proof -
  have sinv: "service_inv (shared s)"
    using inv by (simp add: race_inv_def)
  note add = add_timer_spec [OF sinv ok run]
  show less: "next_id (shared s) < next_id tw"
    using add ok next_id_less by (simp add: schedulable_def)
  show "race_inv (s\<lparr>shared := tw\<rparr>)"
    using add less by (intro race_inv_wheel [OF inv]) (auto simp: kept_def)
  show "live (inner tw) \<subseteq> insert (next_id (shared s)) (live (the_wheel s))"
    "canceled_in_flight (inner tw) = canceled_in_flight (the_wheel s)"
    using add by (auto simp: live_def)
qed

lemma cancel_ids: "cancel i tw = (b, tw') \<Longrightarrow> all_ids (inner tw') = all_ids (inner tw)"
  by (auto simp: cancel_def cancel_inner_def note_removed_def Let_def split: prod.splits option.splits if_splits)

lemma cancel_step:
  assumes inv: "race_inv s" and run: "cancel i (shared s) = (b, tw)"
  shows "race_inv (s\<lparr>shared := tw\<rparr>)"
proof -
  have "service_inv (shared s)"
    using inv by (simp add: race_inv_def)
  from cancel_spec [OF this run] cancel_ids [OF run] show ?thesis
    by (intro race_inv_wheel [OF inv]) (auto simp: kept_def)
qed

lemma race_inv_clock:
  assumes inv: "race_inv s" and "clock s \<le> now" and "in_range (the_wheel s) now"
  shows "race_inv (s\<lparr>clock := now\<rparr>)"
proof -
  let ?s = "s\<lparr>clock := now\<rparr>"
  have later: "tick_of (the_wheel s) (clock s) \<le> tick_of (the_wheel s) now"
    by (rule tick_of_mono) (rule assms)+
  have "ticker_ok ?s (tickers s k)" for k
    using ticker_ok_ids [OF race_tickers [OF inv, of k]] assms(2) later
    by (intro ticker_ok_mono [OF race_tickers [OF inv]]) auto
  with inv later assms show ?thesis
    by (auto simp: race_inv_def)
qed

lemma race_inv_step: "wheel_step s s' \<Longrightarrow> race_inv s \<Longrightarrow> race_inv s'"
proof (induction rule: wheel_step.induct)
  case (Clock s now)
  then show ?case by (intro race_inv_clock)
next
  case (Sched_once s delay cb i tw)
  then show ?case by (intro add_timer_step(1)) (simp_all add: schedule_add_timer)
next
  case (Sched_repeating s interval cb i tw)
  then show ?case by (intro add_timer_step(1)) (simp_all add: schedule_add_timer)
next
  case (Cancels i s b tw)
  then show ?case by (intro cancel_step)
next
  case (Tick_read s k)
  have "race_inv (set_ticker k (Started (clock s)) (with_wheel (the_wheel s) s))"
  proof (rule race_inv_ticker [OF Tick_read(2) refl])
    show "in_flight (the_wheel s) = flying (Started (clock s)) \<union> others_flying k s"
      using flying_split [OF Tick_read(2), of k] Tick_read(1) by simp
  qed (use Tick_read in \<open>simp_all add: race_inv_def service_inv_def ticker_ok_def owned_ids_def\<close>)
  then show ?case
    by (simp add: with_wheel_def)
next
  case (Tick_advance s k now ex w)
  then show ?case by (intro race_inv_advance)
next
  case (Tick_mark s k ex)
  then show ?case by (intro race_inv_mark)
next
  case (Tick_fire s k e es rs)
  then show ?case by (intro race_inv_fire)
next
  case (Tick_finish s k rs)
  then show ?case by (intro race_inv_finish(1))
qed

lemma reachable_inv: "reachable s \<Longrightarrow> race_inv s"
  unfolding reachable_def
proof (elim exE)
  fix now
  assume "wheel_step\<^sup>*\<^sup>* (shared_new now) s"
  then show "race_inv s"
    by (induction rule: rtranclp_induct) (auto intro: race_inv_new race_inv_step)
qed

subsection \<open>What a cancelled timer can still do\<close>

text \<open>No tick will pick the timer up again: it is not pending, and a ticker that holds it
  drops it when its callback has run.\<close>

definition dying :: "timer_id \<Rightarrow> 'cb shared_wheel \<Rightarrow> bool" where
  "dying i s \<longleftrightarrow> i < next_id (shared s) \<and> i \<notin> live (the_wheel s)
     \<and> (\<forall>k. i \<in> owned_ids (tickers s k) \<longrightarrow> i \<in> canceled_in_flight (the_wheel s))"

definition dead :: "timer_id \<Rightarrow> 'cb shared_wheel \<Rightarrow> bool" where
  "dead i s \<longleftrightarrow> i < next_id (shared s) \<and> i \<notin> live (the_wheel s)
     \<and> (\<forall>k. i \<notin> owned_ids (tickers s k))"

definition firings :: "timer_id \<Rightarrow> 'cb shared_wheel \<Rightarrow> ('cb timer_entry \<times> instant) list" where
  "firings i s = filter (\<lambda>(e, _). entry_id e = i) (fired s)"


lemma dead_dying: "dead i s \<Longrightarrow> dying i s"
  by (simp add: dead_def dying_def)

lemma advance_owned:
  assumes inv: "race_inv s" and run: "advance_to now (the_wheel s) = (ex, w)"
  shows "live w \<subseteq> live (the_wheel s)" and "entry_id ` set ex \<subseteq> live (the_wheel s)"
    and "canceled_in_flight w = canceled_in_flight (the_wheel s)"
proof -
  have w: "wheel_inv (the_wheel s)"
    using inv by (simp add: race_inv_def service_inv_def ids_inv_def)
  note spec = advance_to_spec [OF w run]
  show "live w \<subseteq> live (the_wheel s)"
    using wq.advance_rest [OF w run] by (auto simp: live_def)
  show "entry_id ` set ex \<subseteq> live (the_wheel s)"
    using spec by (auto simp: taken_def live_def)
  show "canceled_in_flight w = canceled_in_flight (the_wheel s)"
    by (rule advance_to_frame(3) [OF run w])
qed

lemma finish_live:
  assumes inv: "race_inv s" and k: "tickers s k = Firing [] rs"
    and room: "\<forall>e \<in> set rs. tick_of (the_wheel s) (clock s) + interval_ticks e < 2 ^ 64"
    and dying: "dying i s"
  defines "w \<equiv> reschedule (clock s) rs (the_wheel s)"
  shows "i \<notin> live w" and "j \<noteq> k \<Longrightarrow> i \<in> owned_ids (tickers s j) \<Longrightarrow> i \<in> canceled_in_flight w"
proof -
  note spec = race_inv_finish(2) [OF inv k room, folded w_def, unfolded put_back_def]
  have rs: "owned_ids (tickers s k) = entry_id ` set rs"
    using k by (simp add: owned_ids_def)
  have "lookup w i = None"
  proof (cases "i \<in> entry_id ` set rs")
    case True
    then have "i \<in> canceled_in_flight (the_wheel s)"
      using dying rs by (auto simp: dying_def)
    moreover obtain e where e: "e \<in> set rs" "i = entry_id e"
      using True by blast
    moreover have "lookup w (entry_id e) = (if entry_id e \<in> canceled_in_flight (the_wheel s) then None
        else Some (rearmed (instant_to_tick (the_wheel s) (clock s)) e))"
      using spec e(1) by blast
    ultimately show ?thesis
      by simp
  next
    case False
    then have "lookup w i = lookup (the_wheel s) i"
      using spec by blast
    with dying show ?thesis by (auto simp: dying_def live_def)
  qed
  then show "i \<notin> live w"
    by (simp add: live_def domIff)
  show "i \<in> canceled_in_flight w" if "j \<noteq> k" "i \<in> owned_ids (tickers s j)"
  proof -
    have "i \<notin> entry_id ` set rs"
      using race_disjoint [OF inv that(1)] that(2) unfolding rs by blast
    moreover have "i \<in> canceled_in_flight (the_wheel s)"
      using dying that(2) by (auto simp: dying_def)
    moreover have "canceled_in_flight w = canceled_in_flight (the_wheel s) - entry_id ` set rs"
      using spec by blast
    ultimately show ?thesis
      by blast
  qed
qed

lemma cancel_live:
  assumes "race_inv s" and "cancel i (shared s) = (b, tw)"
  shows "live (inner tw) = live (the_wheel s) - {i}" and "next_id tw = next_id (shared s)"
    and "canceled_in_flight (the_wheel s) \<subseteq> canceled_in_flight (inner tw)"
  using cancel_spec [OF _ assms(2)] assms(1) by (auto simp: race_inv_def live_def)

lemma dying_step: "wheel_step s s' \<Longrightarrow> race_inv s \<Longrightarrow> dying i s \<Longrightarrow> dying i s'"
proof (induction rule: wheel_step.induct)
  case (Clock s now)
  then show ?case by (simp add: dying_def)
next
  case (Sched_once s delay cb j tw)
  with add_timer_step(2-4) [of s "clock s" delay "Once (Some cb)" j tw] show ?case
    by (auto simp: dying_def schedule_add_timer)
next
  case (Sched_repeating s interval cb j tw)
  with add_timer_step(2-4) [of s "clock s" interval "Repeating cb interval" j tw] show ?case
    by (auto simp: dying_def schedule_add_timer)
next
  case (Cancels j s b tw)
  with cancel_live [of s j b tw] show ?case
    by (auto simp: dying_def)
next
  case (Tick_read s k)
  then show ?case by (auto simp: dying_def owned_ids_def)
next
  case (Tick_advance s k now ex w)
  with advance_owned [OF Tick_advance(3,2)] show ?case
    by (auto simp: dying_def owned_ids_def)
next
  case (Tick_mark s k ex)
  have "owned_ids (tickers s k) = entry_id ` set ex"
    using Tick_mark(1) by (simp add: owned_ids_def)
  then have "i \<in> entry_id ` set ex \<longrightarrow> i \<in> canceled_in_flight (the_wheel s)"
    using Tick_mark(3) unfolding dying_def by metis
  moreover have "live (mark_in_flight ex (the_wheel s)) = live (the_wheel s)"
    by (simp add: mark_in_flight_def live_def)
  ultimately show ?case
    using Tick_mark(3) by (auto simp: dying_def owned_ids_def) (auto simp: mark_in_flight_def)
next
  case (Tick_fire s k e es rs)
  have "owned_ids (Firing es (if is_repeating e then rs @ [e] else rs)) \<subseteq> owned_ids (tickers s k)"
    using Tick_fire(1) by (auto simp: owned_ids_def)
  then have "i \<in> canceled_in_flight (the_wheel s)"
    if "i \<in> owned_ids (Firing es (if is_repeating e then rs @ [e] else rs))"
    using that Tick_fire(3) unfolding dying_def by blast
  with Tick_fire(3) show ?case
    by (auto simp: dying_def)
next
  case (Tick_finish s k rs)
  note f = finish_live [OF Tick_finish(3,1,2,4)]
  show ?case
    using f Tick_finish(4) by (auto simp: dying_def) (auto simp: owned_ids_def)
qed

lemma dead_step:
  "wheel_step s s' \<Longrightarrow> race_inv s \<Longrightarrow> dead i s \<Longrightarrow> dead i s' \<and> firings i s' = firings i s"
proof (induction rule: wheel_step.induct)
  case (Clock s now)
  then show ?case by (simp add: dead_def firings_def)
next
  case (Sched_once s delay cb j tw)
  with add_timer_step(2,3) [of s "clock s" delay "Once (Some cb)" j tw] show ?case
    by (auto simp: dead_def schedule_add_timer firings_def)
next
  case (Sched_repeating s interval cb j tw)
  with add_timer_step(2,3) [of s "clock s" interval "Repeating cb interval" j tw] show ?case
    by (auto simp: dead_def schedule_add_timer firings_def)
next
  case (Cancels j s b tw)
  with cancel_live [of s j b tw] show ?case
    by (auto simp: dead_def firings_def)
next
  case (Tick_read s k)
  then show ?case by (auto simp: dead_def owned_ids_def firings_def)
next
  case (Tick_advance s k now ex w)
  with advance_owned [OF Tick_advance(3,2)] show ?case
    by (auto simp: dead_def owned_ids_def firings_def)
next
  case (Tick_mark s k ex)
  have "owned_ids (tickers s k) = entry_id ` set ex"
    using Tick_mark(1) by (simp add: owned_ids_def)
  then have "i \<notin> entry_id ` set ex"
    using Tick_mark(3) unfolding dead_def by metis
  moreover have "live (mark_in_flight ex (the_wheel s)) = live (the_wheel s)"
    by (simp add: mark_in_flight_def live_def)
  ultimately show ?case
    using Tick_mark(3) by (auto simp: dead_def owned_ids_def firings_def)
next
  case (Tick_fire s k e es rs)
  then have "i \<notin> owned_ids (Firing (e # es) rs)"
    by (metis dead_def)
  with Tick_fire(3) show ?case
    by (auto simp: dead_def owned_ids_def firings_def log_entry_def
        split: timer_kind.splits option.splits)
next
  case (Tick_finish s k rs)
  note f = finish_live(1) [OF Tick_finish(3,1,2) dead_dying [OF Tick_finish(4)]]
  show ?case
    using f Tick_finish(4) by (auto simp: dead_def firings_def owned_ids_def)
qed

lemma after_inv: "wheel_step\<^sup>*\<^sup>* s s' \<Longrightarrow> race_inv s \<Longrightarrow> race_inv s'"
  by (induction rule: rtranclp_induct) (auto intro: race_inv_step)

lemma after_dying: "wheel_step\<^sup>*\<^sup>* s s' \<Longrightarrow> race_inv s \<Longrightarrow> dying i s \<Longrightarrow> dying i s'"
  by (induction rule: rtranclp_induct) (auto intro: dying_step after_inv)

lemma after_dead:
  "wheel_step\<^sup>*\<^sup>* s s' \<Longrightarrow> race_inv s \<Longrightarrow> dead i s \<Longrightarrow> dead i s' \<and> firings i s' = firings i s"
proof (induction rule: rtranclp_induct)
  case base
  then show ?case by simp
next
  case (step y z)
  then show ?case using dead_step [OF step(2)] after_inv [OF step(1)] by simp
qed

lemma cancelled_dying:
  assumes inv: "race_inv s" and run: "cancel i (shared s) = (True, tw)"
  shows "dying i (s\<lparr>shared := tw\<rparr>)"
    and "(\<forall>k. i \<notin> owned_ids (tickers s k)) \<Longrightarrow> dead i (s\<lparr>shared := tw\<rparr>)"
proof -
  have sinv: "service_inv (shared s)"
    using inv by (simp add: race_inv_def)
  note c = cancel_spec [OF sinv run]
  have wheel: "wheel_inv (the_wheel s)"
    using sinv by (simp add: service_inv_def ids_inv_def)
  have i: "i \<in> live (the_wheel s) \<union> in_flight (the_wheel s)"
    using c by simp
  then have less: "i < next_id tw"
    using c sinv live_placed [OF wheel] by (auto simp: service_inv_def ids_inv_def)
  have gone: "i \<notin> live (inner tw)"
    using c by (simp add: live_def)
  show "dead i (s\<lparr>shared := tw\<rparr>)" if "\<forall>k. i \<notin> owned_ids (tickers s k)"
    using that less gone by (simp add: dead_def)
  have "i \<in> in_flight (the_wheel s)" if "i \<in> owned_ids (tickers s k)" for k
    using that i ticker_ok_ids [OF race_tickers [OF inv, of k]] live_placed [OF wheel] by blast
  then show "dying i (s\<lparr>shared := tw\<rparr>)"
    using less gone c by (auto simp: dying_def)
qed

end
