(* ===== verification/Timer_Samples.thy ===== *)
theory Timer_Samples
  imports Timer_Ops
begin

section \<open>A timer wheel to try the properties on\<close>

text \<open>A wheel for the witnesses: started at time 0, with a one-shot timer \<open>1\<close> due at 5 ms and a
  repeating timer \<open>2\<close> every 3 ms.\<close>

definition sample_wheel :: "nat timer_wheel" where
  "sample_wheel = snd (schedule_repeating 3000000 20 0
     (snd (schedule_once 5000000 10 0 (timer_wheel_new 0))))"

definition sample_once :: "nat timer_entry" where
  "sample_once = \<lparr>entry_id = 1, deadline_tick = 5, kind = Once (Some 10)\<rparr>"

definition sample_repeating :: "nat timer_entry" where
  "sample_repeating = \<lparr>entry_id = 2, deadline_tick = 3, kind = Repeating 20 3000000\<rparr>"

lemma sample_new:
  "next_id (timer_wheel_new 0) = 1" "instant_to_tick (inner (timer_wheel_new 0)) t = as_millis_u64 t"
  "cursor (inner (timer_wheel_new 0)) = 0" "lookup (inner (timer_wheel_new 0)) = (\<lambda>_. None)"
  "in_flight (inner (timer_wheel_new 0)) = {}" "start_time (inner (timer_wheel_new 0)) = 0"
  by (simp_all add: timer_wheel_new_def wheel_inner_new_def instant_to_tick_def cursor_def
      lookup_def fun_eq_iff)

lemma add_timer_lookup:
  "lookup (inner (snd (add_timer delay k now tw))) = (lookup (inner tw))(next_id tw \<mapsto>
     \<lparr>entry_id = next_id tw, deadline_tick = instant_to_tick (inner tw) now + as_millis_u64 delay,
      kind = k\<rparr>)"
proof -
  have "lookup (add_entry e w) = (lookup w)(entry_id e \<mapsto> e)" for e and w :: "'a wheel_inner"
    using note_inserted_eq [of "deadline_tick e" "insert_into_wheel (entry_id e) (deadline_tick e)
        (w\<lparr>timers := hm_insert (entry_id e) e (timers w), timer_count := timer_count w + 1\<rparr>)"]
    by (auto simp: add_entry_def Let_def fun_eq_iff)
  then show ?thesis
    by (simp add: add_timer_def)
qed

lemma sample_wheel_facts:
  "service_inv sample_wheel" "cursor (inner sample_wheel) = 0" "next_id sample_wheel = 3"
  "in_flight (inner sample_wheel) = {}" "start_time (inner sample_wheel) = 0"
  "lookup (inner sample_wheel) = [1 \<mapsto> sample_once, 2 \<mapsto> sample_repeating]"
proof -
  define tw1 where "tw1 = snd (add_timer 5000000 (Once (Some (10 :: nat))) 0 (timer_wheel_new 0))"
  have ok1: "schedulable 0 5000000 (timer_wheel_new 0)"
    by (simp add: schedulable_def sample_new as_millis_u64_def)
  have "add_timer 5000000 (Once (Some (10 :: nat))) 0 (timer_wheel_new 0) = (1, tw1)"
    by (simp add: tw1_def add_timer_def sample_new)
  note a = add_timer_spec [OF service_new ok1 this]
  have id1: "next_id tw1 = 2" and tick1: "instant_to_tick (inner tw1) t = as_millis_u64 t" for t
    using a by (simp_all add: instant_to_tick_def sample_new)
  have ok2: "schedulable 0 3000000 tw1"
    using a by (simp add: schedulable_def sample_new tick1 as_millis_u64_def)
  have s: "sample_wheel = snd (add_timer 3000000 (Repeating 20 3000000) 0 tw1)"
    by (simp add: sample_wheel_def tw1_def schedule_add_timer)
  then have "add_timer 3000000 (Repeating 20 3000000) 0 tw1 = (2, sample_wheel)"
    by (simp add: add_timer_def id1)
  note b = add_timer_spec [OF _ ok2 this]
  show "service_inv sample_wheel" "cursor (inner sample_wheel) = 0" "next_id sample_wheel = 3"
    "in_flight (inner sample_wheel) = {}" "start_time (inner sample_wheel) = 0"
    using a b by (simp_all add: sample_new)
  show "lookup (inner sample_wheel) = [1 \<mapsto> sample_once, 2 \<mapsto> sample_repeating]"
    unfolding s add_timer_lookup id1 tick1 unfolding tw1_def add_timer_lookup
    by (simp add: sample_new as_millis_u64_def sample_once_def sample_repeating_def)
qed

lemma sample_lookup:
  "lookup (inner sample_wheel) i = Some e
     \<longleftrightarrow> i = 1 \<and> e = sample_once \<or> i = 2 \<and> e = sample_repeating"
  by (auto simp: sample_wheel_facts)

lemma sample_due: "due_tick sample_once = 5" "due_tick sample_repeating = 3"
  by (simp_all add: due_tick_def sample_once_def sample_repeating_def)

lemma sample_inv: "wheel_inv (inner sample_wheel)"
  using sample_wheel_facts(1) by (simp add: service_inv_def ids_inv_def)

lemma sample_tick: "instant_to_tick (inner sample_wheel) t = as_millis_u64 t"
  by (simp add: instant_to_tick_def sample_wheel_facts)

end
