(* ===== verification/Timer_Props.thy ===== *)
theory Timer_Props
  imports Timer_Races Timer_Samples
begin

section \<open>What the timer wheel promises\<close>

text \<open>
  The properties of \<^verbatim>\<open>mill-io/src/timer_wheel.rs\<close>: which timers fire and when, the
  effect of each operation, and what holds when threads interleave.
\<close>



text \<open>Over any series of advances a pending timer fires at most once: exactly once when one
  of the clocks is past its deadline, and not at all while every clock is before it.\<close>

theorem fires_exactly_once:
  assumes "wheel_inv w" and "lookup w i = Some e"
  shows "count_list (fired_by advance_to nows w) e \<le> 1
    \<and> ((\<exists>now \<in> set nows. due_tick e < tick_of w now) \<longrightarrow> count_list (fired_by advance_to nows w) e = 1)
    \<and> ((\<forall>now \<in> set nows. tick_of w now < due_tick e) \<longrightarrow> count_list (fired_by advance_to nows w) e = 0)"
  using assms by (rule wq.fired_once)

theorem fires_exactly_once_witness:
  "count_list (fired_by advance_to [2000000, 7000000, 9000000] (inner sample_wheel)) sample_once = 1"
  using fires_exactly_once [OF sample_inv, of 1 sample_once "[2000000, 7000000, 9000000]"]
  by (simp add: sample_wheel_facts sample_tick as_millis_u64_def due_tick_def sample_once_def)

text \<open>C8: scheduling gives out an id that no pending timer has and adds exactly one timer, due
  the whole milliseconds of the delay after the clock's tick; the other timers stay.\<close>

theorem schedule_exact:
  assumes "service_inv tw" and "schedulable now delay tw"
    and "schedule_once delay cb now tw = (i, tw') \<and> k = Once (Some cb)
      \<or> schedule_repeating delay cb now tw = (i, tw') \<and> k = Repeating cb delay"
  shows "service_inv tw' \<and> lookup (inner tw) i = None
    \<and> (\<exists>e. lookup (inner tw') = (lookup (inner tw))(i \<mapsto> e) \<and> kind e = k
         \<and> due_tick e = tick_of (inner tw) now + unat (as_millis_u64 delay))"
proof -
  have "add_timer delay k now tw = (i, tw')"
    using assms(3) by (auto simp: schedule_add_timer)
  from add_timer_spec [OF assms(1,2) this] show ?thesis
    by blast
qed

theorem schedule_exact_witness:
  "\<exists>e. lookup (inner (snd (schedule_once 5000000 (7 :: nat) 0 (timer_wheel_new 0)))) = [1 \<mapsto> e]
     \<and> due_tick e = 5"
  using schedule_exact [of "timer_wheel_new 0" 0 5000000 7 1
      "snd (schedule_once 5000000 (7 :: nat) 0 (timer_wheel_new 0))" "Once (Some 7)"]
  by (auto simp: service_new schedulable_def sample_new as_millis_u64_def schedule_add_timer add_timer_def)

text \<open>C9: cancel returns true exactly for a timer that is pending or a repeating timer whose
  callback is running; after it the timer is not pending and no other timer has changed.\<close>

theorem cancel_exact:
  assumes "service_inv tw" and "cancel i tw = (b, tw')"
  shows "service_inv tw' \<and> (b \<longleftrightarrow> i \<in> live (inner tw) \<union> in_flight (inner tw))
    \<and> lookup (inner tw') = (lookup (inner tw))(i := None)
    \<and> (i \<in> in_flight (inner tw) \<longrightarrow> i \<in> canceled_in_flight (inner tw'))"
  using cancel_spec [OF assms] by auto

theorem cancel_exact_witness:
  "fst (cancel 1 sample_wheel) \<and> lookup (inner (snd (cancel 1 sample_wheel))) = [2 \<mapsto> sample_repeating]
     \<and> \<not> fst (cancel 9 sample_wheel)"
  using cancel_exact [OF sample_wheel_facts(1) prod.collapse [symmetric], of 1]
    cancel_exact [OF sample_wheel_facts(1) prod.collapse [symmetric], of 9]
  by (auto simp: sample_wheel_facts live_def fun_eq_iff)

text \<open>C6: the time until the next timer is exactly the gap between the clock's tick and the
  earliest deadline of a pending timer, zero when that has passed, and absent when no timer is
  pending, whether or not the cached value was usable.\<close>

theorem time_until_next_exact:
  assumes "wheel_inv w" and "time_until_next now w = (r, w')"
  shows "wheel_inv w' \<and> lookup w' = lookup w
    \<and> r = (if live w = {} then None
           else Some ((Min (deadlines w) - tick_of w now) * 1000000))"
  using time_until_next_spec [OF assms] by blast

theorem time_until_next_exact_witness:
  "fst (time_until_next 1000000 (inner sample_wheel)) = Some 2000000"
proof -
  have "deadlines (inner sample_wheel) = {5, 3}"
    by (auto simp: deadlines_def sample_lookup sample_due) (use sample_due in blast)+
  moreover have "live (inner sample_wheel) \<noteq> {}"
    by (simp add: live_def sample_wheel_facts)
  ultimately show ?thesis
    using time_until_next_exact [OF sample_inv prod.collapse [symmetric], of 1000000]
    by (simp add: sample_tick as_millis_u64_def)
qed


text \<open>C7: a tick fires exactly what the advance expires. A repeating timer that fired is
  pending again, one interval after the clock at the end of the callbacks, unless a callback
  cancelled it; a one-shot timer that fired is gone; no other timer changes except by the
  callbacks' cancels; and nothing is left marked as in flight.\<close>

theorem tick_exact:
  assumes "service_inv tw" and "in_flight (inner tw) = {}"
    and "advance_to now (inner tw) = (ex, w1)"
    and "ops_ok (concat (map (entry_ops prog) ex)) (tw\<lparr>inner := w1\<rparr>)"
    and "cursor w1 \<le> tick_of w1 later" and "\<forall>e \<in> set ex. tick_of w1 later + interval_ticks e < 2 ^ 64"
    and "tick (\<lambda>cb. run_ops (prog cb)) now later tw = (all, tw')"
  shows "all = ex \<and> service_inv tw' \<and> in_flight (inner tw') = {} \<and> canceled_in_flight (inner tw') = {}
    \<and> (\<forall>i < next_id tw. lookup (inner tw') i =
      (if i \<in> cancels (concat (map (entry_ops prog) ex)) then None
       else if i \<in> entry_id ` set (filter is_repeating ex)
       then map_option (rearmed (instant_to_tick w1 later)) (lookup (inner tw) i)
       else lookup w1 i))"
  using tick_spec [OF assms] by blast

lemma sample_advance:
  obtains w1 where "advance_to 4000000 (inner sample_wheel) = ([sample_repeating], w1)"
    and "start_time w1 = 0" and "cursor w1 = 4" and "lookup w1 = [1 \<mapsto> sample_once]"
proof -
  obtain ex w1 where run: "advance_to 4000000 (inner sample_wheel) = (ex, w1)"
    by fastforce
  note spec = advance_to_spec [OF sample_inv run]
  have "set ex = {e. \<exists>i. lookup (inner sample_wheel) i = Some e \<and> due_at 0 4 (due_tick e)}"
    using spec by (simp add: sample_wheel_facts sample_tick as_millis_u64_def)
  then have "set ex = {sample_repeating}"
    by (auto simp: sample_lookup due_at_def sample_due)
  moreover have "distinct ex"
    using spec by (auto simp: taken_def distinct_map)
  ultimately have ex: "ex = [sample_repeating]"
    by (metis distinct.simps(2) empty_iff insert_iff list.exhaust list.set(1) list.set(2)
        list.set_intros(1) list.set_intros(2))
  have "lookup w1 i = [1 \<mapsto> sample_once] i" for i
    using spec by (simp add: sample_wheel_facts sample_tick as_millis_u64_def keep_def due_at_def
        sample_due)
  then have "lookup w1 = [1 \<mapsto> sample_once]"
    by blast
  moreover have "start_time w1 = 0" "cursor w1 = 4"
    using spec advance_to_frame [OF run sample_inv]
    by (simp_all add: sample_wheel_facts sample_tick as_millis_u64_def)
  ultimately show thesis
    using that run ex by blast
qed

theorem tick_exact_witness:
  "lookup (inner (snd (tick (\<lambda>cb. run_ops []) 4000000 6000000 sample_wheel))) 2
     = Some (sample_repeating\<lparr>deadline_tick := 9\<rparr>)
   \<and> lookup (inner (snd (tick (\<lambda>cb. run_ops [(5000000, Cancel 2)]) 4000000 6000000 sample_wheel))) 2 = None"
proof -
  obtain w1 where w1: "advance_to 4000000 (inner sample_wheel) = ([sample_repeating], w1)"
    "start_time w1 = 0" "cursor w1 = 4" "lookup w1 = [1 \<mapsto> sample_once]"
    by (rule sample_advance)
  have clock: "instant_to_tick w1 t = as_millis_u64 t" for t
    by (simp add: instant_to_tick_def w1)
  have "lookup (inner (snd (tick (\<lambda>cb. run_ops prog) 4000000 6000000 sample_wheel))) 2
      = (if 2 \<in> cancels prog then None else Some (sample_repeating\<lparr>deadline_tick := 9\<rparr>))"
    if "prog = [] \<or> prog = [(5000000, Cancel 2)]" for prog
    using tick_exact [OF sample_wheel_facts(1,4) w1(1), of "\<lambda>_. prog" 6000000,
        OF _ _ _ prod.collapse [symmetric]] that
    by (auto simp: w1 ops_ok_def entry_ops_def sample_repeating_def sample_wheel_facts
        interval_ticks_def is_repeating_def rearmed_def instant_to_tick_def as_millis_u64_def
        cancels_def)
  then show ?thesis
    by (simp add: cancels_def)
qed

subsection \<open>Under interleaving\<close>

text \<open>C11: whatever the threads do, no callback runs before its timer's deadline tick.\<close>

theorem never_early:
  assumes "reachable s" and "(e, t) \<in> set (fired s)"
  shows "due_tick e \<le> tick_of (the_wheel s) t"
  using reachable_inv [OF assms(1)] assms(2) by (auto simp: race_inv_def)

definition sample_idle :: "nat shared_wheel" where
  "sample_idle = (shared_new 0)\<lparr>shared := sample_wheel\<rparr>"

lemma sample_idle_reachable: "reachable sample_idle"
proof -
  let ?tw1 = "snd (schedule_once 5000000 (10 :: nat) 0 (timer_wheel_new 0))"
  let ?s0 = "shared_new 0 :: nat shared_wheel"
  have "wheel_step ?s0 (?s0\<lparr>shared := ?tw1\<rparr>)"
  proof (rule Sched_once)
    show "schedulable (clock ?s0) 5000000 (shared ?s0)"
      by (simp add: shared_new_def schedulable_def sample_new as_millis_u64_def)
    show "schedule_once 5000000 10 (clock ?s0) (shared ?s0) = (1, ?tw1)"
      by (simp add: shared_new_def schedule_add_timer add_timer_def sample_new)
  qed
  moreover have "wheel_step (?s0\<lparr>shared := ?tw1\<rparr>) sample_idle"
  proof -
    have 1: "next_id ?tw1 = 2" "cursor (inner ?tw1) = 0" "start_time (inner ?tw1) = 0"
      by (simp_all add: schedule_add_timer add_timer_def sample_new add_entry_def Let_def
          note_inserted_def cursor_def) (simp_all add: timer_wheel_new_def wheel_inner_new_def)
    have sched: "schedulable (clock (?s0\<lparr>shared := ?tw1\<rparr>)) 3000000 (shared (?s0\<lparr>shared := ?tw1\<rparr>))"
      using 1 by (simp add: shared_new_def schedulable_def as_millis_u64_def instant_to_tick_def)
    have run: "schedule_repeating 3000000 20 (clock (?s0\<lparr>shared := ?tw1\<rparr>))
        (shared (?s0\<lparr>shared := ?tw1\<rparr>)) = (2, sample_wheel)"
      using 1 by (simp add: shared_new_def sample_wheel_def schedule_repeating_def Let_def)
    from Sched_repeating [OF sched run] show ?thesis
      by (simp add: sample_idle_def)
  qed
  ultimately show ?thesis
    unfolding reachable_def by (meson converse_rtranclp_into_rtranclp rtranclp.rtrancl_refl)
qed

lemma reachable_step: "reachable s \<Longrightarrow> wheel_step s s' \<Longrightarrow> reachable s'"
  unfolding reachable_def by (meson rtranclp.rtrancl_into_rtrancl)

text \<open>The sample wheel after a tick of thread 0 at 4 ms has advanced it.\<close>

definition sample_expired :: "nat shared_wheel" where
  "sample_expired = \<lparr>shared = sample_wheel\<lparr>inner := snd (advance_to 4000000 (inner sample_wheel))\<rparr>,
     clock = 4000000, tickers = (\<lambda>_. Idle)(0 := Expired [sample_repeating]), fired = []\<rparr>"

lemma sample_expired_reachable: "reachable sample_expired"
proof -
  let ?s1 = "sample_idle\<lparr>clock := 4000000\<rparr>"
  let ?s2 = "set_ticker 0 (Started (clock ?s1)) ?s1"
  obtain w1 where w1: "advance_to 4000000 (inner sample_wheel) = ([sample_repeating], w1)"
    by (rule sample_advance)
  have "reachable ?s1"
    by (rule reachable_step [OF sample_idle_reachable], rule Clock)
      (simp_all add: sample_idle_def shared_new_def in_range_def sample_wheel_facts)
  then have "reachable ?s2"
    by (rule reachable_step) (rule Tick_read, simp add: sample_idle_def shared_new_def)
  then have "reachable (set_ticker 0 (if [sample_repeating] = [] then Idle else Expired [sample_repeating])
      (with_wheel w1 ?s2))"
    by (rule reachable_step)
      (rule Tick_advance [where now = 4000000], simp_all add: sample_idle_def shared_new_def w1)
  moreover have "set_ticker 0 (if [sample_repeating] = [] then Idle else Expired [sample_repeating])
      (with_wheel w1 ?s2) = sample_expired"
    by (rule shared_wheel.equality)
      (simp_all add: sample_expired_def w1 with_wheel_def set_ticker_def sample_idle_def shared_new_def)
  ultimately show ?thesis by simp
qed

theorem never_early_witness:
  "\<exists>s. reachable s \<and> (sample_repeating, 4000000) \<in> set (fired s)
     \<and> due_tick sample_repeating \<le> tick_of (the_wheel s) 4000000"
proof -
  let ?s1 = "set_ticker 0 (Firing [sample_repeating] [])
    (with_wheel (mark_in_flight [sample_repeating] (the_wheel sample_expired)) sample_expired)"
  have "reachable ?s1"
    by (rule reachable_step [OF sample_expired_reachable], rule Tick_mark)
      (simp add: sample_expired_def)
  moreover have "tickers ?s1 0 = Firing [sample_repeating] []"
    by simp
  ultimately have "reachable (set_ticker 0 (Firing [] (if is_repeating sample_repeating
      then [] @ [sample_repeating] else [])) (?s1\<lparr>fired := fired ?s1 @ log_entry sample_repeating (clock ?s1)\<rparr>))"
    using reachable_step Tick_fire by blast
  moreover have "(sample_repeating, 4000000) \<in> set (log_entry sample_repeating (clock ?s1))"
    by (simp add: log_entry_def sample_repeating_def sample_expired_def)
  ultimately show ?thesis
    using never_early by (intro exI conjI) (assumption, simp_all, fastforce)
qed


text \<open>C12: once \<open>cancel\<close> has returned true the timer is never pending again, whatever the
  threads do then; and unless a tick held it already, its callback never runs again.\<close>

theorem cancel_is_final:
  assumes "reachable s" and "cancel i (shared s) = (True, tw)"
    and "wheel_step\<^sup>*\<^sup>* (s\<lparr>shared := tw\<rparr>) s'"
  shows "i \<notin> live (the_wheel s')
    \<and> ((\<forall>k. i \<notin> owned_ids (tickers s k)) \<longrightarrow> firings i s' = firings i s)"
proof -
  note inv = reachable_inv [OF assms(1)]
  note inv' = cancel_step [OF inv assms(2)] and can = cancelled_dying [OF inv assms(2)]
  have "i \<notin> live (the_wheel s')"
    using after_dying [OF assms(3) inv' can(1)] by (simp add: dying_def)
  moreover have "firings i s' = firings i s" if "\<forall>k. i \<notin> owned_ids (tickers s k)"
    using after_dead [OF assms(3) inv' can(2) [OF that]] by (simp add: firings_def)
  ultimately show ?thesis
    by blast
qed

theorem cancel_is_final_witness:
  "1 \<notin> live (the_wheel (sample_idle\<lparr>shared := snd (cancel 1 sample_wheel), clock := 9000000\<rparr>))
     \<and> firings 1 (sample_idle\<lparr>shared := snd (cancel 1 sample_wheel), clock := 9000000\<rparr>) = []"
proof -
  let ?s = "sample_idle\<lparr>shared := snd (cancel 1 sample_wheel)\<rparr>"
  have live: "1 \<in> live (inner sample_wheel)"
    by (simp add: live_def sample_wheel_facts)
  note can = cancel_spec [OF sample_wheel_facts(1) prod.collapse [symmetric], of 1]
  have run: "cancel 1 (shared sample_idle) = (True, snd (cancel 1 sample_wheel))"
    using can live by (cases "cancel 1 sample_wheel") (simp add: sample_idle_def)
  have "wheel_step ?s (?s\<lparr>clock := 9000000\<rparr>)"
    using can by (intro Clock) (simp_all add: sample_idle_def shared_new_def in_range_def sample_wheel_facts)
  then have "wheel_step\<^sup>*\<^sup>* ?s (?s\<lparr>clock := 9000000\<rparr>)"
    by (rule r_into_rtranclp)
  from cancel_is_final [OF sample_idle_reachable run this] show ?thesis
    by (simp add: sample_idle_def shared_new_def owned_ids_def firings_def)
qed



lemma fire_all:
  "tickers s k = Firing es rs \<Longrightarrow> \<exists>s'. wheel_step\<^sup>*\<^sup>* s s' \<and> shared s' = shared s \<and> clock s' = clock s
     \<and> tickers s' k = Firing [] (rs @ filter is_repeating es)"
proof (induction es arbitrary: s rs)
  case Nil
  then show ?case by (intro exI [of _ s]) simp
next
  case (Cons e es)
  let ?s = "set_ticker k (Firing es (if is_repeating e then rs @ [e] else rs))
      (s\<lparr>fired := fired s @ log_entry e (clock s)\<rparr>)"
  obtain s' where "wheel_step\<^sup>*\<^sup>* ?s s'" "shared s' = shared ?s" "clock s' = clock ?s"
    "tickers s' k = Firing [] ((if is_repeating e then rs @ [e] else rs) @ filter is_repeating es)"
    using Cons.IH [of ?s] by auto
  moreover have "wheel_step\<^sup>*\<^sup>* s s'"
    using Tick_fire [OF Cons.prems] \<open>wheel_step\<^sup>*\<^sup>* ?s s'\<close> by (rule converse_rtranclp_into_rtranclp)
  ultimately show ?case
    by (intro exI [of _ s']) simp
qed

text \<open>Between taking a repeating timer out of the wheel and marking it as in flight, a tick
  leaves the lock open: a \<open>cancel\<close> in that gap returns false, and the tick then puts the timer
  back, so that it keeps firing.\<close>

theorem cancel_in_gap_lost:
  assumes "reachable s" and "tickers s k = Expired ex" and "e \<in> set ex" and "is_repeating e"
    and "\<forall>e \<in> set ex. tick_of (the_wheel s) (clock s) + interval_ticks e < 2 ^ 64"
  shows "\<exists>tw s'. cancel (entry_id e) (shared s) = (False, tw)
    \<and> wheel_step\<^sup>*\<^sup>* (s\<lparr>shared := tw\<rparr>) s' \<and> entry_id e \<in> live (the_wheel s')"
proof -
  let ?i = "entry_id e"
  note inv = reachable_inv [OF assms(1)]
  have own: "?i \<in> owned_ids (tickers s k)"
    using assms(2,3) by (simp add: owned_ids_def)
  have "?i \<notin> live (the_wheel s)"
    using held_not_live [OF inv] own by blast
  moreover have flight: "?i \<notin> in_flight (the_wheel s)"
    using flying_split [OF inv, of k] others_flying_disjoint [OF inv, of k] own assms(2) by auto
  ultimately have can: "cancel ?i (shared s) = (False, shared s)"
    by (simp add: cancel_def cancel_inner_def live_def lookup_def domIff)
  let ?s1 = "set_ticker k (Firing ex []) (with_wheel (mark_in_flight ex (the_wheel s)) s)"
  note inv1 = race_inv_mark [OF inv assms(2)]
  obtain s2 where s2: "wheel_step\<^sup>*\<^sup>* ?s1 s2" "shared s2 = shared ?s1" "clock s2 = clock s"
    "tickers s2 k = Firing [] (filter is_repeating ex)"
    using fire_all [of ?s1 k ex "[]"] by auto
  note inv2 = after_inv [OF s2(1) inv1]
  have tick: "instant_to_tick (the_wheel s2) = instant_to_tick (the_wheel s)"
    by (rule tick_of_start) (simp add: s2 mark_in_flight_def)
  have room: "\<forall>e \<in> set (filter is_repeating ex).
      tick_of (the_wheel s2) (clock s2) + interval_ticks e < 2 ^ 64"
    using assms(5) by (simp add: tick s2(3))
  let ?w = "reschedule (clock s2) (filter is_repeating ex) (the_wheel s2)"
  have "?i \<notin> canceled_in_flight (the_wheel s)"
    using inv flight by (auto simp: race_inv_def service_inv_def ids_inv_def)
  then have "?i \<notin> canceled_in_flight (the_wheel s2)"
    by (simp add: s2 mark_in_flight_def)
  moreover have "e \<in> set (filter is_repeating ex)"
    using assms(3,4) by simp
  ultimately have "?i \<in> live ?w"
    using race_inv_finish(2) [OF inv2 s2(4) room] unfolding put_back_def live_def by auto
  moreover have "wheel_step s2 (set_ticker k Idle (with_wheel ?w s2))"
    by (rule Tick_finish [OF s2(4) room])
  then have "wheel_step\<^sup>*\<^sup>* s (set_ticker k Idle (with_wheel ?w s2))"
    using Tick_mark [OF assms(2)] s2(1)
    by (meson converse_rtranclp_into_rtranclp rtranclp.rtrancl_into_rtrancl)
  ultimately show ?thesis
    using can by (intro exI [of _ "shared s"] exI [of _ "set_ticker k Idle (with_wheel ?w s2)"]) simp
qed


theorem cancel_in_gap_lost_witness:
  "\<exists>tw s'. cancel 2 (shared sample_expired) = (False, tw)
     \<and> wheel_step\<^sup>*\<^sup>* (sample_expired\<lparr>shared := tw\<rparr>) s' \<and> 2 \<in> live (the_wheel s')"
proof -
  obtain w1 where w1: "advance_to 4000000 (inner sample_wheel) = ([sample_repeating], w1)" "start_time w1 = 0"
    by (rule sample_advance)
  have "tickers sample_expired 0 = Expired [sample_repeating]"
    by (simp add: sample_expired_def)
  moreover have "tick_of (the_wheel sample_expired) (clock sample_expired) + interval_ticks sample_repeating < 2 ^ 64"
    by (simp add: sample_expired_def w1 instant_to_tick_def as_millis_u64_def interval_ticks_def
        sample_repeating_def)
  ultimately show ?thesis
    using cancel_in_gap_lost [OF sample_expired_reachable, of 0 "[sample_repeating]" sample_repeating]
    by (simp add: is_repeating_def) (simp add: sample_repeating_def)
qed

subsection \<open>At the limits\<close>

text \<open>A delay so long that the tick count passes \<open>2\<^sup>64\<close> gives, in wrapping arithmetic, a
  timer whose deadline is already past when it is scheduled.\<close>

theorem long_delay_wraps:
  assumes "2 ^ 64 \<le> tick_of (inner tw) now + unat (as_millis_u64 delay)"
    and "schedule_once delay cb now tw = (i, tw')"
  shows "\<exists>e. lookup (inner tw') i = Some e \<and> due_tick e < tick_of (inner tw) now"
proof -
  let ?t = "instant_to_tick (inner tw) now" and ?d = "as_millis_u64 delay"
  have "unat (?t + ?d) = (unat ?t + unat ?d) mod 2 ^ 64"
    by (simp add: unat_word_ariths)
  also have "\<dots> = unat ?t + unat ?d - 2 ^ 64"
  proof -
    have "unat ?t + unat ?d - 2 ^ 64 < 2 ^ 64"
      using unat_u64_bound [of ?t] unat_u64_bound [of ?d] by linarith
    then show ?thesis
      using le_mod_geq [OF assms(1)] by (simp only: mod_less)
  qed
  finally have "unat (?t + ?d) < unat ?t"
    using assms(1) unat_u64_bound [of ?d] by linarith
  moreover have "i = next_id tw" "tw' = snd (add_timer delay (Once (Some cb)) now tw)"
    using assms(2) by (auto simp: schedule_add_timer add_timer_def)
  ultimately show ?thesis
    by (simp add: add_timer_lookup due_tick_def)
qed

theorem long_delay_wraps_witness:
  "\<exists>e. lookup (inner (snd (schedule_once (from_millis (- 1)) (7 :: nat) 2000000
     (timer_wheel_new 0)))) 1 = Some e \<and> due_tick e < 2"
proof -
  let ?tw = "timer_wheel_new 0 :: nat timer_wheel"
  let ?r = "schedule_once (from_millis (- 1)) 7 2000000 ?tw"
  have now: "tick_of (inner ?tw) 2000000 = 2"
    by (simp add: sample_new as_millis_u64_def)
  have "as_millis_u64 (from_millis (- 1)) = - 1"
    by (simp add: as_millis_u64_def from_millis_def)
  then have wraps: "2 ^ 64 \<le> tick_of (inner ?tw) 2000000 + unat (as_millis_u64 (from_millis (- 1)))"
    unfolding now by (simp add: unsigned_minus_1_eq_mask mask_eq_exp_minus_1)
  have "?r = (1, snd ?r)"
    by (simp add: schedule_add_timer add_timer_def sample_new)
  from long_delay_wraps [OF wraps this] show ?thesis
    unfolding now .
qed

text \<open>A timer whose deadline is the clock's tick is not fired by an advance that does not
  jump, although the time until the next timer is then zero: a caller that sleeps for that
  time polls again at once until the next millisecond.\<close>

theorem due_tick_busy:
  assumes "wheel_inv w" and "lookup w i = Some e" and "due_tick e = tick_of w now"
    and "tick_of w now \<le> cursor w + 67108864" and "advance_to now w = (ex, w')"
  shows "e \<notin> set ex \<and> lookup w' i = Some e \<and> fst (time_until_next now w') = Some 0"
proof -
  note spec = advance_to_spec [OF assms(1,5)]
  have "\<not> due_at (cursor w) (tick_of w now) (due_tick e)"
    using assms(3,4) by (simp add: due_at_def)
  then have e: "e \<notin> set ex" "lookup w' i = Some e"
    using spec assms(2) by auto
  have tick: "instant_to_tick w' = instant_to_tick w"
    using advance_to_frame(1) [OF assms(5,1)] by (rule tick_of_start)
  have "due_tick e \<in> deadlines w'"
    using e(2) by (auto simp: deadlines_def)
  then have "Min (deadlines w') \<le> tick_of w' now"
    using finite_deadlines [of w'] assms(3) by (auto simp: tick intro: Min_le)
  moreover have "live w' \<noteq> {}"
    using e(2) by (auto simp: live_def)
  moreover have "wheel_inv w'"
    using spec by simp
  ultimately have "fst (time_until_next now w') = Some 0"
    using time_until_next_spec [OF _ prod.collapse [symmetric], of w' now] by simp
  with e show ?thesis
    by simp
qed

theorem due_tick_busy_witness:
  "fst (time_until_next 3000000 (snd (advance_to 3000000 (inner sample_wheel)))) = Some 0"
  using due_tick_busy [OF sample_inv _ _ _ prod.collapse [symmetric], of 2 sample_repeating 3000000]
  by (simp add: sample_lookup sample_due sample_tick as_millis_u64_def sample_wheel_facts)

end
