(* ===== verification/Thread_Pool.thy ===== *)
theory Thread_Pool
  imports Prelude "HOL-Library.Multiset"
begin

section \<open>The I/O thread pool\<close>

text \<open>
  \<open>ThreadPool\<close> of \<^verbatim>\<open>mill-io/src/thread_pool.rs\<close>: one channel per worker, tasks dealt out in
  turn. A task is a value of the type \<open>'t\<close>; \<open>panics\<close> tells which tasks panic, since task
  bodies are user code. A worker is its inbox, the tasks it has run, and how its thread
  stands. A send fails when the worker's receiver is gone.
\<close>

subsection \<open>Workers\<close>

datatype 't worker_message = Task 't | Terminate

datatype worker_state = Running | Exited | Panicked

record 't worker =
  worker_id :: nat
  inbox :: "'t worker_message list"
  ran :: "'t list"
  thread :: worker_state

definition worker_new :: "nat \<Rightarrow> 't worker" where
  "worker_new i = \<lparr>worker_id = i, inbox = [], ran = [], thread = Running\<rparr>"

text \<open>Delivering to a worker: the channel reports an error once the receiver is dropped.\<close>

definition channel_send :: "'t worker_message \<Rightarrow> 't worker \<Rightarrow> 't worker option" where
  "channel_send m w = (if thread w = Running then Some (w\<lparr>inbox := inbox w @ [m]\<rparr>) else None)"

text \<open>The thread's loop, run until it blocks on an empty inbox or ends. A panicking task ends
  the thread; the rest of the inbox is dropped with the receiver.\<close>

fun worker_loop :: "('t \<Rightarrow> bool) \<Rightarrow> 't worker_message list \<Rightarrow> 't list \<Rightarrow> 't list \<times> worker_state" where
  "worker_loop panics [] completed = (completed, Running)"
| "worker_loop panics (Terminate # ms) completed = (completed, Exited)"
| "worker_loop panics (Task t # ms) completed =
     (if panics t then (completed @ [t], Panicked) else worker_loop panics ms (completed @ [t]))"

definition worker_run :: "('t \<Rightarrow> bool) \<Rightarrow> 't worker \<Rightarrow> 't worker" where
  "worker_run panics w =
     (if thread w = Running then
        let (completed, st) = worker_loop panics (inbox w) (ran w)
        in w\<lparr>inbox := [], ran := completed, thread := st\<rparr>
      else w)"

subsection \<open>The pool\<close>

record 't thread_pool =
  workers :: "'t worker list"
  next_worker :: usize

definition thread_pool_new :: "nat \<Rightarrow> 't thread_pool" where
  "thread_pool_new capacity = \<lparr>workers = map worker_new [0..<capacity], next_worker = 0\<rparr>"

definition DEFAULT_POOL_CAPACITY :: nat where
  "DEFAULT_POOL_CAPACITY = 4"

text \<open>What \<open>std::thread::available_parallelism\<close> reports, or \<open>None\<close> for its failure.\<close>

definition default_capacity :: "nat option \<Rightarrow> nat" where
  "default_capacity available = (case available of Some n \<Rightarrow> n | None \<Rightarrow> DEFAULT_POOL_CAPACITY)"

definition thread_pool_default :: "nat option \<Rightarrow> 't thread_pool" where
  "thread_pool_default available = thread_pool_new (default_capacity available)"

text \<open>\<open>senders\<close> has one element per worker, so its length is that of \<open>workers\<close>.\<close>

definition exec :: "'t \<Rightarrow> 't thread_pool \<Rightarrow> unit outcome \<times> 't thread_pool" where
  "exec task pool =
     (let n = next_worker pool; pool = pool\<lparr>next_worker := n + 1\<rparr> in
      if workers pool = [] then
        (Panic ''attempt to calculate the remainder with a divisor of zero'', pool)
      else
        let index = unat n mod length (workers pool) in
        case channel_send (Task task) (workers pool ! index) of
          None \<Rightarrow> (Err ''sending on a closed channel'', pool)
        | Some w \<Rightarrow> (Ok (), pool\<lparr>workers := (workers pool)[index := w]\<rparr>))"

definition workers_len :: "'t thread_pool \<Rightarrow> nat" where
  "workers_len pool = length (workers pool)"

definition run_workers :: "('t \<Rightarrow> bool) \<Rightarrow> 't thread_pool \<Rightarrow> 't thread_pool" where
  "run_workers panics pool = pool\<lparr>workers := map (worker_run panics) (workers pool)\<rparr>"

text \<open>Dropping the pool: \<open>Terminate\<close> to every worker, then \<open>join().unwrap()\<close> on each thread,
  which panics on a thread that panicked.\<close>

definition terminate :: "'t worker \<Rightarrow> 't worker" where
  "terminate w = (case channel_send Terminate w of None \<Rightarrow> w | Some w \<Rightarrow> w)"

definition thread_pool_drop :: "('t \<Rightarrow> bool) \<Rightarrow> 't thread_pool \<Rightarrow> unit outcome \<times> 't thread_pool" where
  "thread_pool_drop panics pool =
     (let pool = run_workers panics (pool\<lparr>workers := map terminate (workers pool)\<rparr>)
      in (if \<exists>w \<in> set (workers pool). thread w = Panicked
          then Panic ''called `Result::unwrap()` on an `Err` value'' else Ok (), pool))"

fun exec_all :: "'t list \<Rightarrow> 't thread_pool \<Rightarrow> unit outcome list \<times> 't thread_pool" where
  "exec_all [] pool = ([], pool)"
| "exec_all (t # ts) pool =
     (let (r, pool) = exec t pool; (rs, pool) = exec_all ts pool in (r # rs, pool))"

subsection \<open>Dealing out tasks\<close>

text \<open>The tasks of a list that worker \<open>k\<close> of \<open>n\<close> gets when the counter stands at \<open>c\<close>.\<close>

fun dealt :: "nat \<Rightarrow> nat \<Rightarrow> nat \<Rightarrow> 't list \<Rightarrow> 't list" where
  "dealt n c k [] = []"
| "dealt n c k (t # ts) = (if c mod n = k then t # dealt n (Suc c) k ts else dealt n (Suc c) k ts)"

definition all_running :: "'t thread_pool \<Rightarrow> bool" where
  "all_running pool \<longleftrightarrow> (\<forall>w \<in> set (workers pool). thread w = Running)"

lemma exec_running:
  assumes "workers pool \<noteq> []" and "all_running pool"
  defines "k \<equiv> unat (next_worker pool) mod length (workers pool)"
  shows "exec t pool = (Ok (), pool\<lparr>next_worker := next_worker pool + 1,
    workers := (workers pool)[k := (workers pool ! k)\<lparr>inbox := inbox (workers pool ! k) @ [Task t]\<rparr>]\<rparr>)"
proof -
  have "k < length (workers pool)"
    using assms(1) by (simp add: k_def)
  then have "thread (workers pool ! k) = Running"
    using assms(2) by (simp add: all_running_def)
  then show ?thesis
    using assms(1) by (simp add: exec_def channel_send_def k_def Let_def)
qed

lemma all_running_update:
  "all_running pool \<Longrightarrow> thread w = Running \<Longrightarrow>
     all_running (pool\<lparr>next_worker := c, workers := (workers pool)[k := w]\<rparr>)"
  using set_update_subset_insert [of "workers pool" k w] by (auto simp: all_running_def)

lemma exec_all_running:
  "workers pool \<noteq> [] \<Longrightarrow> all_running pool \<Longrightarrow> unat (next_worker pool) + length ts < 2 ^ 64 \<Longrightarrow>
   exec_all ts pool = (rs, pool') \<Longrightarrow>
     rs = replicate (length ts) (Ok ()) \<and> all_running pool'
     \<and> length (workers pool') = length (workers pool)
     \<and> (\<forall>k < length (workers pool). inbox (workers pool' ! k) = inbox (workers pool ! k)
          @ map Task (dealt (length (workers pool)) (unat (next_worker pool)) k ts)
        \<and> ran (workers pool' ! k) = ran (workers pool ! k))"
proof (induction ts arbitrary: pool rs)
  case Nil
  then show ?case by simp
next
  case (Cons t ts)
  let ?n = "length (workers pool)" and ?c = "unat (next_worker pool)"
  let ?k = "?c mod ?n"
  let ?w = "(workers pool ! ?k)\<lparr>inbox := inbox (workers pool ! ?k) @ [Task t]\<rparr>"
  let ?pool = "pool\<lparr>next_worker := next_worker pool + 1, workers := (workers pool)[?k := ?w]\<rparr>"
  have k: "?k < ?n"
    using Cons.prems(1) by simp
  obtain rs' where rest: "exec_all ts ?pool = (rs', pool')" "rs = Ok () # rs'"
    using Cons.prems exec_running [OF Cons.prems(1,2), of t]
    by (auto simp: Let_def split: prod.splits)
  have c: "unat (next_worker pool + 1) = Suc ?c"
    using Cons.prems(3) unat_add_no_wrap [of "next_worker pool" 1] by simp
  have "thread ?w = Running"
    using Cons.prems(2) k by (simp add: all_running_def)
  then have "all_running ?pool"
    by (intro all_running_update Cons.prems(2))
  then have "rs' = replicate (length ts) (Ok ()) \<and> all_running pool'
      \<and> length (workers pool') = length (workers ?pool)
      \<and> (\<forall>j < length (workers ?pool). inbox (workers pool' ! j) = inbox (workers ?pool ! j)
          @ map Task (dealt (length (workers ?pool)) (unat (next_worker ?pool)) j ts)
        \<and> ran (workers pool' ! j) = ran (workers ?pool ! j))"
    using Cons.prems(1,3) c rest(1) by (intro Cons.IH) auto
  with rest(2) c k show ?case
    by (auto simp: nth_list_update)
qed

text \<open>Nothing is lost or duplicated by the dealing.\<close>

lemma dealt_mset:
  assumes "0 < n"
  shows "(\<Sum>k < n. mset (dealt n c k ts)) = mset ts"
proof (induction ts arbitrary: c)
  case Nil
  then show ?case by simp
next
  case (Cons t ts)
  have "(\<Sum>k < n. mset (dealt n c k (t # ts)))
      = (\<Sum>k < n. (if k = c mod n then {#t#} else {#}) + mset (dealt n (Suc c) k ts))"
    by (intro sum.cong) auto
  also have "\<dots> = (\<Sum>k < n. if k = c mod n then {#t#} else {#}) + mset ts"
    by (simp add: sum.distrib Cons.IH)
  also have "(\<Sum>k < n. if k = c mod n then {#t#} else {#}) = {#t#}"
    using assms by simp
  finally show ?case by simp
qed

lemma worker_loop_tasks:
  "\<forall>t \<in> set ts. \<not> panics t \<Longrightarrow>
     worker_loop panics (map Task ts @ ms) completed = worker_loop panics ms (completed @ ts)"
  by (induction ts arbitrary: completed) auto


text \<open>Which sends fail: those that meet a worker whose thread has ended.\<close>

definition send_result :: "'t thread_pool \<Rightarrow> nat \<Rightarrow> unit outcome" where
  "send_result pool c = (if thread (workers pool ! (c mod length (workers pool))) = Running
     then Ok () else Err ''sending on a closed channel'')"

lemma exec_threads:
  assumes "workers pool \<noteq> []" and "exec t pool = (r, pool')"
  shows "r = send_result pool (unat (next_worker pool))" and "next_worker pool' = next_worker pool + 1"
    and "map thread (workers pool') = map thread (workers pool)"
proof -
  let ?k = "unat (next_worker pool) mod length (workers pool)"
  have k: "?k < length (workers pool)"
    using assms(1) by simp
  show "r = send_result pool (unat (next_worker pool))" "next_worker pool' = next_worker pool + 1"
    using assms by (auto simp: exec_def channel_send_def send_result_def Let_def split: if_splits)
  have "map thread ((workers pool)[?k := w]) = map thread (workers pool)"
    if "thread w = thread (workers pool ! ?k)" for w
    using that k by (metis list_update_id map_update nth_map)
  then show "map thread (workers pool') = map thread (workers pool)"
    using assms by (auto simp: exec_def channel_send_def Let_def split: if_splits)
qed

lemma send_result_threads:
  assumes "map thread (workers pool') = map thread (workers pool)" and "workers pool \<noteq> []"
  shows "send_result pool' = send_result pool"
proof -
  have len: "length (workers pool') = length (workers pool)"
    using assms(1) by (metis length_map)
  have "thread (workers pool' ! k) = thread (workers pool ! k)" if "k < length (workers pool)" for k
    using that len assms(1) by (metis nth_map)
  with assms(2) show ?thesis
    by (simp add: send_result_def fun_eq_iff len)
qed

lemma exec_all_threads:
  "workers pool \<noteq> [] \<Longrightarrow> unat (next_worker pool) + length ts < 2 ^ 64 \<Longrightarrow>
   exec_all ts pool = (rs, pool') \<Longrightarrow> length rs = length ts
     \<and> (\<forall>i < length ts. rs ! i = send_result pool (unat (next_worker pool) + i))
     \<and> map thread (workers pool') = map thread (workers pool)"
proof (induction ts arbitrary: pool rs)
  case Nil
  then show ?case by simp
next
  case (Cons t ts)
  obtain r pool1 where one: "exec t pool = (r, pool1)" by fastforce
  obtain rs' where rest: "exec_all ts pool1 = (rs', pool')" "rs = r # rs'"
    using Cons.prems(3) one by (auto simp: Let_def split: prod.splits)
  note step = exec_threads [OF Cons.prems(1) one]
  have ne: "workers pool1 \<noteq> []"
    using step(3) Cons.prems(1) by (metis map_is_Nil_conv)
  have c: "unat (next_worker pool1) = Suc (unat (next_worker pool))"
    using Cons.prems(2) unat_add_no_wrap [of "next_worker pool" 1] by (simp add: step(2))
  have "length rs' = length ts \<and> (\<forall>i < length ts. rs' ! i = send_result pool1 (unat (next_worker pool1) + i))
      \<and> map thread (workers pool') = map thread (workers pool1)"
    using Cons.prems(2) c by (intro Cons.IH [OF ne _ rest(1)]) simp
  then show ?case
    using step rest(2) send_result_threads [OF step(3) Cons.prems(1)]
    by (auto simp: c [unfolded step(2)] nth_Cons split: nat.splits)
qed

lemma thread_pool_new_facts:
  "length (workers (thread_pool_new n)) = n" "all_running (thread_pool_new n)"
  "k < n \<Longrightarrow> workers (thread_pool_new n) ! k = worker_new k" "next_worker (thread_pool_new n) = 0"
  by (auto simp: thread_pool_new_def all_running_def worker_new_def)

subsection \<open>Properties\<close>

text \<open>C13: a pool of \<open>n\<close> workers deals tasks out in turn: every send succeeds, and the worker
  \<open>k\<close> finds in its inbox, in the order they were submitted, exactly the tasks whose position is
  \<open>k\<close> modulo \<open>n\<close>.\<close>

theorem round_robin:
  assumes "0 < n" and "length ts < 2 ^ 64" and "exec_all ts (thread_pool_new n) = (rs, pool)"
  shows "rs = replicate (length ts) (Ok ())
    \<and> (\<forall>k < n. inbox (workers pool ! k) = map Task (dealt n 0 k ts))"
proof -
  let ?p = "thread_pool_new n"
  have "workers ?p \<noteq> []" "unat (next_worker ?p) + length ts < 2 ^ 64"
    using assms(1,2) by (simp_all add: thread_pool_new_def)
  from exec_all_running [OF this(1) thread_pool_new_facts(2) this(2) assms(3)] show ?thesis
    by (simp add: thread_pool_new_facts worker_new_def)
qed

theorem round_robin_witness:
  "map inbox (workers (snd (exec_all [10, 11, 12, 13, 14 :: nat] (thread_pool_new 2))))
     = [[Task 10, Task 12, Task 14], [Task 11, Task 13]]"
proof -
  let ?r = "exec_all [10, 11, 12, 13, 14 :: nat] (thread_pool_new 2)"
  have "length (workers (snd ?r)) = 2"
    using exec_all_running [of "thread_pool_new 2 :: nat thread_pool" "[10, 11, 12, 13, 14]" "fst ?r" "snd ?r"]
    by (simp add: thread_pool_new_def all_running_def worker_new_def)
  moreover have "\<forall>k < 2. inbox (workers (snd ?r) ! k) = map Task (dealt 2 0 k [10, 11, 12, 13, 14])"
    using round_robin [of 2 "[10, 11, 12, 13, 14 :: nat]" "fst ?r" "snd ?r"] by simp
  ultimately show ?thesis
    by (intro nth_equalityI) (auto simp: less_2_cases_iff)
qed



text \<open>A task that panics takes its worker with it. From then on every \<open>n\<close>-th submission of
  a pool of \<open>n\<close> workers fails, the others succeed, and dropping the pool panics.\<close>

theorem panic_poisons_pool:
  assumes "0 < n" and "panics t" and "length ts + 1 < 2 ^ 64"
    and "exec t (thread_pool_new n) = (r0, pool0)"
    and "exec_all ts (run_workers panics pool0) = (rs, pool)"
  shows "r0 = Ok () \<and> length rs = length ts
    \<and> (\<forall>i < length ts. rs ! i = (if (i + 1) mod n = 0 then Err ''sending on a closed channel'' else Ok ()))
    \<and> (\<exists>msg. fst (thread_pool_drop panics pool) = Panic msg)"
proof -
  let ?p = "thread_pool_new n :: 'a thread_pool"
  let ?pool1 = "run_workers panics pool0"
  have ne: "workers ?p \<noteq> []"
    using assms(1) by (simp add: thread_pool_new_def)
  have first: "r0 = Ok ()" "pool0 = ?p\<lparr>next_worker := 1, workers := (workers ?p)
      [0 := (worker_new 0)\<lparr>inbox := [Task t]\<rparr>]\<rparr>"
    using assms(1,4) exec_running [OF ne thread_pool_new_facts(2), of t]
    by (simp_all add: thread_pool_new_facts worker_new_def)
  have len: "length (workers ?pool1) = n" and counter: "next_worker ?pool1 = 1"
    by (simp_all add: run_workers_def first thread_pool_new_facts)
  have threads: "thread (workers ?pool1 ! k) = (if k = 0 then Panicked else Running)" if "k < n" for k
    using that assms(2)
    by (simp add: run_workers_def first thread_pool_new_facts nth_list_update worker_run_def worker_new_def)
  have ne1: "workers ?pool1 \<noteq> []"
    using len assms(1) by auto
  have all: "length rs = length ts" "\<forall>i < length ts. rs ! i = send_result ?pool1 (1 + i)"
    "map thread (workers pool) = map thread (workers ?pool1)"
    using exec_all_threads [OF ne1 _ assms(5)] assms(3) by (simp_all add: counter)
  have "send_result ?pool1 (1 + i) = (if (i + 1) mod n = 0 then Err ''sending on a closed channel'' else Ok ())" for i
    using threads [of "(1 + i) mod n"] assms(1) by (simp add: send_result_def len)
  moreover have "\<exists>msg. fst (thread_pool_drop panics pool) = Panic msg"
  proof -
    have "Panicked \<in> set (map thread (workers pool))"
      using all(3) threads [of 0] assms(1) len by (metis length_map nth_map nth_mem)
    then obtain w where w: "w \<in> set (workers pool)" "thread w = Panicked"
      by auto
    then have "worker_run panics (terminate w) = w"
      by (simp add: terminate_def channel_send_def worker_run_def)
    with w have "\<exists>v \<in> set (map (worker_run panics) (map terminate (workers pool))). thread v = Panicked"
      by force
    then show ?thesis
      by (simp add: thread_pool_drop_def run_workers_def Let_def)
  qed
  ultimately show ?thesis
    using first(1) all by simp
qed

theorem panic_poisons_pool_witness:
  "fst (exec_all [1, 2, 3 :: nat] (run_workers (\<lambda>t. t = 0) (snd (exec 0 (thread_pool_new 2)))))
     = [Ok (), Err ''sending on a closed channel'', Ok ()]"
proof -
  let ?r = "exec_all [1, 2, 3 :: nat] (run_workers (\<lambda>t. t = 0) (snd (exec 0 (thread_pool_new 2))))"
  have "length (fst ?r) = 3 \<and> (\<forall>i < 3. fst ?r ! i
      = (if (i + 1) mod 2 = 0 then Err ''sending on a closed channel'' else Ok ()))"
    using panic_poisons_pool [OF _ _ _ prod.collapse [symmetric] prod.collapse [symmetric],
        of 2 "\<lambda>t. t = 0" 0 "[1, 2, 3 :: nat]"] by simp
  then show ?thesis
    by (intro nth_equalityI) (auto simp: less_Suc_eq numeral_3_eq_3)
qed

end
