(* ===== verification/Compute_Pool.thy ===== *)
theory Compute_Pool
  imports Thread_Pool "HOL-Library.Multiset"
begin

section \<open>The compute pool\<close>

text \<open>
  \<open>ComputeThreadPool\<close> of \<^verbatim>\<open>mill-io/src/thread_pool.rs\<close>: tasks with a priority in one
  shared heap, workers that take the greatest, and metrics. First the order of tasks and the
  heap, then the pool as a step relation over the workers' phases, with the lock and the
  condition variable.
\<close>

subsection \<open>Priorities and the order of tasks\<close>

datatype task_priority = Low | Normal | High | Critical

fun priority_level :: "task_priority \<Rightarrow> nat" where
  "priority_level Low = 0"
| "priority_level Normal = 1"
| "priority_level High = 2"
| "priority_level Critical = 3"

lemma priority_level_inj: "priority_level p = priority_level q \<Longrightarrow> p = q"
  by (cases p; cases q) auto

instantiation task_priority :: linorder
begin

definition less_eq_task_priority :: "task_priority \<Rightarrow> task_priority \<Rightarrow> bool" where
  "less_eq_task_priority p q \<longleftrightarrow> priority_level p \<le> priority_level q"

definition less_task_priority :: "task_priority \<Rightarrow> task_priority \<Rightarrow> bool" where
  "less_task_priority p q \<longleftrightarrow> priority_level p < priority_level q"

instance
  by standard (auto simp: less_eq_task_priority_def less_task_priority_def priority_level_inj)

end

datatype cmp_ordering = Less | Equal | Greater

definition compare :: "'a :: linorder \<Rightarrow> 'a \<Rightarrow> cmp_ordering" where
  "compare x y = (if x < y then Less else if x = y then Equal else Greater)"

record 't priority_task =
  task :: 't
  priority :: task_priority
  sequence :: u64

definition task_eq :: "'t priority_task \<Rightarrow> 't priority_task \<Rightarrow> bool" where
  "task_eq a b \<longleftrightarrow> priority a = priority b \<and> sequence a = sequence b"

definition task_cmp :: "'t priority_task \<Rightarrow> 't priority_task \<Rightarrow> cmp_ordering" where
  "task_cmp a b = (case compare (priority a) (priority b) of
      Equal \<Rightarrow> compare (sequence b) (sequence a)
    | ord \<Rightarrow> ord)"

text \<open>The position in the running order: higher priority first, then lower sequence number.\<close>

definition rank :: "'t priority_task \<Rightarrow> nat" where
  "rank t = (3 - priority_level (priority t)) * 2 ^ 64 + unat (sequence t)"

lemma level_le_3: "priority_level p \<le> 3"
  by (cases p) auto

lemma two_digits:
  fixes p q x y B :: nat
  assumes "x < B" and "y < B"
  shows "p * B + x < q * B + y \<longleftrightarrow> p < q \<or> p = q \<and> x < y"
    and "p * B + x = q * B + y \<longleftrightarrow> p = q \<and> x = y"
proof -
  consider "p + 1 \<le> q" | "p = q" | "q + 1 \<le> p" by linarith
  then have "(p * B + x < q * B + y \<longleftrightarrow> p < q \<or> p = q \<and> x < y)
      \<and> (p * B + x = q * B + y \<longleftrightarrow> p = q \<and> x = y)"
  proof cases
    case 1
    then have "(p + 1) * B \<le> q * B" by (rule mult_le_mono1)
    with 1 assms show ?thesis by (simp add: add_mult_distrib)
  next
    case 3
    then have "(q + 1) * B \<le> p * B" by (rule mult_le_mono1)
    with 3 assms show ?thesis by (simp add: add_mult_distrib)
  qed simp
  then show "p * B + x < q * B + y \<longleftrightarrow> p < q \<or> p = q \<and> x < y"
    and "p * B + x = q * B + y \<longleftrightarrow> p = q \<and> x = y"
    by blast+
qed

lemma task_cmp_rank:
  "task_cmp a b = (if rank a < rank b then Greater else if rank a = rank b then Equal else Less)"
proof -
  let ?p = "3 - priority_level (priority a)" and ?q = "3 - priority_level (priority b)"
  let ?x = "unat (sequence a)" and ?y = "unat (sequence b)"
  have lex: "(?p * 2 ^ 64 + ?x < ?q * 2 ^ 64 + ?y) = (?p < ?q \<or> ?p = ?q \<and> ?x < ?y)"
    "(?p * 2 ^ 64 + ?x = ?q * 2 ^ 64 + ?y) = (?p = ?q \<and> ?x = ?y)"
    by (rule two_digits [OF unat_u64_bound unat_u64_bound])+
  have prio: "?p < ?q \<longleftrightarrow> priority b < priority a" "?p = ?q \<longleftrightarrow> priority a = priority b"
    using level_le_3 [of "priority a"] level_le_3 [of "priority b"] priority_level_inj
    by (auto simp: less_task_priority_def)
  have seq: "?x < ?y \<longleftrightarrow> sequence a < sequence b" "?x = ?y \<longleftrightarrow> sequence a = sequence b"
    by (simp_all add: word_less_nat_alt word_unat_eq_iff)
  show ?thesis
    unfolding rank_def lex prio seq by (auto simp: task_cmp_def compare_def)
qed

subsection \<open>The heap\<close>

text \<open>\<open>BinaryHeap\<close>: a bag from which \<open>pop\<close> takes a greatest element of \<open>Ord\<close>.\<close>

type_synonym 't heap = "'t priority_task list"

definition heap_push :: "'t priority_task \<Rightarrow> 't heap \<Rightarrow> 't heap" where
  "heap_push x q = q @ [x]"

fun heap_max :: "'t priority_task \<Rightarrow> 't heap \<Rightarrow> 't priority_task" where
  "heap_max m [] = m"
| "heap_max m (x # xs) = heap_max (if task_cmp m x = Less then x else m) xs"

fun heap_pop :: "'t heap \<Rightarrow> ('t priority_task \<times> 't heap) option" where
  "heap_pop [] = None"
| "heap_pop (x # xs) = (let m = heap_max x xs in Some (m, remove1 m (x # xs)))"

lemma heap_max_spec:
  "heap_max m xs \<in> insert m (set xs) \<and> (\<forall>y \<in> insert m (set xs). rank (heap_max m xs) \<le> rank y)"
proof (induction m xs rule: heap_max.induct)
  case (1 m)
  then show ?case by simp
next
  case (2 m x xs)
  then show ?case
    by (auto simp: task_cmp_rank split: if_splits)
qed

text \<open>What the pool needs of its queue: \<open>pop\<close> takes an element of least rank and nothing else.\<close>

locale priority_queue =
  fixes none :: 'q and push :: "'x \<Rightarrow> 'q \<Rightarrow> 'q" and pop :: "'q \<Rightarrow> ('x \<times> 'q) option"
    and elems :: "'q \<Rightarrow> 'x multiset" and rk :: "'x \<Rightarrow> nat"
  assumes elems_none: "elems none = {#}"
    and elems_push: "elems (push x q) = add_mset x (elems q)"
    and pop_None: "pop q = None \<longleftrightarrow> elems q = {#}"
    and pop_Some: "pop q = Some (x, q') \<Longrightarrow>
          elems q = add_mset x (elems q') \<and> (\<forall>y \<in># elems q'. rk x \<le> rk y)"

fun drain :: "nat \<Rightarrow> ('q \<Rightarrow> ('x \<times> 'q) option) \<Rightarrow> 'q \<Rightarrow> 'x list" where
  "drain 0 pop q = []"
| "drain (Suc n) pop q = (case pop q of None \<Rightarrow> [] | Some (x, q') \<Rightarrow> x # drain n pop q')"

context priority_queue
begin

lemma drain_spec:
  "size (elems q) \<le> n \<Longrightarrow> mset (drain n pop q) = elems q \<and> sorted (map rk (drain n pop q))"
proof (induction n arbitrary: q)
  case 0
  then show ?case by simp
next
  case (Suc n)
  show ?case
  proof (cases "pop q")
    case None
    then show ?thesis by (simp add: pop_None [symmetric])
  next
    case (Some r)
    then obtain x q' where q': "pop q = Some (x, q')" by (cases r) auto
    note step = pop_Some [OF q']
    then have "mset (drain n pop q') = elems q' \<and> sorted (map rk (drain n pop q'))"
      using Suc.prems by (intro Suc.IH) simp
    with step q' show ?thesis
      by (auto simp flip: set_mset_mset)
  qed
qed

lemma pushes_elems: "elems (fold push xs q) = mset xs + elems q"
  by (induction xs arbitrary: q) (simp_all add: elems_push)

end

interpretation hp: priority_queue "[]" heap_push heap_pop mset rank
proof (unfold_locales, goal_cases)
  case (3 q)
  then show ?case by (cases q) (simp_all add: Let_def)
next
  case (4 q x q')
  then obtain y ys where q: "q = y # ys" "x = heap_max y ys" "q' = remove1 x q"
    by (cases q) (auto simp: Let_def)
  have "x \<in> set q" "\<forall>z \<in> set q. rank x \<le> rank z"
    using heap_max_spec [of y ys] by (simp_all add: q)
  then show ?case
    by (auto simp: q(3) dest: in_diffD)
qed (simp_all add: heap_push_def)

text \<open>A list in the order of rank is determined by its elements when the ranks differ.\<close>

lemma sorted_rank_unique:
  assumes "mset xs = mset ys" and "sorted (map rank xs)" and "sorted (map rank ys)"
    and "inj_on rank (set ys)"
  shows "xs = ys"
proof -
  have "mset (map rank xs) = mset (map rank ys)"
    using assms(1) by simp
  then have "map rank xs = map rank ys"
    using assms(2,3) by (metis properties_for_sort sorted_sort_id)
  moreover have "set xs = set ys"
    by (rule mset_eq_setD) (rule assms(1))
  ultimately show ?thesis
    using assms(4) by (simp add: inj_on_map_eq_map)
qed


subsection \<open>The pool and its metrics\<close>

record compute_metrics =
  tasks_submitted :: u64
  tasks_completed :: u64
  tasks_failed :: u64
  active_workers :: usize
  queue_depth :: "task_priority \<Rightarrow> usize"
  total_execution_time_ns :: u64

definition compute_metrics_default :: compute_metrics where
  "compute_metrics_default = \<lparr>tasks_submitted = 0, tasks_completed = 0, tasks_failed = 0,
     active_workers = 0, queue_depth = (\<lambda>_. 0), total_execution_time_ns = 0\<rparr>"

text \<open>Where a worker's thread stands: about to take the lock; holding it with the decision to
  wait taken; waiting on the condition variable; with a task taken, running it, and after it
  ran; at its end.\<close>

datatype 't compute_worker =
    Looking
  | Deciding
  | Waiting
  | Taken 't
  | Busy 't
  | Ended 't
  | Gone

record 't compute_pool =
  heap :: "'t heap"
  shutdown :: bool
  woken :: bool
  next_sequence :: u64
  metrics :: compute_metrics
  pending_notify :: nat
  threads :: "'t compute_worker list"

definition compute_pool_new :: "nat \<Rightarrow> 't compute_pool" where
  "compute_pool_new capacity = \<lparr>heap = [], shutdown = False, woken = False, next_sequence = 0,
     metrics = compute_metrics_default, pending_notify = 0, threads = replicate capacity Looking\<rparr>"

definition compute_pool_default :: "nat option \<Rightarrow> 't compute_pool" where
  "compute_pool_default available = compute_pool_new (default_capacity available)"

text \<open>\<open>spawn\<close> up to the notification, and the pop under the lock.\<close>

definition spawn_push :: "'t \<Rightarrow> task_priority \<Rightarrow> 't compute_pool \<Rightarrow> 't compute_pool" where
  "spawn_push t p s =
     (let n = next_sequence s; m = metrics s in
      s\<lparr>next_sequence := n + 1,
        heap := heap_push \<lparr>task = t, priority = p, sequence = n\<rparr> (heap s),
        metrics := m\<lparr>tasks_submitted := tasks_submitted m + 1,
                     queue_depth := (queue_depth m)(p := queue_depth m p + 1)\<rparr>\<rparr>)"

definition take_task :: "'t compute_pool \<Rightarrow> ('t priority_task \<times> 't compute_pool) option" where
  "take_task s = (case heap_pop (heap s) of
      None \<Rightarrow> None
    | Some (pt, rest) \<Rightarrow>
        let m = metrics s; p = priority pt in
        Some (pt, s\<lparr>heap := rest,
          metrics := m\<lparr>queue_depth := (queue_depth m)(p := queue_depth m p - 1)\<rparr>\<rparr>))"

definition begin_task :: "'t compute_pool \<Rightarrow> 't compute_pool" where
  "begin_task s = s\<lparr>metrics := (metrics s)\<lparr>active_workers := active_workers (metrics s) + 1\<rparr>\<rparr>"

definition end_task :: "u64 \<Rightarrow> 't compute_pool \<Rightarrow> 't compute_pool" where
  "end_task ns s = s\<lparr>metrics := (metrics s)
     \<lparr>total_execution_time_ns := total_execution_time_ns (metrics s) + ns,
      active_workers := active_workers (metrics s) - 1\<rparr>\<rparr>"

definition count_task :: "bool \<Rightarrow> 't compute_pool \<Rightarrow> 't compute_pool" where
  "count_task panicked s = s\<lparr>metrics := (if panicked
     then (metrics s)\<lparr>tasks_failed := tasks_failed (metrics s) + 1\<rparr>
     else (metrics s)\<lparr>tasks_completed := tasks_completed (metrics s) + 1\<rparr>)\<rparr>"

definition set_thread :: "nat \<Rightarrow> 't compute_worker \<Rightarrow> 't compute_pool \<Rightarrow> 't compute_pool" where
  "set_thread k w s = s\<lparr>threads := (threads s)[k := w]\<rparr>"

definition wake_all :: "'t compute_worker list \<Rightarrow> 't compute_worker list" where
  "wake_all ws = map (\<lambda>w. if w = Waiting then Looking else w) ws"

text \<open>The lock is held exactly by a worker that is \<open>Deciding\<close>; every other critical section is
  one step. \<open>Drop\<close> sets the flag and notifies without taking the lock; after it nobody else
  has the pool, so there is no more \<open>spawn\<close>.\<close>

abbreviation unlocked :: "'t compute_pool \<Rightarrow> bool" where
  "unlocked s \<equiv> Deciding \<notin> set (threads s)"

inductive compute_step :: "('t \<Rightarrow> bool) \<Rightarrow> 't compute_pool \<Rightarrow> 't compute_pool \<Rightarrow> bool" for panics where
  Spawn: "\<not> shutdown s \<Longrightarrow> unlocked s \<Longrightarrow>
    compute_step panics s ((spawn_push t p s)\<lparr>pending_notify := pending_notify s + 1\<rparr>)"
| Notify_one: "0 < pending_notify s \<Longrightarrow> k < length (threads s) \<Longrightarrow> threads s ! k = Waiting \<Longrightarrow>
    compute_step panics s (set_thread k Looking (s\<lparr>pending_notify := pending_notify s - 1\<rparr>))"
| Notify_none: "0 < pending_notify s \<Longrightarrow> Waiting \<notin> set (threads s) \<Longrightarrow>
    compute_step panics s (s\<lparr>pending_notify := pending_notify s - 1\<rparr>)"
| Take: "k < length (threads s) \<Longrightarrow> threads s ! k = Looking \<Longrightarrow> unlocked s \<Longrightarrow>
    take_task s = Some (pt, s') \<Longrightarrow> compute_step panics s (set_thread k (Taken (task pt)) s')"
| Leave: "k < length (threads s) \<Longrightarrow> threads s ! k = Looking \<Longrightarrow> unlocked s \<Longrightarrow>
    heap s = [] \<Longrightarrow> shutdown s \<Longrightarrow> compute_step panics s (set_thread k Gone s)"
| Decide: "k < length (threads s) \<Longrightarrow> threads s ! k = Looking \<Longrightarrow> unlocked s \<Longrightarrow>
    heap s = [] \<Longrightarrow> \<not> shutdown s \<Longrightarrow> compute_step panics s (set_thread k Deciding s)"
| Sleep: "k < length (threads s) \<Longrightarrow> threads s ! k = Deciding \<Longrightarrow>
    compute_step panics s (set_thread k Waiting s)"
| Begin: "k < length (threads s) \<Longrightarrow> threads s ! k = Taken t \<Longrightarrow>
    compute_step panics s (set_thread k (Busy t) (begin_task s))"
| End: "k < length (threads s) \<Longrightarrow> threads s ! k = Busy t \<Longrightarrow>
    compute_step panics s (set_thread k (Ended t) (end_task ns s))"
| Count: "k < length (threads s) \<Longrightarrow> threads s ! k = Ended t \<Longrightarrow>
    compute_step panics s (set_thread k Looking (count_task (panics t) s))"
| Shutdown: "\<not> shutdown s \<Longrightarrow> compute_step panics s (s\<lparr>shutdown := True\<rparr>)"
| Notify_all: "shutdown s \<Longrightarrow> \<not> woken s \<Longrightarrow>
    compute_step panics s (s\<lparr>woken := True, threads := wake_all (threads s)\<rparr>)"

definition pool_reachable :: "('t \<Rightarrow> bool) \<Rightarrow> nat \<Rightarrow> 't compute_pool \<Rightarrow> bool" where
  "pool_reachable panics n s \<longleftrightarrow> (compute_step panics)\<^sup>*\<^sup>* (compute_pool_new n) s"

subsection \<open>Running order\<close>

fun spawn_all :: "('t \<times> task_priority) list \<Rightarrow> 't compute_pool \<Rightarrow> 't compute_pool" where
  "spawn_all [] s = s"
| "spawn_all ((t, p) # ts) s = spawn_all ts (spawn_push t p s)"

text \<open>What a single worker runs from the heap, in order.\<close>

definition run_order :: "'t compute_pool \<Rightarrow> 't list" where
  "run_order s = map task (drain (length (heap s)) heap_pop (heap s))"

fun entries :: "nat \<Rightarrow> ('t \<times> task_priority) list \<Rightarrow> 't heap" where
  "entries n [] = []"
| "entries n ((t, p) # ts) = \<lparr>task = t, priority = p, sequence = of_nat n\<rparr> # entries (Suc n) ts"

lemma spawn_all_heap:
  "next_sequence s = of_nat n \<Longrightarrow> heap (spawn_all ts s) = heap s @ entries n ts"
proof (induction ts arbitrary: s n)
  case Nil
  then show ?case by simp
next
  case (Cons tp ts)
  obtain t p where tp: "tp = (t, p)" by fastforce
  have "next_sequence (spawn_push t p s) = of_nat (Suc n)"
    using Cons.prems by (simp add: spawn_push_def Let_def)
  from Cons.IH [OF this] Cons.prems show ?case
    by (simp add: tp spawn_push_def Let_def heap_push_def)
qed

lemma entries_sequence: "e \<in> set (entries n ts) \<Longrightarrow> n + length ts \<le> 2 ^ 64 \<Longrightarrow>
    n \<le> unat (sequence e) \<and> unat (sequence e) < n + length ts"
proof (induction n ts rule: entries.induct)
  case (1 n)
  then show ?case by simp
next
  case (2 n t p ts)
  have "unat (of_nat n :: u64) = n"
    using 2(3) by (intro unat_of_nat_u64) simp
  with 2 show ?case by auto
qed

lemma entries_inj: "n + length ts \<le> 2 ^ 64 \<Longrightarrow> distinct (map sequence (entries n ts))"
proof (induction n ts rule: entries.induct)
  case (1 n)
  then show ?case by simp
next
  case (2 n t p ts)
  have "unat (of_nat n :: u64) = n"
    using 2(2) by (intro unat_of_nat_u64) simp
  then have "(of_nat n :: u64) \<notin> sequence ` set (entries (Suc n) ts)"
    using entries_sequence [of _ "Suc n" ts] 2(2) by fastforce
  with 2 show ?case by simp
qed

lemma sorted_same_priority:
  "n + length ts \<le> 2 ^ 64 \<Longrightarrow> sorted (map rank (filter (\<lambda>e. priority e = q) (entries n ts)))"
proof (induction n ts rule: entries.induct)
  case (1 n)
  then show ?case by simp
next
  case (2 n t p ts)
  have "unat (of_nat n :: u64) = n"
    using 2(2) by (intro unat_of_nat_u64) simp
  moreover have "n \<le> unat (sequence e)" if "e \<in> set (entries (Suc n) ts)" for e
    using entries_sequence [OF that] 2(2) by simp
  ultimately show ?case
    using 2 by (auto simp: rank_def)
qed

definition by_priority :: "('t \<times> task_priority) list \<Rightarrow> 't list" where
  "by_priority ts = concat (map (\<lambda>q. map fst (filter (\<lambda>(_, p). p = q) ts)) [Critical, High, Normal, Low])"

lemma entries_filter:
  "map task (filter (\<lambda>e. priority e = q) (entries n ts)) = map fst (filter (\<lambda>(_, p). p = q) ts)"
  by (induction n ts rule: entries.induct) auto

lemma rank_priority_mono:
  "priority_level (priority b) < priority_level (priority a) \<Longrightarrow> rank a \<le> rank b"
  using two_digits(1) [OF unat_u64_bound unat_u64_bound, of "3 - priority_level (priority a)"
      "sequence a" "3 - priority_level (priority b)" "sequence b"] level_le_3 [of "priority a"]
  by (auto simp: rank_def)

lemma run_order_by_priority:
  assumes "heap s = []" and "next_sequence s = 0" and "length ts \<le> 2 ^ 64"
  shows "run_order (spawn_all ts s) = by_priority ts"
proof -
  let ?es = "entries 0 ts"
  let ?part = "\<lambda>q. filter (\<lambda>e. priority e = q) ?es"
  let ?ref = "concat (map ?part [Critical, High, Normal, Low])"
  have heap: "heap (spawn_all ts s) = ?es"
    using spawn_all_heap [of s 0 ts] assms by simp
  have dist: "distinct (map sequence ?es)"
    using entries_inj [of 0 ts] assms(3) by simp
  have inj: "inj_on rank (set ?es)"
  proof (rule inj_onI)
    fix a b
    assume ab: "a \<in> set ?es" "b \<in> set ?es" and "rank a = rank b"
    then have "sequence a = sequence b"
      using two_digits(2) [OF unat_u64_bound unat_u64_bound] unfolding rank_def
      by (metis unsigned_word_eqI)
    with ab dist show "a = b"
      by (metis distinct_map inj_onD)
  qed
  have parts: "mset es = mset (concat (map (\<lambda>q. filter (\<lambda>e. priority e = q) es) [Critical, High, Normal, Low]))"
    for es :: "'a heap"
  proof (induction es)
    case Nil
    then show ?case by simp
  next
    case (Cons e es)
    then show ?case
      by (cases "priority e") simp_all
  qed
  have same: "mset ?ref = mset ?es"
    using parts [of ?es] by simp
  have "sorted (map rank ?ref)"
    using sorted_same_priority [of 0 ts] assms(3)
    by (auto simp: sorted_append intro!: rank_priority_mono)
  moreover have "mset (drain (length ?es) heap_pop ?es) = mset ?es"
    "sorted (map rank (drain (length ?es) heap_pop ?es))"
    using hp.drain_spec [of ?es "length ?es"] by simp_all
  moreover have "inj_on rank (set ?ref)"
    using inj mset_eq_setD [OF same] by simp
  ultimately have "drain (length ?es) heap_pop ?es = ?ref"
    using same by (intro sorted_rank_unique) simp_all
  then show ?thesis
    by (simp add: run_order_def heap by_priority_def entries_filter)
qed


subsection \<open>The invariant of the pool\<close>

fun holds_task :: "'t compute_worker \<Rightarrow> bool" where
  "holds_task (Taken _) = True"
| "holds_task (Busy _) = True"
| "holds_task (Ended _) = True"
| "holds_task _ = False"

fun is_busy :: "'t compute_worker \<Rightarrow> bool" where
  "is_busy (Busy _) = True"
| "is_busy _ = False"

definition tally :: "('a \<Rightarrow> bool) \<Rightarrow> 'a list \<Rightarrow> u64" where
  "tally P xs = of_nat (length (filter P xs))"

lemma tally_update:
  "k < length xs \<Longrightarrow> tally P (xs[k := x])
     = tally P xs + (if P x then 1 else 0) - (if P (xs ! k) then 1 else 0)"
proof (induction xs arbitrary: k)
  case Nil
  then show ?case by simp
next
  case (Cons y ys)
  then show ?case by (cases k) (auto simp: tally_def split: if_splits)
qed

lemma tally_append: "tally P (xs @ ys) = tally P xs + tally P ys"
  by (simp add: tally_def)

lemma tally_add_mset:
  assumes "mset xs = add_mset x (mset ys)"
  shows "tally P xs = tally P ys + (if P x then 1 else 0)"
proof -
  have "length (filter P xs) = size (filter_mset P (mset xs))"
    by (simp flip: mset_filter)
  also have "\<dots> = length (filter P ys) + (if P x then 1 else 0)"
    by (simp add: assms flip: mset_filter)
  finally show ?thesis by (simp add: tally_def)
qed

lemma tally_wake:
  "\<not> P Waiting \<Longrightarrow> \<not> P Looking \<Longrightarrow> tally P (wake_all ws) = tally P ws"
  by (induction ws) (auto simp: tally_def wake_all_def)

definition pool_inv :: "'t compute_pool \<Rightarrow> bool" where
  "pool_inv s \<longleftrightarrow>
     tasks_submitted (metrics s) = tally (\<lambda>_. True) (heap s) + tally holds_task (threads s)
        + tasks_completed (metrics s) + tasks_failed (metrics s)
     \<and> (\<forall>p. queue_depth (metrics s) p = tally (\<lambda>e. priority e = p) (heap s))
     \<and> active_workers (metrics s) = tally is_busy (threads s)
     \<and> (Gone \<in> set (threads s) \<longrightarrow> heap s = [] \<and> shutdown s)"

lemma set_thread_gone:
  "Gone \<in> set (ws[k := w]) \<Longrightarrow> w \<noteq> Gone \<Longrightarrow> Gone \<in> set ws"
  using set_update_subset_insert [of ws k w] by auto

lemma pool_inv_new: "pool_inv (compute_pool_new n)"
  by (auto simp: pool_inv_def compute_pool_new_def compute_metrics_default_def tally_def)

lemma pool_inv_thread:
  assumes "pool_inv s" and "k < length (threads s)" and "w \<noteq> Gone"
    and "holds_task (threads s ! k) = holds_task w" and "is_busy (threads s ! k) = is_busy w"
  shows "pool_inv (set_thread k w s)"
  using assms set_thread_gone [of "threads s" k w]
  by (auto simp: pool_inv_def set_thread_def tally_update)

lemma take_task_inv:
  assumes inv: "pool_inv s" and k: "k < length (threads s)" "threads s ! k = Looking"
    and t: "take_task s = Some (pt, s')"
  shows "pool_inv (set_thread k (Taken (task pt)) s')"
proof -
  obtain rest where pop: "heap_pop (heap s) = Some (pt, rest)"
    and s': "s' = s\<lparr>heap := rest, metrics := (metrics s)\<lparr>queue_depth := (queue_depth (metrics s))
      (priority pt := queue_depth (metrics s) (priority pt) - 1)\<rparr>\<rparr>"
    using t by (auto simp: take_task_def Let_def split: option.splits)
  have m: "mset (heap s) = add_mset pt (mset rest)"
    using hp.pop_Some [OF pop] by simp
  have "heap s \<noteq> []"
    using pop by auto
  then have "Gone \<notin> set (threads s)"
    using inv by (auto simp: pool_inv_def)
  then have "Gone \<notin> set ((threads s)[k := Taken (task pt)])"
    using set_thread_gone [of "threads s" k "Taken (task pt)"] by blast
  with inv k show ?thesis
    by (simp add: pool_inv_def set_thread_def s' tally_update tally_add_mset [OF m])
qed

lemma pool_inv_step: "compute_step panics s s' \<Longrightarrow> pool_inv s \<Longrightarrow> pool_inv s'"
proof (induction rule: compute_step.induct)
  case (Spawn s t p)
  then show ?case
    by (auto simp: pool_inv_def spawn_push_def Let_def heap_push_def tally_append)
      (auto simp: tally_def)
next
  case (Notify_one s k)
  have "pool_inv (s\<lparr>pending_notify := pending_notify s - 1\<rparr>)"
    using Notify_one(4) by (simp add: pool_inv_def)
  then show ?case
    using Notify_one by (intro pool_inv_thread) simp_all
next
  case (Notify_none s)
  then show ?case by (simp add: pool_inv_def)
next
  case (Take k s pt s')
  then show ?case by (intro take_task_inv)
next
  case (Leave k s)
  then show ?case by (simp add: pool_inv_def set_thread_def tally_update)
next
  case (Decide k s)
  then show ?case by (intro pool_inv_thread) simp_all
next
  case (Sleep k s)
  then show ?case by (intro pool_inv_thread) simp_all
next
  case (Begin k s t)
  then show ?case
    using set_thread_gone [of "threads s" k "Busy t"]
    by (auto simp: pool_inv_def set_thread_def begin_task_def tally_update)
next
  case (End k s t ns)
  then show ?case
    using set_thread_gone [of "threads s" k "Ended t"]
    by (auto simp: pool_inv_def set_thread_def end_task_def tally_update)
next
  case (Count k s t)
  then show ?case
    using set_thread_gone [of "threads s" k Looking]
    by (auto simp: pool_inv_def set_thread_def count_task_def tally_update)
next
  case (Shutdown s)
  then show ?case by (simp add: pool_inv_def)
next
  case (Notify_all s)
  have "Gone \<in> set (wake_all (threads s)) \<longleftrightarrow> Gone \<in> set (threads s)"
    by (auto simp: wake_all_def)
  with Notify_all show ?case
    by (simp add: pool_inv_def tally_wake)
qed

lemma pool_reachable_inv: "pool_reachable panics n s \<Longrightarrow> pool_inv s"
  unfolding pool_reachable_def
  by (induction rule: rtranclp_induct) (auto intro: pool_inv_new pool_inv_step)

lemma pool_reachable_new: "pool_reachable panics n (compute_pool_new n)"
  by (simp add: pool_reachable_def)

lemma pool_reachable_step:
  "pool_reachable panics n s \<Longrightarrow> compute_step panics s s' \<Longrightarrow> pool_reachable panics n s'"
  unfolding pool_reachable_def by (rule rtranclp.rtrancl_into_rtrancl)


subsection \<open>Properties\<close>

text \<open>C15: tasks queued together leave the heap with all critical ones first, then high, normal
  and low, and in the order of submission within a priority.\<close>

theorem compute_order:
  assumes "length ts \<le> 2 ^ 64"
  shows "run_order (spawn_all ts (compute_pool_new n)) = by_priority ts"
  using assms by (intro run_order_by_priority) (simp_all add: compute_pool_new_def)

theorem compute_order_witness:
  "run_order (spawn_all [(0 :: nat, Normal), (1, Low), (2, Critical), (3, High), (4, Normal)] (compute_pool_new 1))
     = [2, 3, 0, 4, 1]"
  by (subst compute_order) (simp_all add: by_priority_def)

text \<open>C16: in every state of the pool, the submitted tasks are those queued, those a worker
  holds, those completed and those failed; each queue depth counts the queued tasks of its
  priority; and the active workers are those running a task.\<close>

theorem metrics_consistent:
  assumes "pool_reachable panics n s"
  shows "tasks_submitted (metrics s) = of_nat (length (heap s))
        + of_nat (length (filter holds_task (threads s)))
        + tasks_completed (metrics s) + tasks_failed (metrics s)
    \<and> (\<forall>p. queue_depth (metrics s) p = of_nat (length (filter (\<lambda>e. priority e = p) (heap s))))
    \<and> active_workers (metrics s) = of_nat (length (filter is_busy (threads s)))"
  using pool_reachable_inv [OF assms] by (simp add: pool_inv_def tally_def)

definition one_spawned :: "nat compute_pool" where
  "one_spawned = (spawn_push 7 High (compute_pool_new 1))\<lparr>pending_notify := 1\<rparr>"

lemma one_spawned_eq: "one_spawned = \<lparr>heap = [\<lparr>task = 7, priority = High, sequence = 0\<rparr>],
    shutdown = False, woken = False, next_sequence = 1, metrics = \<lparr>tasks_submitted = 1,
    tasks_completed = 0, tasks_failed = 0, active_workers = 0, queue_depth = (\<lambda>_. 0)(High := 1),
    total_execution_time_ns = 0\<rparr>, pending_notify = 1, threads = [Looking]\<rparr>"
  by (simp add: one_spawned_def spawn_push_def compute_pool_new_def compute_metrics_default_def
      Let_def heap_push_def)

lemma one_spawned_reachable: "pool_reachable panics 1 one_spawned"
proof -
  have "compute_step panics (compute_pool_new 1)
      ((spawn_push 7 High (compute_pool_new 1))\<lparr>pending_notify := pending_notify (compute_pool_new 1 :: nat compute_pool) + 1\<rparr>)"
    by (rule Spawn) (simp_all add: compute_pool_new_def)
  from pool_reachable_step [OF pool_reachable_new this] show ?thesis
    by (simp add: one_spawned_def) (simp add: compute_pool_new_def)
qed

text \<open>Its worker takes the task.\<close>

definition one_taken :: "nat compute_pool" where
  "one_taken = set_thread 0 (Taken 7) (one_spawned\<lparr>heap := [], metrics := (metrics one_spawned)
    \<lparr>queue_depth := (\<lambda>_. 0)(High := 0)\<rparr>\<rparr>)"

lemma one_taken_reachable: "pool_reachable panics 1 one_taken"
proof -
  have "take_task one_spawned = Some (\<lparr>task = 7, priority = High, sequence = 0\<rparr>,
      one_spawned\<lparr>heap := [], metrics := (metrics one_spawned)\<lparr>queue_depth := (\<lambda>_. 0)(High := 0)\<rparr>\<rparr>)"
    by (simp add: take_task_def one_spawned_eq Let_def)
  from Take [OF _ _ _ this, of 0 panics] have "compute_step panics one_spawned one_taken"
    by (simp add: one_taken_def) (simp add: one_spawned_eq)
  then show ?thesis
    by (rule pool_reachable_step [OF one_spawned_reachable])
qed

theorem metrics_consistent_witness:
  "tasks_submitted (metrics one_spawned) = 1 \<and> queue_depth (metrics one_spawned) High = 1"
  using metrics_consistent [OF one_spawned_reachable] by (simp add: one_spawned_eq)



text \<open>\<open>Drop\<close> can hang. It sets the flag and notifies without the queue's lock, so both can
  fall between a worker's check of the flag and its wait: that worker then waits for a
  notification that no one will send.\<close>

theorem drop_can_hang:
  "\<exists>s. pool_reachable (panics :: 't \<Rightarrow> bool) 1 s \<and> shutdown s \<and> woken s \<and> threads s = [Waiting]
     \<and> (\<nexists>s'. compute_step panics s s')"
proof -
  let ?s0 = "compute_pool_new 1 :: 't compute_pool"
  let ?s1 = "set_thread 0 Deciding ?s0"
  let ?s2 = "?s1\<lparr>shutdown := True\<rparr>"
  let ?s3 = "?s2\<lparr>woken := True, threads := wake_all (threads ?s2)\<rparr>"
  let ?s4 = "set_thread 0 Waiting ?s3"
  have "compute_step panics ?s0 ?s1"
    by (rule Decide) (simp_all add: compute_pool_new_def)
  moreover have "compute_step panics ?s1 ?s2"
    by (rule Shutdown) (simp add: compute_pool_new_def set_thread_def)
  moreover have "compute_step panics ?s2 ?s3"
    by (rule Notify_all) (simp_all add: compute_pool_new_def set_thread_def)
  moreover have "compute_step panics ?s3 ?s4"
    by (rule Sleep) (simp_all add: compute_pool_new_def set_thread_def wake_all_def)
  ultimately have reach: "pool_reachable panics 1 ?s4"
    using pool_reachable_new by (meson pool_reachable_step)
  have s4: "threads ?s4 = [Waiting]" "shutdown ?s4" "woken ?s4" "pending_notify ?s4 = 0"
    by (simp_all add: compute_pool_new_def set_thread_def wake_all_def)
  then have "\<not> compute_step panics ?s4 s'" for s'
    by (auto elim: compute_step.cases)
  with reach s4 show ?thesis
    by blast
qed

text \<open>A reader of the metrics does see more tasks submitted than queued, completed and
  failed: while a worker holds a task it is in none of these counts.\<close>

theorem running_tasks_uncounted:
  assumes "pool_reachable panics n s" and "filter holds_task (threads s) = [w]"
  shows "tasks_submitted (metrics s) = of_nat (length (heap s)) + tasks_completed (metrics s)
    + tasks_failed (metrics s) + 1"
  using pool_reachable_inv [OF assms(1)] assms(2) by (simp add: pool_inv_def tally_def)

theorem running_tasks_uncounted_witness:
  "\<exists>s. pool_reachable (\<lambda>_ :: nat. False) 1 s \<and> heap s = [] \<and> tasks_completed (metrics s) = 0
     \<and> tasks_failed (metrics s) = 0 \<and> tasks_submitted (metrics s) = 1"
proof -
  have "filter holds_task (threads one_taken) = [Taken 7]"
    by (simp add: one_taken_def set_thread_def one_spawned_eq)
  from running_tasks_uncounted [OF one_taken_reachable this] show ?thesis
    using one_taken_reachable
    by (intro exI [of _ one_taken]) (simp, simp add: one_taken_def set_thread_def one_spawned_eq)
qed

end
