(* ===== verification/Reactor.thy ===== *)
theory Reactor
  imports Thread_Pool Compute_Pool Timer_Tick
begin

section \<open>The reactor and the event loop\<close>

text \<open>
  \<^verbatim>\<open>mill-io/src/poll.rs\<close>, \<^verbatim>\<open>handler.rs\<close>, \<^verbatim>\<open>reactor.rs\<close> and the \<open>EventLoop\<close> of
  \<^verbatim>\<open>lib.rs\<close>. The poller (mio) is outside the repository: what one \<open>poll\<close> returns, and
  whether a source accepts its registration, are inputs. Handlers are user code, an argument
  \<open>handle\<close> that changes the registry and a state of the user.
\<close>

subsection \<open>The registry of handlers\<close>

type_synonym token = nat

record interest =
  wants_readable :: bool
  wants_writable :: bool

record mio_event =
  event_token :: token
  is_readable :: bool
  is_writable :: bool

record 'h handler_entry =
  handler :: 'h
  entry_interest :: interest

definition handler_entry_new :: "'h \<Rightarrow> interest \<Rightarrow> 'h handler_entry" where
  "handler_entry_new h i = \<lparr>handler = h, entry_interest = i\<rparr>"

record 'h poll_handle =
  registry :: "(token, 'h handler_entry) hmap"

definition poll_handle_new :: "'h poll_handle" where
  "poll_handle_new = \<lparr>registry = []\<rparr>"

text \<open>\<open>accepted\<close> is what the source's own \<open>register\<close> or \<open>deregister\<close> returns.\<close>

definition register :: "unit outcome \<Rightarrow> token \<Rightarrow> interest \<Rightarrow> 'h \<Rightarrow> 'h poll_handle
    \<Rightarrow> unit outcome \<times> 'h poll_handle" where
  "register accepted token interest h p =
     (let entry = handler_entry_new h interest in
      case accepted of
        Ok _ \<Rightarrow> (Ok (), p\<lparr>registry := hm_insert token entry (registry p)\<rparr>)
      | e \<Rightarrow> (e, p))"

definition deregister :: "unit outcome \<Rightarrow> token \<Rightarrow> 'h poll_handle \<Rightarrow> unit outcome \<times> 'h poll_handle" where
  "deregister accepted token p =
     (case accepted of
        Ok _ \<Rightarrow> (Ok (), p\<lparr>registry := hm_remove token (registry p)\<rparr>)
      | e \<Rightarrow> (e, p))"

subsection \<open>Dispatching an event\<close>

definition interested :: "interest \<Rightarrow> mio_event \<Rightarrow> bool" where
  "interested i ev \<longleftrightarrow> wants_readable i \<and> is_readable ev \<or> wants_writable i \<and> is_writable ev"

text \<open>The state handlers work on: the registry and whatever they own.\<close>

type_synonym ('h, 'u) world = "'h poll_handle \<times> 'u"

type_synonym ('h, 'u) handling = "'h \<Rightarrow> mio_event \<Rightarrow> ('h, 'u) world \<Rightarrow> ('h, 'u) world"

text \<open>The body that both paths of \<open>dispatch_event\<close> run, at once or in a worker.\<close>

definition handle_event :: "('h, 'u) handling \<Rightarrow> mio_event \<Rightarrow> ('h, 'u) world \<Rightarrow> ('h, 'u) world" where
  "handle_event handle ev w =
     (case hm_get (registry (fst w)) (event_token ev) of
        Some entry \<Rightarrow>
          if interested (entry_interest entry) ev then handle (handler entry) ev w else w
      | None \<Rightarrow> w)"

record reactor_options =
  direct_dispatch :: bool

record ('h, 'u, 'cb, 't) reactor =
  world :: "('h, 'u) world"
  pool :: "mio_event thread_pool"
  compute :: "'t compute_pool"
  running :: bool
  poll_timeout_ms :: u64
  options :: reactor_options
  wheel :: "'cb timer_wheel"

definition DEFAULT_EVENTS_CAPACITY :: nat where
  "DEFAULT_EVENTS_CAPACITY = 1024"

definition DEFAULT_POLL_TIMEOUT_MS :: u64 where
  "DEFAULT_POLL_TIMEOUT_MS = 150"

definition reactor_new_with_options :: "nat option \<Rightarrow> nat \<Rightarrow> u64 \<Rightarrow> reactor_options \<Rightarrow> instant \<Rightarrow> 'u
    \<Rightarrow> ('h, 'u, 'cb, 't) reactor" where
  "reactor_new_with_options available pool_size timeout opts now u =
     \<lparr>world = (poll_handle_new, u), pool = thread_pool_new pool_size,
      compute = compute_pool_default available, running = False,
      poll_timeout_ms = timeout, options = opts, wheel = timer_wheel_new now\<rparr>"

definition reactor_new :: "nat option \<Rightarrow> nat \<Rightarrow> u64 \<Rightarrow> instant \<Rightarrow> 'u \<Rightarrow> ('h, 'u, 'cb, 't) reactor" where
  "reactor_new available pool_size timeout now u =
     reactor_new_with_options available pool_size timeout \<lparr>direct_dispatch = False\<rparr> now u"

definition reactor_default :: "nat option \<Rightarrow> instant \<Rightarrow> 'u \<Rightarrow> ('h, 'u, 'cb, 't) reactor" where
  "reactor_default available now u =
     \<lparr>world = (poll_handle_new, u), pool = thread_pool_default available,
      compute = compute_pool_new (case available of Some n \<Rightarrow> n | None \<Rightarrow> 4), running = False,
      poll_timeout_ms = DEFAULT_POLL_TIMEOUT_MS, options = \<lparr>direct_dispatch = False\<rparr>,
      wheel = timer_wheel_new now\<rparr>"

definition dispatch_event :: "('h, 'u) handling \<Rightarrow> mio_event \<Rightarrow> ('h, 'u, 'cb, 't) reactor
    \<Rightarrow> unit outcome \<times> ('h, 'u, 'cb, 't) reactor" where
  "dispatch_event handle ev r =
     (if direct_dispatch (options r) then
        (Ok (), r\<lparr>world := handle_event handle ev (world r)\<rparr>)
      else
        let (res, p) = exec ev (pool r) in (res, r\<lparr>pool := p\<rparr>))"

definition reactor_spawn_compute :: "'t \<Rightarrow> task_priority \<Rightarrow> ('h, 'u, 'cb, 't) reactor
    \<Rightarrow> ('h, 'u, 'cb, 't) reactor" where
  "reactor_spawn_compute t p r = r\<lparr>compute := spawn_push t p (compute r)\<rparr>"

text \<open>The \<open>for\<close> loop over a batch of events, which \<open>?\<close> leaves at the first error.\<close>

fun dispatch_all :: "('h, 'u) handling \<Rightarrow> mio_event list \<Rightarrow> ('h, 'u, 'cb, 't) reactor
    \<Rightarrow> unit outcome \<times> ('h, 'u, 'cb, 't) reactor" where
  "dispatch_all handle [] r = (Ok (), r)"
| "dispatch_all handle (ev # evs) r =
     (case dispatch_event handle ev r of
        (Ok _, r) \<Rightarrow> dispatch_all handle evs r
      | (e, r) \<Rightarrow> (e, r))"

subsection \<open>The loop\<close>

definition poll_timeout :: "u64 \<Rightarrow> duration option \<Rightarrow> duration" where
  "poll_timeout timeout_ms next = (case next of
      Some until_next \<Rightarrow> (let configured = from_millis timeout_ms in min until_next configured)
    | None \<Rightarrow> from_millis timeout_ms)"

text \<open>What one turn of the loop meets: the clock when it asks for the next timer, the result of
  \<open>poll\<close>, the clock before and after the timers' callbacks, and whether someone has called
  \<open>shutdown\<close> by the end of the turn.\<close>

record turn =
  asked_at :: instant
  polled :: "string + mio_event list"
  tick_at :: instant
  tick_end :: instant
  stopped :: bool

definition shutdown_reactor :: "('h, 'u, 'cb, 't) reactor \<Rightarrow> ('h, 'u, 'cb, 't) reactor" where
  "shutdown_reactor r = r\<lparr>running := False\<rparr>"

definition run_turn :: "('h, 'u) handling \<Rightarrow> ('cb \<Rightarrow> 'cb timer_wheel \<Rightarrow> 'cb timer_wheel) \<Rightarrow> turn
    \<Rightarrow> ('h, 'u, 'cb, 't) reactor \<Rightarrow> unit outcome \<times> ('h, 'u, 'cb, 't) reactor" where
  "run_turn handle callback t r =
     (let (next, tw) = wheel_time_until_next (asked_at t) (wheel r);
          timeout = poll_timeout (poll_timeout_ms r) next;
          r = r\<lparr>wheel := tw\<rparr>
      in case polled t of
           Inl e \<Rightarrow> (Err e, r)
         | Inr events \<Rightarrow>
             (case dispatch_all handle events r of
                (Ok _, r) \<Rightarrow>
                  let (_, tw) = tick callback (tick_at t) (tick_end t) (wheel r);
                      r = r\<lparr>wheel := tw\<rparr>
                  in (Ok (), if stopped t then shutdown_reactor r else r)
              | (e, r) \<Rightarrow> (e, r)))"

text \<open>\<open>run\<close> over the turns to come: \<open>None\<close> when the loop is still going after all of them.\<close>

fun run_loop :: "('h, 'u) handling \<Rightarrow> ('cb \<Rightarrow> 'cb timer_wheel \<Rightarrow> 'cb timer_wheel) \<Rightarrow> turn list
    \<Rightarrow> ('h, 'u, 'cb, 't) reactor \<Rightarrow> unit outcome option \<times> ('h, 'u, 'cb, 't) reactor" where
  "run_loop handle callback [] r = (if running r then None else Some (Ok ()), r)"
| "run_loop handle callback (t # ts) r =
     (if running r then
        (case run_turn handle callback t r of
           (Ok _, r) \<Rightarrow> run_loop handle callback ts r
         | (e, r) \<Rightarrow> (Some e, r))
      else (Some (Ok ()), r))"

definition run :: "('h, 'u) handling \<Rightarrow> ('cb \<Rightarrow> 'cb timer_wheel \<Rightarrow> 'cb timer_wheel) \<Rightarrow> turn list
    \<Rightarrow> ('h, 'u, 'cb, 't) reactor \<Rightarrow> unit outcome option \<times> ('h, 'u, 'cb, 't) reactor" where
  "run handle callback ts r = run_loop handle callback ts (r\<lparr>running := True\<rparr>)"

end
