(* ===== verification/Event_Loop.thy ===== *)
theory Event_Loop
  imports Reactor Timer_Samples
begin

section \<open>The event loop\<close>

text \<open>
  The interface \<open>EventLoop\<close> of \<^verbatim>\<open>mill-io/src/lib.rs\<close> over the reactor, and the properties
  of both: how long a poll may sleep, what dispatching an event does on either path, and how
  \<open>run\<close> ends. \<open>wake_pending\<close> is set by a wake of the poller.
\<close>

subsection \<open>Operations\<close>

record ('h, 'u, 'cb, 't) event_loop =
  reactor :: "('h, 'u, 'cb, 't) reactor"
  wake_pending :: bool

definition event_loop_new :: "nat option \<Rightarrow> nat \<Rightarrow> u64 \<Rightarrow> instant \<Rightarrow> 'u \<Rightarrow> ('h, 'u, 'cb, 't) event_loop" where
  "event_loop_new available n timeout now u =
     \<lparr>reactor = reactor_new available n timeout now u, wake_pending = False\<rparr>"

definition event_loop_default :: "nat option \<Rightarrow> instant \<Rightarrow> 'u \<Rightarrow> ('h, 'u, 'cb, 't) event_loop" where
  "event_loop_default available now u =
     \<lparr>reactor = reactor_default available now u, wake_pending = False\<rparr>"

definition new_low_latency :: "nat option \<Rightarrow> u64 \<Rightarrow> instant \<Rightarrow> 'u \<Rightarrow> ('h, 'u, 'cb, 't) event_loop" where
  "new_low_latency available timeout now u =
     \<lparr>reactor = reactor_new_with_options available 1 timeout \<lparr>direct_dispatch = True\<rparr> now u,
      wake_pending = False\<rparr>"

definition loop_register :: "unit outcome \<Rightarrow> token \<Rightarrow> interest \<Rightarrow> 'h \<Rightarrow> ('h, 'u, 'cb, 't) event_loop
    \<Rightarrow> unit outcome \<times> ('h, 'u, 'cb, 't) event_loop" where
  "loop_register accepted tok i h el =
     (let (res, p) = register accepted tok i h (fst (world (reactor el)))
      in (res, el\<lparr>reactor := (reactor el)\<lparr>world := (p, snd (world (reactor el)))\<rparr>\<rparr>))"

definition loop_deregister :: "unit outcome \<Rightarrow> token \<Rightarrow> ('h, 'u, 'cb, 't) event_loop
    \<Rightarrow> unit outcome \<times> ('h, 'u, 'cb, 't) event_loop" where
  "loop_deregister accepted tok el =
     (let (res, p) = deregister accepted tok (fst (world (reactor el)))
      in (res, el\<lparr>reactor := (reactor el)\<lparr>world := (p, snd (world (reactor el)))\<rparr>\<rparr>))"

definition loop_run :: "('h, 'u) handling \<Rightarrow> ('cb \<Rightarrow> 'cb timer_wheel \<Rightarrow> 'cb timer_wheel) \<Rightarrow> turn list
    \<Rightarrow> ('h, 'u, 'cb, 't) event_loop \<Rightarrow> unit outcome option \<times> ('h, 'u, 'cb, 't) event_loop" where
  "loop_run handle callback ts el =
     (let (res, r) = run handle callback ts (reactor el) in (res, el\<lparr>reactor := r\<rparr>))"

definition spawn_compute_with_priority :: "'t \<Rightarrow> task_priority \<Rightarrow> ('h, 'u, 'cb, 't) event_loop
    \<Rightarrow> ('h, 'u, 'cb, 't) event_loop" where
  "spawn_compute_with_priority t p el = el\<lparr>reactor := reactor_spawn_compute t p (reactor el)\<rparr>"

definition spawn_compute :: "'t \<Rightarrow> ('h, 'u, 'cb, 't) event_loop \<Rightarrow> ('h, 'u, 'cb, 't) event_loop" where
  "spawn_compute t el = el\<lparr>reactor := reactor_spawn_compute t Normal (reactor el)\<rparr>"

definition get_compute_metrics :: "('h, 'u, 'cb, 't) event_loop \<Rightarrow> compute_metrics" where
  "get_compute_metrics el = metrics (compute (reactor el))"

definition loop_schedule_once :: "duration \<Rightarrow> 'cb \<Rightarrow> instant \<Rightarrow> ('h, 'u, 'cb, 't) event_loop
    \<Rightarrow> timer_id \<times> ('h, 'u, 'cb, 't) event_loop" where
  "loop_schedule_once delay cb now el =
     (let (i, tw) = schedule_once delay cb now (wheel (reactor el))
      in (i, el\<lparr>reactor := (reactor el)\<lparr>wheel := tw\<rparr>, wake_pending := True\<rparr>))"

definition loop_schedule_repeating :: "duration \<Rightarrow> 'cb \<Rightarrow> instant \<Rightarrow> ('h, 'u, 'cb, 't) event_loop
    \<Rightarrow> timer_id \<times> ('h, 'u, 'cb, 't) event_loop" where
  "loop_schedule_repeating interval cb now el =
     (let (i, tw) = schedule_repeating interval cb now (wheel (reactor el))
      in (i, el\<lparr>reactor := (reactor el)\<lparr>wheel := tw\<rparr>, wake_pending := True\<rparr>))"

definition cancel_timer :: "timer_id \<Rightarrow> ('h, 'u, 'cb, 't) event_loop \<Rightarrow> bool \<times> ('h, 'u, 'cb, 't) event_loop" where
  "cancel_timer i el =
     (let (b, tw) = cancel i (wheel (reactor el)) in (b, el\<lparr>reactor := (reactor el)\<lparr>wheel := tw\<rparr>\<rparr>))"

definition pending_timers :: "('h, 'u, 'cb, 't) event_loop \<Rightarrow> usize" where
  "pending_timers el = pending_count (wheel (reactor el))"

definition stop :: "('h, 'u, 'cb, 't) event_loop \<Rightarrow> ('h, 'u, 'cb, 't) event_loop" where
  "stop el = el\<lparr>reactor := shutdown_reactor (reactor el), wake_pending := True\<rparr>"

subsection \<open>How long a poll sleeps\<close>

lemma div_add_multiple: "(a + k * (b :: nat)) div b = a div b + k" if "0 < b"
  using that by simp

text \<open>C18: the poll sleeps for at most the configured time, and never beyond the deadline of a
  pending timer: when it wakes, the clock's tick is at most the later of the tick at which it
  asked and the timer's deadline.\<close>

theorem poll_never_oversleeps:
  assumes "wheel_inv (inner tw)" and "wheel_time_until_next now tw = (next_timer, tw')"
    and "lookup (inner tw) i = Some e" and "start_time (inner tw) \<le> now"
    and "(now + poll_timeout ms next_timer - start_time (inner tw)) div 1000000 < 2 ^ 64"
  shows "poll_timeout ms next_timer \<le> from_millis ms
    \<and> tick_of (inner tw) (now + poll_timeout ms next_timer) \<le> max (tick_of (inner tw) now) (due_tick e)"
proof -
  let ?w = "inner tw"
  let ?s = "start_time ?w" and ?T = "poll_timeout ms next_timer"
  obtain w' where run: "time_until_next now ?w = (next_timer, w')"
    using assms(2) by (auto simp: wheel_time_until_next_def split: prod.splits)
  have "live ?w \<noteq> {}"
    using assms(3) by (auto simp: live_def)
  with time_until_next_spec [OF assms(1) run]
  have gap: "next_timer = Some ((Min (deadlines ?w) - tick_of ?w now) * 1000000)"
    by simp
  have "due_tick e \<in> deadlines ?w"
    using assms(3) by (auto simp: deadlines_def)
  then have least: "Min (deadlines ?w) \<le> due_tick e"
    using finite_deadlines by (intro Min_le)
  have short: "?T \<le> from_millis ms" "?T \<le> (Min (deadlines ?w) - tick_of ?w now) * 1000000"
    by (simp_all add: poll_timeout_def gap)
  have tick: "tick_of ?w t = (t - ?s) div 1000000" if "(t - ?s) div 1000000 < 2 ^ 64" for t
    using that by (simp add: instant_to_tick_def unat_as_millis)
  have later: "(now - ?s) div 1000000 \<le> (now + ?T - ?s) div 1000000"
    by (intro div_le_mono) simp
  then have now: "tick_of ?w now = (now - ?s) div 1000000"
    using assms(5) by (intro tick) linarith
  have "tick_of ?w (now + ?T) = (now + ?T - ?s) div 1000000"
    by (rule tick) (rule assms(5))
  also have "\<dots> \<le> ((now - ?s) + (Min (deadlines ?w) - tick_of ?w now) * 1000000) div 1000000"
    using short(2) assms(4) by (intro div_le_mono) linarith
  also have "\<dots> = tick_of ?w now + (Min (deadlines ?w) - tick_of ?w now)"
    by (simp only: div_add_multiple now)
  finally have "tick_of ?w (now + ?T) \<le> max (tick_of ?w now) (Min (deadlines ?w))"
    by simp
  with least short(1) show ?thesis
    by (auto simp: max_def split: if_splits)
qed

theorem poll_never_oversleeps_witness:
  "poll_timeout 150 (fst (wheel_time_until_next 1000000 sample_wheel)) \<le> 150000000
   \<and> tick_of (inner sample_wheel)
        (1000000 + poll_timeout 150 (fst (wheel_time_until_next 1000000 sample_wheel))) \<le> 3"
proof -
  let ?T = "poll_timeout 150 (fst (wheel_time_until_next 1000000 sample_wheel))"
  have e: "lookup (inner sample_wheel) 2 = Some sample_repeating"
    by (simp add: sample_lookup)
  have start: "start_time (inner sample_wheel) = 0"
    by (rule sample_wheel_facts)
  have "?T \<le> from_millis 150"
    by (simp add: poll_timeout_def split: option.splits)
  then have "(1000000 + ?T - start_time (inner sample_wheel)) div 1000000 < 2 ^ 64"
    by (simp add: start from_millis_def div_less_iff_less_mult)
  from poll_never_oversleeps [OF sample_inv prod.collapse [symmetric] e _ this] show ?thesis
    by (simp add: start from_millis_def sample_due) (simp add: sample_tick as_millis_u64_def)
qed

subsection \<open>Dispatching\<close>

text \<open>What a worker does with the events in its inbox.\<close>

fun work_off :: "('h, 'u) handling \<Rightarrow> mio_event worker_message list \<Rightarrow> ('h, 'u) world \<Rightarrow> ('h, 'u) world" where
  "work_off handle [] w = w"
| "work_off handle (Task ev # ms) w = work_off handle ms (handle_event handle ev w)"
| "work_off handle (Terminate # ms) w = w"

lemma dispatch_all_direct:
  "direct_dispatch (options r) \<Longrightarrow>
     dispatch_all handle evs r = (Ok (), r\<lparr>world := fold (handle_event handle) evs (world r)\<rparr>)"
  by (induction evs arbitrary: r) (simp_all add: dispatch_event_def)

lemma work_off_fold: "work_off handle (map Task evs) w = fold (handle_event handle) evs w"
  by (induction evs arbitrary: w) simp_all

lemma dispatch_all_pool:
  "\<not> direct_dispatch (options r) \<Longrightarrow> exec_all evs (pool r) = (rs, p) \<Longrightarrow> \<forall>x \<in> set rs. x = Ok () \<Longrightarrow>
     dispatch_all handle evs r = (Ok (), r\<lparr>pool := p\<rparr>)"
proof (induction evs arbitrary: r rs)
  case Nil
  then show ?case by simp
next
  case (Cons ev evs)
  obtain x p1 where one: "exec ev (pool r) = (x, p1)" by fastforce
  obtain rs' where rest: "exec_all evs p1 = (rs', p)" "rs = x # rs'"
    using Cons.prems(2) one by (auto simp: Let_def split: prod.splits)
  with Cons.prems Cons.IH [of "r\<lparr>pool := p1\<rparr>" rs'] one show ?case
    by (simp add: dispatch_event_def)
qed

lemma dealt_one: "dealt 1 c 0 ts = ts"
  by (induction ts arbitrary: c) simp_all



text \<open>A handler for the witnesses: it counts its events in the user's state.\<close>

definition counting :: "(nat, nat) handling" where
  "counting h ev w = (fst w, snd w + h)"

definition readable_event :: "token \<Rightarrow> mio_event" where
  "readable_event tok = \<lparr>event_token = tok, is_readable = True, is_writable = False\<rparr>"

definition sample_registry :: "nat poll_handle" where
  "sample_registry = snd (register (Ok ()) 5 \<lparr>wants_readable = True, wants_writable = False\<rparr> 10
     poll_handle_new)"

definition sample_reactor :: "(nat, nat, nat, nat) reactor" where
  "sample_reactor = (reactor_new (Some 1) 1 150 0 0)\<lparr>world := (sample_registry, 0)\<rparr>"

lemma sample_handle:
  "handle_event counting (readable_event 5) (sample_registry, n) = (sample_registry, n + 10)"
  "handle_event counting (readable_event 6) (sample_registry, n) = (sample_registry, n)"
  by (simp_all add: handle_event_def sample_registry_def register_def handler_entry_new_def
      poll_handle_new_def readable_event_def hm_simps interested_def counting_def)


text \<open>After a successful deregistration no handler runs for the token's events, not even for
  those already in a worker's inbox.\<close>

theorem deregister_silences:
  assumes "deregister accepted tok p = (Ok (), p')" and "event_token ev = tok"
  shows "handle_event handle ev (p', u) = (p', u)"
  using assms by (auto simp: deregister_def handle_event_def hm_simps split: outcome.splits)

theorem deregister_silences_witness:
  "handle_event counting (readable_event 5) (snd (deregister (Ok ()) 5 sample_registry), 0)
     = (snd (deregister (Ok ()) 5 sample_registry), 0)"
  by (rule deregister_silences [of "Ok ()" 5 sample_registry])
    (simp_all add: deregister_def readable_event_def)

text \<open>Registering a token that is in use succeeds when the source accepts it, and replaces
  the handler: the token's events then go to the new handler only.\<close>

theorem register_replaces_handler:
  assumes "hm_get (registry p) tok = Some old" and "register (Ok ()) tok i h p = (res, p')"
    and "event_token ev = tok" and "interested i ev"
  shows "res = Ok () \<and> handle_event handle ev (p', u) = handle h ev (p', u)"
  using assms
  by (auto simp: register_def handle_event_def handler_entry_new_def hm_simps)

theorem register_replaces_handler_witness:
  "snd (handle_event counting (readable_event 5)
     (snd (register (Ok ()) 5 \<lparr>wants_readable = True, wants_writable = False\<rparr> 1 sample_registry), 0)) = 1"
proof -
  let ?i = "\<lparr>wants_readable = True, wants_writable = False\<rparr>"
  obtain old where "hm_get (registry sample_registry) 5 = Some old"
    by (simp add: sample_registry_def register_def hm_simps)
  from register_replaces_handler [OF this prod.collapse [symmetric], where ev = "readable_event 5" and i = ?i and h = 1 and handle = counting and u = 0]
  show ?thesis
    by (simp add: readable_event_def interested_def counting_def)
qed

subsection \<open>How the loop ends\<close>

lemma run_turn_direct:
  assumes "direct_dispatch (options r)" and "polled t = Inr evs" and "\<not> stopped t"
  shows "\<exists>r'. run_turn handle callback t r = (Ok (), r') \<and> options r' = options r \<and> running r' = running r"
  using assms by (auto simp: run_turn_def Let_def dispatch_all_direct split: prod.splits)

text \<open>A \<open>stop\<close> that comes before \<open>run\<close> is lost, as \<open>run\<close> sets the flag it cleared: the
  loop goes on through every turn in which polling succeeds and nobody stops it again.\<close>

theorem early_stop_lost:
  assumes "direct_dispatch (options (reactor el))"
    and "\<forall>t \<in> set ts. (\<exists>evs. polled t = Inr evs) \<and> \<not> stopped t"
  shows "fst (loop_run handle callback ts (stop el)) = None"
proof -
  have "direct_dispatch (options r) \<Longrightarrow> running r \<Longrightarrow>
      \<forall>t \<in> set ts. (\<exists>evs. polled t = Inr evs) \<and> \<not> stopped t \<Longrightarrow>
      fst (run_loop handle callback ts r) = None" for r
  proof (induction ts arbitrary: r)
    case Nil
    then show ?case by simp
  next
    case (Cons t ts)
    then obtain evs where "polled t = Inr evs" "\<not> stopped t" by auto
    from run_turn_direct [OF Cons.prems(1) this] obtain r' where
      r': "run_turn handle callback t r = (Ok (), r')" "options r' = options r" "running r' = running r"
      by blast
    have "fst (run_loop handle callback ts r') = None"
      using Cons.prems r'(2,3) by (intro Cons.IH) auto
    then show ?case
      using Cons.prems(2) r'(1) by simp
  qed
  note claim = this [of "(shutdown_reactor (reactor el))\<lparr>running := True\<rparr>"]
  have "fst (run handle callback ts (shutdown_reactor (reactor el))) = None"
    unfolding run_def using assms by (intro claim) (simp_all add: shutdown_reactor_def)
  then show ?thesis
    by (simp add: loop_run_def stop_def case_prod_beta Let_def)
qed


definition quiet_turn :: turn where
  "quiet_turn = \<lparr>asked_at = 0, polled = Inr [], tick_at = 0, tick_end = 0, stopped = False\<rparr>"

theorem early_stop_lost_witness:
  "fst (loop_run counting (\<lambda>cb tw. tw) [quiet_turn, quiet_turn]
     (stop (new_low_latency (Some 1) 150 0 0 :: (nat, nat, nat, nat) event_loop))) = None"
  by (rule early_stop_lost)
    (simp_all add: new_low_latency_def reactor_new_with_options_def quiet_turn_def)

lemma dispatch_all_fails:
  "\<not> direct_dispatch (options r) \<Longrightarrow> workers (pool r) \<noteq> [] \<Longrightarrow>
   unat (next_worker (pool r)) + length evs < 2 ^ 64 \<Longrightarrow>
   i < length evs \<Longrightarrow> send_result (pool r) (unat (next_worker (pool r)) + i) \<noteq> Ok () \<Longrightarrow>
     \<exists>msg r'. dispatch_all handle evs r = (Err msg, r')"
proof (induction evs arbitrary: r i)
  case Nil
  then show ?case by simp
next
  case (Cons ev evs)
  obtain x p where one: "exec ev (pool r) = (x, p)" by fastforce
  note step = exec_threads [OF Cons.prems(2) one]
  show ?case
  proof (cases "x = Ok ()")
    case False
    then obtain msg where "x = Err msg"
      using step(1) by (auto simp: send_result_def split: if_splits)
    then show ?thesis
      using Cons.prems(1) one by (simp add: dispatch_event_def)
  next
    case True
    let ?r = "r\<lparr>pool := p\<rparr>"
    have ne: "workers p \<noteq> []"
      using step(3) Cons.prems(2) by (metis map_is_Nil_conv)
    have c: "unat (next_worker p) = Suc (unat (next_worker (pool r)))"
      using Cons.prems(3) unat_add_no_wrap [of "next_worker (pool r)" 1] by (simp add: step(2))
    obtain j where i: "i = Suc j"
      using Cons.prems(5) step(1) True by (cases i) auto
    have "\<exists>msg r'. dispatch_all handle evs ?r = (Err msg, r')"
    proof (rule Cons.IH)
      show "send_result (pool ?r) (unat (next_worker (pool ?r)) + j) \<noteq> Ok ()"
        using Cons.prems(5) send_result_threads [OF step(3) Cons.prems(2)] by (simp add: c i)
    qed (use Cons.prems ne c i in simp_all)
    then show ?thesis
      using Cons.prems(1) one True by (simp add: dispatch_event_def)
  qed
qed

text \<open>Once the thread of a worker has ended, a turn of the loop that polls at least as many
  events as there are workers ends \<open>run\<close> with an error, before the timers are ticked.\<close>

theorem dead_worker_ends_run:
  assumes "\<not> direct_dispatch (options r)" and "k < length (workers (pool r))"
    and "thread (workers (pool r) ! k) \<noteq> Running" and "polled t = Inr evs"
    and "length (workers (pool r)) \<le> length evs" and "unat (next_worker (pool r)) + length evs < 2 ^ 64"
  shows "\<exists>msg. fst (run handle callback (t # ts) r) = Some (Err msg)"
proof -
  let ?n = "length (workers (pool r))" and ?c = "unat (next_worker (pool r))"
  let ?i = "(k + ?n - ?c mod ?n) mod ?n"
  have n: "0 < ?n"
    using assms(2) by linarith
  then have i: "?i < ?n"
    by (rule mod_less_divisor)
  have "(?c + ?i) mod ?n = (?c mod ?n + (k + ?n - ?c mod ?n)) mod ?n"
    by (simp add: mod_simps)
  also have "?c mod ?n + (k + ?n - ?c mod ?n) = k + ?n"
    using n mod_less_divisor [of ?n ?c] by linarith
  finally have "(?c + ?i) mod ?n = k"
    using assms(2) by simp
  then have dead: "send_result (pool r) (?c + ?i) \<noteq> Ok ()"
    using assms(3) by (simp add: send_result_def)
  obtain nx tw where timers: "wheel_time_until_next (asked_at t) (wheel r) = (nx, tw)"
    by fastforce
  have "\<exists>msg r'. dispatch_all handle evs (r\<lparr>running := True, wheel := tw\<rparr>) = (Err msg, r')"
  proof (rule dispatch_all_fails)
    show "?i < length evs"
      using i assms(5) by linarith
  qed (use assms dead n in auto)
  then show ?thesis
    using assms(4) timers by (auto simp: run_def run_turn_def Let_def)
qed

theorem dead_worker_ends_run_witness:
  "\<exists>msg. fst (run counting (\<lambda>cb tw. tw) [quiet_turn\<lparr>polled := Inr [readable_event 5]\<rparr>]
     (sample_reactor\<lparr>pool := \<lparr>workers = [(worker_new 0)\<lparr>thread := Panicked\<rparr>], next_worker = 1\<rparr>\<rparr>))
     = Some (Err msg)"
  by (rule dead_worker_ends_run [where k = 0 and evs = "[readable_event 5]"])
    (simp_all add: sample_reactor_def reactor_new_def reactor_new_with_options_def quiet_turn_def)

end
