(* ===== verification/Loop_Timers.thy ===== *)
theory Loop_Timers
  imports Event_Loop
begin

section \<open>Timers under the event loop\<close>

text \<open>
  \<open>run\<close> of \<^verbatim>\<open>mill-io/src/reactor.rs\<close> ticks the timer wheel once in each turn, with callbacks
  that schedule and cancel timers of the same wheel. \<open>loop_fired\<close> records what the turns of a run
  fire, in order; the lemmas follow one timer from turn to turn, whatever the others do.
\<close>

subsection \<open>What a run fires\<close>

text \<open>A turn without its events: the loop asks the wheel for the next deadline, and ticks it.\<close>

definition turn_tick :: "('cb \<Rightarrow> 'cb timer_wheel \<Rightarrow> 'cb timer_wheel) \<Rightarrow> turn
    \<Rightarrow> 'cb timer_wheel \<Rightarrow> 'cb timer_entry list \<times> 'cb timer_wheel" where
  "turn_tick callback t tw =
     tick callback (tick_at t) (tick_end t) (snd (wheel_time_until_next (asked_at t) tw))"

definition turn_fired :: "('h, 'u) handling \<Rightarrow> ('cb \<Rightarrow> 'cb timer_wheel \<Rightarrow> 'cb timer_wheel) \<Rightarrow> turn
    \<Rightarrow> ('h, 'u, 'cb, 't) reactor \<Rightarrow> 'cb timer_entry list" where
  "turn_fired handle callback t r =
     (case run_turn handle callback t r of
        (Ok _, _) \<Rightarrow> fst (turn_tick callback t (wheel r))
      | _ \<Rightarrow> [])"

fun loop_fired :: "('h, 'u) handling \<Rightarrow> ('cb \<Rightarrow> 'cb timer_wheel \<Rightarrow> 'cb timer_wheel) \<Rightarrow> turn list
    \<Rightarrow> ('h, 'u, 'cb, 't) reactor \<Rightarrow> 'cb timer_entry list" where
  "loop_fired handle callback [] r = []"
| "loop_fired handle callback (t # ts) r =
     (if running r then
        turn_fired handle callback t r @
          (case run_turn handle callback t r of
             (Ok _, r) \<Rightarrow> loop_fired handle callback ts r
           | _ \<Rightarrow> [])
      else [])"

lemma dispatch_all_wheel:
  "dispatch_all handle evs r = (x, r') \<Longrightarrow> wheel r' = wheel r \<and> running r' = running r"
proof (induction evs arbitrary: r)
  case (Cons ev evs)
  obtain y r1 where one: "dispatch_event handle ev r = (y, r1)"
    by fastforce
  then have "wheel r1 = wheel r \<and> running r1 = running r"
    by (auto simp: dispatch_event_def Let_def split: if_splits prod.splits)
  with Cons one show ?case
    by (auto split: outcome.splits)
qed simp

lemma run_turn_wheel:
  assumes "run_turn handle callback t r = (Ok x, r')"
  shows "wheel r' = snd (turn_tick callback t (wheel r))"
  using assms
  by (auto simp: run_turn_def turn_tick_def shutdown_reactor_def Let_def dest!: dispatch_all_wheel
      split: prod.splits sum.splits outcome.splits if_splits)

text \<open>A run that is still going has fired in each of its turns what the wheel's ticks fired.\<close>

lemma loop_fired_by:
  "fst (run_loop handle callback ts r) = None \<Longrightarrow>
     loop_fired handle callback ts r = fired_by (turn_tick callback) ts (wheel r)"
proof (induction ts arbitrary: r)
  case (Cons t ts)
  from Cons.prems have "running r"
    by (cases "running r") simp_all
  moreover obtain x r' where step: "run_turn handle callback t r = (x, r')"
    by fastforce
  ultimately have "\<exists>y. x = Ok y" "fst (run_loop handle callback ts r') = None"
    using Cons.prems by (auto split: outcome.splits)
  with Cons.IH [of r'] step \<open>running r\<close> run_turn_wheel [of handle callback t r _ r'] show ?case
    by (auto simp: turn_fired_def case_prod_beta Let_def)
qed simp

subsection \<open>One turn of the wheel\<close>

lemma time_until_next_eq: "\<exists>x. snd (time_until_next now w) = w\<lparr>earliest_deadline := x\<rparr>"
proof (cases "timer_count w = 0 \<or> earliest_deadline w \<noteq> None")
  case True
  then have "snd (time_until_next now w) = w\<lparr>earliest_deadline := earliest_deadline w\<rparr>"
    by (auto simp: time_until_next_def Let_def)
  then show ?thesis ..
next
  case False
  then have "snd (time_until_next now w) = snd (recompute_earliest w)"
    by (auto simp: time_until_next_def Let_def split: prod.splits option.splits)
  then show ?thesis
    by (auto simp: recompute_earliest_def Let_def)
qed

lemma asked_spec:
  fixes now :: instant
  assumes "service_inv tw"
  defines "tw' \<equiv> snd (wheel_time_until_next now tw)"
  shows "service_inv tw'" and "lookup (inner tw') = lookup (inner tw)" and "in_flight (inner tw') = in_flight (inner tw)"
    and "next_id tw' = next_id tw" and "start_time (inner tw') = start_time (inner tw)"
    and "cursor (inner tw') = cursor (inner tw)"
proof -
  obtain x where x: "snd (time_until_next now (inner tw)) = (inner tw)\<lparr>earliest_deadline := x\<rparr>"
    using time_until_next_eq by blast
  have tw': "tw' = tw\<lparr>inner := (inner tw)\<lparr>earliest_deadline := x\<rparr>\<rparr>"
    using x by (simp add: tw'_def wheel_time_until_next_def case_prod_beta Let_def)
  have "wheel_inv (inner tw)"
    using assms(1) by (simp add: service_inv_def ids_inv_def)
  from time_until_next_spec [OF this prod.collapse [symmetric], of now] x
  have "wheel_inv ((inner tw)\<lparr>earliest_deadline := x\<rparr>)"
    by simp
  with assms(1) show "service_inv tw'"
    by (simp add: tw' service_inv_def ids_inv_def)
  show "lookup (inner tw') = lookup (inner tw)" "in_flight (inner tw') = in_flight (inner tw)"
    "next_id tw' = next_id tw" "start_time (inner tw') = start_time (inner tw)" "cursor (inner tw') = cursor (inner tw)"
    by (simp_all add: tw' fun_eq_iff)
qed

text \<open>The callbacks of a turn neither run out of ids nor wrap a deadline, nor does a repeating
  timer, and no callback cancels timer \<open>i\<close>; the clock does not run backwards.\<close>

type_synonym 'cb callback_ops = "'cb \<Rightarrow> (instant \<times> 'cb timer_op) list"

definition turn_ok :: "'cb callback_ops \<Rightarrow> timer_id \<Rightarrow> turn \<Rightarrow> 'cb timer_wheel \<Rightarrow> bool" where
  "turn_ok prog i t tw =
     (let (ex, w) = advance_to (tick_at t) (inner (snd (wheel_time_until_next (asked_at t) tw)));
          ops = concat (map (entry_ops prog) ex)
      in ops_ok ops (tw\<lparr>inner := w\<rparr>) \<and> i \<notin> cancels ops
         \<and> cursor w \<le> tick_of w (tick_end t)
         \<and> list_all (\<lambda>e. tick_of w (tick_end t) + interval_ticks e < 2 ^ 64) ex)"

fun turns_ok :: "'cb callback_ops \<Rightarrow> timer_id \<Rightarrow> turn list \<Rightarrow> 'cb timer_wheel \<Rightarrow> bool" where
  "turns_ok prog i [] tw = True"
| "turns_ok prog i (t # ts) tw \<longleftrightarrow> turn_ok prog i t tw
     \<and> turns_ok prog i ts (snd (turn_tick (\<lambda>cb. run_ops (prog cb)) t tw))"

definition idle_wheel :: "'cb timer_wheel \<Rightarrow> bool" where
  "idle_wheel tw \<longleftrightarrow> service_inv tw \<and> in_flight (inner tw) = {}"

lemma turn_tick_spec:
  assumes idle: "idle_wheel tw" and ok: "turn_ok prog i t tw"
    and run: "turn_tick (\<lambda>cb. run_ops (prog cb)) t tw = (ex, tw')"
  shows "idle_wheel tw'" and "next_id tw \<le> next_id tw'"
    and "instant_to_tick (inner tw') = instant_to_tick (inner tw)"
    and "distinct (map entry_id ex)"
    and "e \<in> set ex \<Longrightarrow> lookup (inner tw) (entry_id e) = Some e \<and> due_tick e \<le> tick_of (inner tw) (tick_at t)"
    and "lookup (inner tw) i = Some e \<Longrightarrow> due_tick e < tick_of (inner tw) (tick_at t) \<Longrightarrow> e \<in> set ex"
    and "i < next_id tw \<Longrightarrow> lookup (inner tw) i = None \<Longrightarrow> lookup (inner tw') i = None"
    and "i < next_id tw \<Longrightarrow> lookup (inner tw) i = Some e \<Longrightarrow> \<not> is_repeating e \<Longrightarrow>
      lookup (inner tw') i = (if e \<in> set ex then None else Some e)"
proof -
  let ?tw1 = "snd (wheel_time_until_next (asked_at t) tw)"
  have inv: "service_inv tw"
    using idle by (simp add: idle_wheel_def)
  note asked = asked_spec [OF inv, of "asked_at t"]
  obtain ex1 w1 where adv: "advance_to (tick_at t) (inner ?tw1) = (ex1, w1)"
    by fastforce
  have quiet: "in_flight (inner ?tw1) = {}" and w: "wheel_inv (inner ?tw1)"
    using idle asked by (simp_all add: idle_wheel_def service_inv_def ids_inv_def)
  have ops: "ops_ok (concat (map (entry_ops prog) ex1)) (?tw1\<lparr>inner := w1\<rparr>)"
    and uncut: "i \<notin> cancels (concat (map (entry_ops prog) ex1))"
    and later: "cursor w1 \<le> tick_of w1 (tick_end t)"
      "\<forall>e \<in> set ex1. tick_of w1 (tick_end t) + interval_ticks e < 2 ^ 64"
    using ok adv asked(4) by (simp_all add: turn_ok_def ops_ok_def list_all_iff Let_def)
  have tk: "tick (\<lambda>cb. run_ops (prog cb)) (tick_at t) (tick_end t) ?tw1 = (ex, tw')"
    using run by (simp add: turn_tick_def)
  note spec = tick_spec [OF asked(1) quiet adv ops later tk]
  note advance = advance_to_spec [OF w adv]
  have ex: "ex = ex1"
    by (rule spec(1))
  have ticks: "instant_to_tick (inner ?tw1) = instant_to_tick (inner tw)"
    by (rule tick_of_start) (rule asked(5))
  show "idle_wheel tw'"
    using spec by (simp add: idle_wheel_def)
  show "distinct (map entry_id ex)"
    using advance by (simp add: ex taken_def)
  have w1: "instant_to_tick w1 = instant_to_tick (inner tw)"
    using advance_to_frame(1) [OF adv w] ticks tick_of_start by metis
  have "next_id ?tw1 \<le> next_id tw' \<and> instant_to_tick (inner tw') = instant_to_tick w1"
  proof (cases "ex1 = []")
    case True
    then show ?thesis
      using tick_unfold(2) [OF tk adv] by simp
  next
    case False
    note restored = rescheduled [OF asked(1) quiet adv ops later False tk]
      and called = called_back_spec [OF asked(1) quiet adv ops]
    have "start_time (inner tw') = start_time (inner (called_back prog ex1 w1 ?tw1))"
      using restored(1) by (simp add: put_back_def)
    from tick_of_start [OF this] called(2,6) restored(2) show ?thesis
      by simp
  qed
  then show "next_id tw \<le> next_id tw'" "instant_to_tick (inner tw') = instant_to_tick (inner tw)"
    using asked(4) w1 by simp_all
  show "e \<in> set ex \<Longrightarrow> lookup (inner tw) (entry_id e) = Some e \<and> due_tick e \<le> tick_of (inner tw) (tick_at t)"
    using advance wq.advance_due [OF w adv, of e] by (simp add: ex taken_def asked(2) ticks)
  show "lookup (inner tw) i = Some e \<Longrightarrow> due_tick e < tick_of (inner tw) (tick_at t) \<Longrightarrow> e \<in> set ex"
    using wq.advance_all [OF w adv, of i e] by (simp add: ex asked(2) ticks)
  have at_id: "\<forall>x \<in> set ex. lookup (inner tw) (entry_id x) = Some x"
    using advance by (simp add: ex taken_def asked(2))
  have rest: "lookup w1 j = Some x \<longleftrightarrow> lookup (inner tw) j = Some x \<and> x \<notin> set ex" for j x
    using wq.advance_rest [OF w adv, of j x] by (simp only: ex asked(2))
  have kept: "lookup w1 i = (case lookup (inner tw) i of None \<Rightarrow> None | Some e \<Rightarrow> if e \<in> set ex then None else Some e)"
    using rest [of i] by (cases "lookup (inner tw) i"; cases "lookup w1 i") (simp; metis)+
  have after: "lookup (inner tw') i = (if i \<in> entry_id ` set (filter is_repeating ex)
      then map_option (rearmed (instant_to_tick w1 (tick_end t))) (lookup (inner tw) i) else lookup w1 i)"
    if "i < next_id tw"
    using spec(5) that uncut by (simp add: ex asked(2,4))
  show "i < next_id tw \<Longrightarrow> lookup (inner tw) i = None \<Longrightarrow> lookup (inner tw') i = None"
    using after kept by simp
  show "lookup (inner tw') i = (if e \<in> set ex then None else Some e)"
    if "i < next_id tw" "lookup (inner tw) i = Some e" "\<not> is_repeating e"
  proof -
    have "i \<notin> entry_id ` set (filter is_repeating ex)"
      using at_id that(2,3) by fastforce
    then show ?thesis
      using after kept that by simp
  qed
qed

subsection \<open>A timer through a run\<close>

abbreviation firings_of :: "timer_id \<Rightarrow> 'cb timer_entry list \<Rightarrow> 'cb timer_entry list" where
  "firings_of i es \<equiv> filter (\<lambda>x. entry_id x = i) es"

lemma fired_gone:
  "idle_wheel tw \<Longrightarrow> turns_ok prog i ts tw \<Longrightarrow> i < next_id tw \<Longrightarrow> lookup (inner tw) i = None \<Longrightarrow>
     firings_of i (fired_by (turn_tick (\<lambda>cb. run_ops (prog cb))) ts tw) = []"
proof (induction ts arbitrary: tw)
  case (Cons t ts)
  obtain ex tw' where run: "turn_tick (\<lambda>cb. run_ops (prog cb)) t tw = (ex, tw')"
    by fastforce
  have ok: "turn_ok prog i t tw" "turns_ok prog i ts tw'"
    using Cons.prems(2) run by simp_all
  note turn = turn_tick_spec [OF Cons.prems(1) ok(1) run]
  have "firings_of i (fired_by (turn_tick (\<lambda>cb. run_ops (prog cb))) ts tw') = []"
    using Cons.prems(3,4) turn(1,2,7) ok(2) by (intro Cons.IH) (auto intro: order_less_le_trans)
  moreover have "firings_of i ex = []"
    using turn(5) Cons.prems(4) by (auto simp: filter_empty_conv)
  ultimately show ?case
    by (simp add: run)
qed simp

lemma filter_distinct_key:
  "distinct (map f xs) \<Longrightarrow> x \<in> set xs \<Longrightarrow> filter (\<lambda>y. f y = f x) xs = [x]"
proof (induction xs)
  case (Cons a xs)
  show ?case
  proof (cases "a = x")
    case True
    with Cons.prems(1) have "\<forall>y \<in> set xs. f y \<noteq> f x"
      by (metis distinct.simps(2) image_eqI list.set_map list.simps(9))
    with True show ?thesis
      by (simp add: filter_empty_conv)
  next
    case False
    with Cons.prems have "x \<in> set xs" "f a \<noteq> f x"
      by auto
    with Cons show ?thesis
      by simp
  qed
qed simp

lemma fired_through:
  "idle_wheel tw \<Longrightarrow> turns_ok prog i ts tw \<Longrightarrow> i < next_id tw \<Longrightarrow> lookup (inner tw) i = Some e \<Longrightarrow>
   \<not> is_repeating e \<Longrightarrow> fired = firings_of i (fired_by (turn_tick (\<lambda>cb. run_ops (prog cb))) ts tw) \<Longrightarrow>
     (fired = [] \<or> fired = [e])
     \<and> ((\<exists>t \<in> set ts. due_tick e < tick_of (inner tw) (tick_at t)) \<longrightarrow> fired = [e])
     \<and> ((\<forall>t \<in> set ts. tick_of (inner tw) (tick_at t) < due_tick e) \<longrightarrow> fired = [])"
proof (induction ts arbitrary: tw fired)
  case (Cons t ts)
  obtain ex tw' where run: "turn_tick (\<lambda>cb. run_ops (prog cb)) t tw = (ex, tw')"
    by fastforce
  have ok: "turn_ok prog i t tw" "turns_ok prog i ts tw'"
    using Cons.prems(2) run by simp_all
  note turn = turn_tick_spec [OF Cons.prems(1) ok(1) run]
  have id': "i < next_id tw'"
    using Cons.prems(3) turn(2) by (rule order_less_le_trans)
  let ?rest = "firings_of i (fired_by (turn_tick (\<lambda>cb. run_ops (prog cb))) ts tw')"
  have fired: "fired = firings_of i ex @ ?rest"
    by (simp add: Cons.prems(6) run)
  have id: "entry_id e = i"
    using Cons.prems(1,4) by (auto simp: idle_wheel_def service_inv_def ids_inv_def wheel_inv_def store_ok_def)
  show ?case
  proof (cases "e \<in> set ex")
    case True
    then have "lookup (inner tw') i = None"
      using turn(8) Cons.prems(3-5) by simp
    with turn(1) ok(2) id' have "?rest = []"
      by (intro fired_gone)
    moreover have "firings_of i ex = [e]"
      using filter_distinct_key [OF turn(4) True] id by simp
    ultimately show ?thesis
      using turn(5) [OF True] by (auto simp: fired)
  next
    case False
    then have here: "lookup (inner tw') i = Some e" and "\<not> due_tick e < tick_of (inner tw) (tick_at t)"
      using turn(6,8) Cons.prems(3-5) by auto
    moreover have "firings_of i ex = []"
      using turn(5) False Cons.prems(4) by (auto simp: filter_empty_conv)
    ultimately show ?thesis
      using Cons.IH [OF turn(1) ok(2) id' here Cons.prems(5) refl] by (simp add: fired turn(3))
  qed
qed simp

text \<open>C20: a one-shot timer scheduled on an event loop fires exactly once if the loop runs: in the
  turns up to the first whose tick is past the deadline, whatever events come in, however long the
  polls sleep, and whatever timers the callbacks schedule and cancel besides; and not before.\<close>

theorem scheduled_timer_fires:
  assumes "idle_wheel (wheel (reactor el))" and "schedulable now delay (wheel (reactor el))"
    and "loop_schedule_once delay cb now el = (i, el')"
    and "callback = (\<lambda>cb. run_ops (prog cb))" and "turns_ok prog i ts (wheel (reactor el'))"
    and "fst (loop_run handle callback ts el') = None"
    and "deadline = tick_of (inner (wheel (reactor el))) now + unat (as_millis_u64 delay)"
    and "clock = (\<lambda>t. tick_of (inner (wheel (reactor el))) (tick_at t))"
    and "fired = firings_of i (loop_fired handle callback ts ((reactor el')\<lparr>running := True\<rparr>))"
  shows "length fired \<le> 1 \<and> (\<forall>e \<in> set fired. kind e = Once (Some cb))
    \<and> ((\<exists>t \<in> set ts. deadline < clock t) \<longrightarrow> length fired = 1)
    \<and> ((\<forall>t \<in> set ts. clock t < deadline) \<longrightarrow> fired = [])"
proof -
  let ?tw = "wheel (reactor el)" and ?tw' = "wheel (reactor el')"
  have inv: "service_inv ?tw"
    using assms(1) by (simp add: idle_wheel_def)
  have add: "add_timer delay (Once (Some cb)) now ?tw = (i, ?tw')"
    using assms(3) by (auto simp: loop_schedule_once_def schedule_add_timer split: prod.splits)
  note spec = add_timer_spec [OF inv assms(2) add]
  obtain e where e: "lookup (inner ?tw') i = Some e" "kind e = Once (Some cb)" "due_tick e = deadline"
    using spec assms(7) by auto
  have idle: "idle_wheel ?tw'" and clock: "clock = (\<lambda>t. tick_of (inner ?tw') (tick_at t))"
    using spec assms(1,8) tick_of_start [of "inner ?tw'" "inner ?tw"] by (simp_all add: idle_wheel_def)
  have id: "i < next_id ?tw'"
    using spec assms(2) add next_id_less [of "next_id ?tw"] by (auto simp: add_timer_def schedulable_def)
  have "fst (run_loop handle callback ts ((reactor el')\<lparr>running := True\<rparr>)) = None"
    using assms(6) by (simp add: loop_run_def run_def case_prod_beta Let_def)
  note log = loop_fired_by [OF this]
  have "fired = firings_of i (fired_by (turn_tick (\<lambda>cb. run_ops (prog cb))) ts ?tw')"
    by (simp add: assms(9) log) (simp add: assms(4))
  from fired_through [OF idle assms(5) id e(1) _ this] e(2) show ?thesis
    by (auto simp: is_repeating_def e(3) clock)
qed

subsection \<open>Samples\<close>

text \<open>A callback that schedules another timer and cancels one that is not there, on a loop with the
  timers of the sample wheel; and a turn at 7 ms.\<close>

definition busy_prog :: "nat callback_ops" where
  "busy_prog cb = (if cb = 20 then [(7000000, Schedule_once 2000000 30), (7000000, Cancel 99)] else [])"

definition busy_loop :: "(nat, nat, nat, nat) event_loop" where
  "busy_loop = (let el = new_low_latency (Some 1) 150 0 0
     in el\<lparr>reactor := (reactor el)\<lparr>wheel := sample_wheel\<rparr>\<rparr>)"

definition busy_turn :: turn where
  "busy_turn = quiet_turn\<lparr>tick_at := 7000000, tick_end := 7000000\<rparr>"

lemma busy_schedulable: "schedulable 0 5000000 sample_wheel"
  by (simp add: schedulable_def sample_wheel_facts sample_tick as_millis_u64_def)

lemma busy_ops_length: "length (concat (map (entry_ops busy_prog) ex)) \<le> 2 * length ex"
proof (induction ex)
  case (Cons e ex)
  moreover have "length (entry_ops busy_prog e) \<le> 2"
    by (auto simp: entry_ops_def busy_prog_def split: timer_kind.splits option.splits)
  ultimately show ?case
    by simp
qed simp

lemma busy_ops_in: "set (concat (map (entry_ops busy_prog) ex))
    \<subseteq> {(7000000, Schedule_once 2000000 30), (7000000, Cancel 99)}"
proof -
  have "set (busy_prog cb) \<subseteq> {(7000000, Schedule_once 2000000 30), (7000000, Cancel 99)}" for cb
    by (auto simp: busy_prog_def)
  then have "set (entry_ops busy_prog e) \<subseteq> {(7000000, Schedule_once 2000000 30), (7000000, Cancel 99)}" for e
    unfolding entry_ops_def by (auto split: timer_kind.splits option.splits dest!: subsetD)
  then show ?thesis
    by fastforce
qed

lemma busy_turn_ok:
  assumes "loop_schedule_once 5000000 70 0 busy_loop = (i, el')"
  shows "turns_ok busy_prog i [busy_turn] (wheel (reactor el'))" and "i = 3"
proof -
  let ?tw = "wheel (reactor el')"
  have base: "wheel (reactor busy_loop) = sample_wheel"
    by (simp add: busy_loop_def Let_def)
  have add: "add_timer 5000000 (Once (Some 70)) 0 sample_wheel = (i, ?tw)"
    using assms base by (auto simp: loop_schedule_once_def schedule_add_timer split: prod.splits)
  note spec = add_timer_spec [OF sample_wheel_facts(1) busy_schedulable add]
  have "i = next_id sample_wheel"
    using add by (simp add: add_timer_def)
  then show "i = 3"
    by (simp add: sample_wheel_facts)
  note asked = asked_spec [of ?tw 0]
  let ?tw1 = "snd (wheel_time_until_next 0 ?tw)"
  have inv: "service_inv ?tw" and next_id: "next_id ?tw = 4" and start: "start_time (inner ?tw) = 0"
    using spec by (simp_all add: sample_wheel_facts)
  obtain ex w1 where adv: "advance_to 7000000 (inner ?tw1) = (ex, w1)"
    by fastforce
  have w: "wheel_inv (inner ?tw1)"
    using asked(1) inv by (simp add: service_inv_def ids_inv_def)
  note advance = advance_to_spec [OF w adv]
  have ticks: "tick_of w1 7000000 = 7" "tick_of (inner ?tw1) 7000000 = 7"
    using advance_to_frame(1) [OF adv w] asked(5) inv start
    by (simp_all add: instant_to_tick_def as_millis_u64_def)
  have look: "lookup (inner ?tw1) = (lookup (inner sample_wheel))(3 \<mapsto>
      \<lparr>entry_id = 3, deadline_tick = 5, kind = Once (Some 70)\<rparr>)"
    using asked(2) inv add_timer_lookup [of 5000000 "Once (Some 70)" 0 sample_wheel] add
    by (simp add: sample_wheel_facts sample_tick as_millis_u64_def)
  let ?es = "{sample_once, sample_repeating, \<lparr>entry_id = 3, deadline_tick = 5, kind = Once (Some 70)\<rparr>}"
  have "set ex \<subseteq> ?es"
    using advance by (auto simp: look sample_wheel_facts split: if_splits)
  moreover from this have "list_all (\<lambda>e. 7 + interval_ticks e < 2 ^ 64) ex"
    by (auto simp: list_all_iff interval_ticks_def sample_once_def sample_repeating_def as_millis_u64_def)
  ultimately have ex: "set ex \<subseteq> ?es" "list_all (\<lambda>e. 7 + interval_ticks e < 2 ^ 64) ex"
    by simp_all
  have "cursor w1 = 7"
    using advance ticks(2) asked(6) inv spec by (simp add: sample_wheel_facts)
  moreover have "i \<notin> cancels (concat (map (entry_ops busy_prog) ex))"
    using busy_ops_in [of ex] by (auto simp: cancels_def \<open>i = 3\<close>)
  moreover have "ops_ok (concat (map (entry_ops busy_prog) ex)) (?tw\<lparr>inner := w1\<rparr>)"
  proof -
    have "distinct ex"
      using advance by (simp add: taken_def distinct_map)
    then have "length ex \<le> 3"
      using card_mono [OF _ ex(1)] by (simp add: distinct_card [symmetric] card_insert_if split: if_splits)
    then have "unat (next_id ?tw) + length (concat (map (entry_ops busy_prog) ex)) < 2 ^ 64"
      using busy_ops_length [of ex] by (simp add: next_id del: length_concat)
    then show ?thesis
      using busy_ops_in [of ex] ticks(1) \<open>cursor w1 = 7\<close> unfolding ops_ok_def
      by (fastforce simp: as_millis_u64_def)
  qed
  ultimately show "turns_ok busy_prog i [busy_turn] ?tw"
    using adv ticks(1) ex(2)
    by (simp add: turn_ok_def busy_turn_def quiet_turn_def Let_def del: set_concat length_concat)
qed

theorem scheduled_timer_fires_witness:
  "length (firings_of 3 (loop_fired counting (\<lambda>cb. run_ops (busy_prog cb)) [busy_turn]
     ((reactor (snd (loop_schedule_once 5000000 70 0 busy_loop)))\<lparr>running := True\<rparr>))) = 1"
proof -
  obtain i el' where sched: "loop_schedule_once 5000000 70 0 busy_loop = (i, el')"
    by fastforce
  note ok = busy_turn_ok [OF sched]
  have base: "wheel (reactor busy_loop) = sample_wheel" and direct: "direct_dispatch (options (reactor busy_loop))"
    by (simp_all add: busy_loop_def Let_def new_low_latency_def reactor_new_with_options_def)
  have "options (reactor el') = options (reactor busy_loop)"
    using sched by (auto simp: loop_schedule_once_def split: prod.splits)
  with direct have "direct_dispatch (options ((reactor el')\<lparr>running := True\<rparr>))"
    by simp
  from run_turn_direct [OF this, of busy_turn "[]" counting "\<lambda>cb. run_ops (busy_prog cb)"]
  obtain r where "run_turn counting (\<lambda>cb. run_ops (busy_prog cb)) busy_turn ((reactor el')\<lparr>running := True\<rparr>) = (Ok (), r)"
      "running r"
    by (auto simp: busy_turn_def quiet_turn_def)
  then have goes: "fst (loop_run counting (\<lambda>cb. run_ops (busy_prog cb)) [busy_turn] el') = None"
    by (simp add: loop_run_def run_def)
  have "idle_wheel (wheel (reactor busy_loop))" "schedulable 0 5000000 (wheel (reactor busy_loop))"
    by (simp_all add: base idle_wheel_def sample_wheel_facts busy_schedulable)
  from scheduled_timer_fires [OF this sched refl ok(1) goes refl refl refl] show ?thesis
    by (simp add: sched ok(2) [symmetric] base sample_tick as_millis_u64_def busy_turn_def)
qed

end
