(* ===== verification/Net_Types.thy ===== *)
theory Net_Types
  imports Prelude
begin

section \<open>Types of the network layer\<close>

text \<open>
  \<^verbatim>\<open>mill-net/src/errors.rs\<close>, \<^verbatim>\<open>tcp/traits.rs\<close> and \<^verbatim>\<open>tcp/config.rs\<close>: errors and
  events, connection ids, the handler trait and the server's configuration with its builder.
  A socket address is its printed form.
\<close>

type_synonym socket_addr = string
type_synonym connection_id = u64

definition connection_id_new :: "u64 \<Rightarrow> connection_id" where
  "connection_id_new i = i"

definition as_u64 :: "connection_id \<Rightarrow> u64" where
  "as_u64 i = i"

datatype network_error =
    Io string
  | Accept string
  | Connect string
  | PoisonedLock string
  | MaxConnectionsReached socket_addr
  | Configuration string
  | HandlerError string
  | EventLoopGone
  | ConnectionNotFound connection_id
  | Other string

definition show_connection_id :: "connection_id \<Rightarrow> string" where
  "show_connection_id i = ''ConnectionId('' @ show_dec (unat i) @ '')''"

fun show_network_error :: "network_error \<Rightarrow> string" where
  "show_network_error (Io e) = ''IO Error: '' @ e"
| "show_network_error (Accept e) = ''Accept Error: '' @ e"
| "show_network_error (Connect e) = ''Connect Error: '' @ e"
| "show_network_error (PoisonedLock msg) = ''Lock Poisoned: '' @ msg"
| "show_network_error (MaxConnectionsReached addr) = ''Max connections reached, rejecting '' @ addr"
| "show_network_error (Configuration msg) = ''Configuration Error: '' @ msg"
| "show_network_error (HandlerError msg) = ''Handler Error: '' @ msg"
| "show_network_error EventLoopGone = ''EventLoop is gone''"
| "show_network_error (ConnectionNotFound i) = ''Connection not found: '' @ show_connection_id i"
| "show_network_error (Other msg) = ''Error: '' @ msg"

definition from_io_error :: "string \<Rightarrow> network_error" where
  "from_io_error e = Io e"

datatype network_event =
    ConnectionEstablished connection_id socket_addr
  | ConnectionClosed connection_id
  | Listening socket_addr

subsection \<open>Handlers\<close>

text \<open>The trait \<open>NetworkHandler\<close> over a state \<open>'s\<close> its methods may change; a method returns its
  error as text.\<close>

type_synonym 's fallible = "'s \<Rightarrow> string option \<times> 's"

record 's network_handler =
  on_event :: "network_event \<Rightarrow> 's fallible"
  on_connect :: "connection_id \<Rightarrow> 's fallible"
  on_data :: "connection_id \<Rightarrow> bytes \<Rightarrow> 's fallible"
  on_disconnect :: "connection_id \<Rightarrow> 's fallible"
  on_writable :: "connection_id \<Rightarrow> 's fallible"
  on_error :: "connection_id option \<Rightarrow> network_error \<Rightarrow> 's \<Rightarrow> 's"

text \<open>The default methods; \<open>on_data\<close> has none.\<close>

definition default_handler :: "(connection_id \<Rightarrow> bytes \<Rightarrow> 's fallible) \<Rightarrow> 's network_handler" where
  "default_handler f =
     \<lparr>on_event = (\<lambda>_ s. (None, s)), on_connect = (\<lambda>_ s. (None, s)), on_data = f,
      on_disconnect = (\<lambda>_ s. (None, s)), on_writable = (\<lambda>_ s. (None, s)), on_error = (\<lambda>_ _ s. s)\<rparr>"

subsection \<open>Configuration\<close>

record tcp_server_config =
  address :: socket_addr
  buffer_size :: nat
  max_connections :: "nat option"
  no_delay :: bool
  keep_alive :: "duration option"

definition tcp_server_config_default :: tcp_server_config where
  "tcp_server_config_default = \<lparr>address = ''127.0.0.1:8080'', buffer_size = 8192,
     max_connections = None, no_delay = True, keep_alive = Some 60000000000\<rparr>"

record tcp_server_config_builder =
  b_address :: "socket_addr option"
  b_buffer_size :: "nat option"
  b_max_connections :: "nat option"
  b_no_delay :: "bool option"
  b_keep_alive :: "duration option option"

definition builder_new :: tcp_server_config_builder where
  "builder_new = \<lparr>b_address = None, b_buffer_size = None, b_max_connections = None,
     b_no_delay = None, b_keep_alive = None\<rparr>"

definition config_builder :: tcp_server_config_builder where
  "config_builder = builder_new"

definition set_address :: "socket_addr \<Rightarrow> tcp_server_config_builder \<Rightarrow> tcp_server_config_builder" where
  "set_address a b = b\<lparr>b_address := Some a\<rparr>"

definition set_buffer_size :: "nat \<Rightarrow> tcp_server_config_builder \<Rightarrow> tcp_server_config_builder" where
  "set_buffer_size n b = b\<lparr>b_buffer_size := Some n\<rparr>"

definition set_max_connections :: "nat \<Rightarrow> tcp_server_config_builder \<Rightarrow> tcp_server_config_builder" where
  "set_max_connections n b = b\<lparr>b_max_connections := Some n\<rparr>"

definition set_no_delay :: "bool \<Rightarrow> tcp_server_config_builder \<Rightarrow> tcp_server_config_builder" where
  "set_no_delay x b = b\<lparr>b_no_delay := Some x\<rparr>"

definition set_keep_alive :: "duration option \<Rightarrow> tcp_server_config_builder \<Rightarrow> tcp_server_config_builder" where
  "set_keep_alive d b = b\<lparr>b_keep_alive := Some d\<rparr>"

definition unwrap_or :: "'a option \<Rightarrow> 'a \<Rightarrow> 'a" where
  "unwrap_or x d = (case x of Some y \<Rightarrow> y | None \<Rightarrow> d)"

definition option_or :: "'a option \<Rightarrow> 'a option \<Rightarrow> 'a option" where
  "option_or x y = (case x of Some z \<Rightarrow> Some z | None \<Rightarrow> y)"

definition config_build :: "tcp_server_config_builder \<Rightarrow> tcp_server_config" where
  "config_build b =
     (let d = tcp_server_config_default in
      \<lparr>address = unwrap_or (b_address b) (address d),
       buffer_size = unwrap_or (b_buffer_size b) (buffer_size d),
       max_connections = option_or (b_max_connections b) (max_connections d),
       no_delay = unwrap_or (b_no_delay b) (no_delay d),
       keep_alive = unwrap_or (b_keep_alive b) (keep_alive d)\<rparr>)"

definition builder_default :: tcp_server_config_builder where
  "builder_default =
     (let d = tcp_server_config_default in
      \<lparr>b_address = Some (address d), b_buffer_size = Some (buffer_size d),
       b_max_connections = max_connections d, b_no_delay = Some (no_delay d),
       b_keep_alive = Some (keep_alive d)\<rparr>)"

text \<open>Both ways to start a builder give the default configuration.\<close>

lemma build_defaults: "config_build builder_new = tcp_server_config_default"
  "config_build builder_default = tcp_server_config_default"
  by (simp_all add: config_build_def builder_new_def builder_default_def unwrap_or_def option_or_def
      tcp_server_config_default_def Let_def)

end
