(* ===== verification/Object_Pool.thy ===== *)
theory Object_Pool
  imports Prelude
begin

section \<open>The object pool\<close>

text \<open>
  \<^verbatim>\<open>mill-io/src/object_pool.rs\<close>: objects wait in a channel; \<open>acquire\<close> takes the first or
  creates one, and a \<open>PooledObject\<close> goes back when it is dropped. \<open>acquire\<close> looks at the
  type of the object at run time: a byte vector is emptied and filled with zeros.
\<close>

datatype 'a poolable = Bytes bytes | Other 'a

definition IO_BUFFER_SIZE :: nat where
  "IO_BUFFER_SIZE = 8192"

record 'a object_pool =
  idle :: "'a poolable list"
  create_fn :: "'a poolable"

definition object_pool_new :: "nat \<Rightarrow> 'a poolable \<Rightarrow> 'a object_pool" where
  "object_pool_new initial_size create = \<lparr>idle = replicate initial_size create, create_fn = create\<rparr>"

definition reset_buffer :: "'a poolable \<Rightarrow> 'a poolable" where
  "reset_buffer x = (case x of Bytes _ \<Rightarrow> Bytes (replicate IO_BUFFER_SIZE 0) | Other y \<Rightarrow> Other y)"

type_synonym 'a pooled_object = "'a poolable option"

definition acquire :: "'a object_pool \<Rightarrow> 'a pooled_object \<times> 'a object_pool" where
  "acquire p = (case idle p of
      x # rest \<Rightarrow> (Some (reset_buffer x), p\<lparr>idle := rest\<rparr>)
    | [] \<Rightarrow> (Some (reset_buffer (create_fn p)), p))"

definition as_mut :: "'a pooled_object \<Rightarrow> 'a poolable outcome" where
  "as_mut x = (case x of Some y \<Rightarrow> Ok y | None \<Rightarrow> Panic ''PooledObject is empty'')"

definition as_ref :: "'a pooled_object \<Rightarrow> 'a poolable outcome" where
  "as_ref x = (case x of Some y \<Rightarrow> Ok y | None \<Rightarrow> Panic ''PooledObject is empty'')"

definition pooled_drop :: "'a pooled_object \<Rightarrow> 'a object_pool \<Rightarrow> 'a object_pool" where
  "pooled_drop x p = (case x of Some y \<Rightarrow> p\<lparr>idle := idle p @ [y]\<rparr> | None \<Rightarrow> p)"

text \<open>Clients of a pool of byte buffers: each holds a buffer, writes what it likes into it and
  drops it; \<open>use_pool\<close> returns the buffers as they were handed out.\<close>

fun use_pool :: "bytes list \<Rightarrow> 'a object_pool \<Rightarrow> 'a pooled_object list \<times> 'a object_pool" where
  "use_pool [] p = ([], p)"
| "use_pool (written # rest) p =
     (let (x, p) = acquire p;
          p = pooled_drop (map_option (\<lambda>_. Bytes written) x) p;
          (xs, p) = use_pool rest p
      in (x # xs, p))"

lemma reset_bytes: "reset_buffer (Bytes b) = Bytes (replicate IO_BUFFER_SIZE 0)"
  by (simp add: reset_buffer_def)

definition bytes_only :: "'a object_pool \<Rightarrow> bool" where
  "bytes_only p \<longleftrightarrow> (\<forall>x \<in> insert (create_fn p) (set (idle p)). \<exists>b. x = Bytes b)"

lemma acquire_bytes:
  assumes "bytes_only p" and "acquire p = (x, p')"
  shows "x = Some (Bytes (replicate IO_BUFFER_SIZE 0)) \<and> bytes_only p'
    \<and> length (idle p') = length (idle p) - 1"
  using assms by (auto simp: acquire_def bytes_only_def reset_bytes split: list.splits)

lemma use_pool_bytes:
  "bytes_only p \<Longrightarrow> use_pool ws p = (xs, p') \<Longrightarrow>
     xs = replicate (length ws) (Some (Bytes (replicate IO_BUFFER_SIZE 0))) \<and> bytes_only p'
     \<and> length (idle p') = (if ws = [] then length (idle p) else max 1 (length (idle p)))"
proof (induction ws arbitrary: p xs)
  case Nil
  then show ?case by simp
next
  case (Cons w ws)
  obtain x p1 where one: "acquire p = (x, p1)" by fastforce
  let ?p2 = "pooled_drop (map_option (\<lambda>_. Bytes w) x) p1"
  obtain ys where rest: "use_pool ws ?p2 = (ys, p')" "xs = x # ys"
    using Cons.prems(2) one by (auto simp: Let_def split: prod.splits)
  note a = acquire_bytes [OF Cons.prems(1) one]
  have "bytes_only ?p2" "length (idle ?p2) = max 1 (length (idle p))"
    using a by (auto simp: pooled_drop_def bytes_only_def)
  with Cons.IH [OF _ rest(1)] rest(2) a show ?case
    by simp
qed

text \<open>A pool of byte buffers hands out only buffers of 8192 zero bytes, whatever size the
  creation function gives its buffers and whatever earlier holders wrote into them; and used
  one at a time it never holds more than the buffers it started with, or one.\<close>

theorem pooled_buffers_zeroed:
  assumes "use_pool ws (object_pool_new n (Bytes buffer)) = (xs, p)"
  shows "xs = replicate (length ws) (Some (Bytes (replicate IO_BUFFER_SIZE 0)))
    \<and> length (idle p) \<le> max 1 n"
proof -
  have "bytes_only (object_pool_new n (Bytes buffer))"
    by (auto simp: bytes_only_def object_pool_new_def)
  from use_pool_bytes [OF this assms] show ?thesis
    by (auto simp: object_pool_new_def)
qed

theorem pooled_buffers_zeroed_witness:
  "fst (use_pool [[1, 2], [3]] (object_pool_new 0 (Bytes (replicate 16 9) :: nat poolable)))
     = [Some (Bytes (replicate 8192 0)), Some (Bytes (replicate 8192 0))]"
proof -
  let ?p = "object_pool_new 0 (Bytes (replicate 16 9)) :: nat object_pool"
  obtain xs p where "use_pool [[1, 2], [3]] ?p = (xs, p)"
    by fastforce
  with pooled_buffers_zeroed [OF this] show ?thesis
    by (simp add: IO_BUFFER_SIZE_def del: use_pool.simps)
qed

end
