(* ===== verification/Tcp_Server.thy ===== *)
theory Tcp_Server
  imports Net_Types Reactor Object_Pool
begin

section \<open>The TCP server\<close>

text \<open>
  \<^verbatim>\<open>mill-net/src/tcp/mod.rs\<close>: \<open>ServerContext\<close>, \<open>TcpServer\<close>, the listener's handler and
  the handler of a connection, over the registry of the event loop. The state holds what the
  parts share through \<open>Arc\<close>s; a method of the user's handler is a function that changes this
  state. Sockets are those of the operating system in non-blocking mode: what the peer sent,
  what the send buffer still takes, and what the poller answers. Each step below is the work of
  one event, run to its end; the stages of an accept are definitions of their own, so that
  other events can come between them.
\<close>

subsection \<open>Sockets\<close>

record socket =
  incoming :: bytes
  at_eof :: bool
  read_error :: "string option"
  outgoing :: bytes
  room :: nat
  write_error :: "string option"
  deregister_error :: "string option"

datatype read_result = Read bytes | Read_blocked | Read_failed string

definition sock_read :: "nat \<Rightarrow> socket \<Rightarrow> read_result \<times> socket" where
  "sock_read n k = (case read_error k of
      Some e \<Rightarrow> (Read_failed e, k)
    | None \<Rightarrow>
        if n = 0 then (Read [], k)
        else if incoming k \<noteq> [] then (Read (take n (incoming k)), k\<lparr>incoming := drop n (incoming k)\<rparr>)
        else if at_eof k then (Read [], k) else (Read_blocked, k))"

definition BLOCKED :: string where
  "BLOCKED = ''Resource temporarily unavailable (os error 11)''"

text \<open>\<open>write_all\<close> of the standard library writes until a write fails; on a non-blocking socket
  a full send buffer is such a failure.\<close>

definition write_all :: "bytes \<Rightarrow> socket \<Rightarrow> string option \<times> socket" where
  "write_all data k =
     (if data = [] then (None, k)
      else case write_error k of
        Some e \<Rightarrow> (Some e, k)
      | None \<Rightarrow>
          if length data \<le> room k
          then (None, k\<lparr>outgoing := outgoing k @ data, room := room k - length data\<rparr>)
          else (Some BLOCKED, k\<lparr>outgoing := outgoing k @ take (room k) data, room := 0\<rparr>))"

definition as_outcome :: "string option \<Rightarrow> unit outcome" where
  "as_outcome e = (case e of None \<Rightarrow> Ok () | Some msg \<Rightarrow> Err msg)"

subsection \<open>State\<close>

datatype net_handler = Listener | Connection connection_id

record tcp_connection =
  conn_token :: token
  conn_peer :: socket_addr

text \<open>A connection the kernel has ready: its peer, its stream, and what setting
  \<open>TCP_NODELAY\<close> and registering it with the poller will answer.\<close>

record pending_conn =
  peer :: socket_addr
  stream :: socket
  nodelay_error :: "string option"
  register_error :: "string option"

datatype accept_result = Accepted pending_conn | Accept_failed string

record 'u tcp_state =
  connections :: "(connection_id, tcp_connection) hmap"
  counter :: usize
  next_conn_id :: u64
  buffer_pool :: "unit object_pool"
  has_server :: bool
  has_loop :: bool
  loop_alive :: bool
  poll :: "net_handler poll_handle"
  sockets :: "connection_id \<Rightarrow> socket"
  backlog :: "accept_result list"
  user :: 'u

type_synonym 'u tcp_handler = "'u tcp_state network_handler"

subsection \<open>The operations of the server\<close>

definition tcp_server_new :: "tcp_server_config \<Rightarrow> string option \<Rightarrow> (connection_id \<Rightarrow> socket) \<Rightarrow> 'u
    \<Rightarrow> string + 'u tcp_state" where
  "tcp_server_new cfg bind_error socks u =
     (case bind_error of
        Some e \<Rightarrow> Inl e
      | None \<Rightarrow> Inr \<lparr>connections = [], counter = 0, next_conn_id = 1,
          buffer_pool = object_pool_new 20 (Bytes (replicate (buffer_size cfg) 0)),
          has_server = False, has_loop = False, loop_alive = True, poll = poll_handle_new,
          sockets = socks, backlog = [], user = u\<rparr>)"

definition local_addr :: "string + socket_addr \<Rightarrow> string + socket_addr" where
  "local_addr bound = bound"

definition start :: "string option \<Rightarrow> token \<Rightarrow> 'u tcp_state fallible" where
  "start register_err listener_token s =
     (let s = s\<lparr>has_server := True, has_loop := True\<rparr>;
          (res, p) = register (as_outcome register_err) listener_token
             \<lparr>wants_readable = True, wants_writable = False\<rparr> Listener (poll s);
          s = s\<lparr>poll := p\<rparr>
      in (register_err, s))"

definition connection_count :: "'u tcp_state \<Rightarrow> usize" where
  "connection_count s = counter s"

definition send_to :: "connection_id \<Rightarrow> bytes \<Rightarrow> 'u tcp_state fallible" where
  "send_to c data s = (case hm_get (connections s) c of
      Some conn \<Rightarrow>
        let (res, k) = write_all data (sockets s c) in (res, s\<lparr>sockets := (sockets s)(c := k)\<rparr>)
    | None \<Rightarrow> (Some (show_network_error (ConnectionNotFound c)), s))"

text \<open>Taking a connection out of the map and its handler out of the event loop, which three
  places of the code do.\<close>

definition detach :: "connection_id \<Rightarrow> 'u tcp_state \<Rightarrow> 'u tcp_state" where
  "detach c s = (case hm_get (connections s) c of
      Some conn \<Rightarrow> s\<lparr>connections := hm_remove c (connections s),
        poll := snd (deregister (as_outcome (deregister_error (sockets s c))) (conn_token conn) (poll s))\<rparr>
    | None \<Rightarrow> s)"

definition notify_closed :: "'u tcp_handler \<Rightarrow> connection_id \<Rightarrow> 'u tcp_state \<Rightarrow> 'u tcp_state" where
  "notify_closed H c s =
     (let (err, s) = on_disconnect H c s;
          s = (case err of
                 Some e \<Rightarrow> on_error H (Some c) (HandlerError (''on_disconnect: '' @ e)) s
               | None \<Rightarrow> s)
      in snd (on_event H (ConnectionClosed c) s))"

definition close_connection :: "'u tcp_handler \<Rightarrow> connection_id \<Rightarrow> 'u tcp_state fallible" where
  "close_connection H c s =
     (if hm_get (connections s) c \<noteq> None then (None, notify_closed H c (detach c s))
      else (None, s))"

fun broadcast_loop :: "'u tcp_handler \<Rightarrow> bytes \<Rightarrow> connection_id list \<Rightarrow> 'u tcp_state \<Rightarrow> 'u tcp_state" where
  "broadcast_loop H data [] s = s"
| "broadcast_loop H data (c # cs) s =
     (let (res, k) = write_all data (sockets s c);
          s = s\<lparr>sockets := (sockets s)(c := k)\<rparr>;
          s = (case res of Some e \<Rightarrow> on_error H (Some c) (Io e) s | None \<Rightarrow> s)
      in broadcast_loop H data cs s)"

definition broadcast :: "'u tcp_handler \<Rightarrow> bytes \<Rightarrow> 'u tcp_state fallible" where
  "broadcast H data s = (None, broadcast_loop H data (map fst (connections s)) s)"

subsection \<open>The context handlers are given\<close>

definition ctx_send_to :: "connection_id \<Rightarrow> bytes \<Rightarrow> 'u tcp_state fallible" where
  "ctx_send_to c data s = (if has_server s then send_to c data s else (None, s))"

definition ctx_broadcast :: "'u tcp_handler \<Rightarrow> bytes \<Rightarrow> 'u tcp_state fallible" where
  "ctx_broadcast H data s = (if has_server s then broadcast H data s else (None, s))"

definition ctx_close_connection :: "'u tcp_handler \<Rightarrow> connection_id \<Rightarrow> 'u tcp_state fallible" where
  "ctx_close_connection H c s =
     (if has_server s then if has_loop s then close_connection H c s else (None, s) else (None, s))"

subsection \<open>Accepting\<close>

text \<open>The check and the increment, as the loop around \<open>compare_exchange\<close> sees them: of each
  attempt the value loaded and the value the exchange finds. \<open>None\<close> while every attempt has
  lost its race.\<close>

fun admit_loop :: "nat \<Rightarrow> (usize \<times> usize) list \<Rightarrow> usize option option" where
  "admit_loop m [] = None"
| "admit_loop m ((current, found) # rest) =
     (if m \<le> unat current then Some None
      else if found = current then Some (Some (current + 1))
      else admit_loop m rest)"

text \<open>Without a race the first attempt decides.\<close>

definition try_admit :: "nat option \<Rightarrow> usize \<Rightarrow> usize option" where
  "try_admit limit n = (case limit of
      Some m \<Rightarrow> (case admit_loop m [(n, n)] of Some res \<Rightarrow> res | None \<Rightarrow> None)
    | None \<Rightarrow> Some (n + 1))"

definition accept_admit :: "tcp_server_config \<Rightarrow> 'u tcp_handler \<Rightarrow> pending_conn \<Rightarrow> 'u tcp_state
    \<Rightarrow> bool \<times> 'u tcp_state" where
  "accept_admit cfg H a s = (case try_admit (max_connections cfg) (counter s) of
      None \<Rightarrow> (False, on_error H None (MaxConnectionsReached (peer a)) s)
    | Some n \<Rightarrow>
        let s = s\<lparr>counter := n\<rparr> in
        (True, case nodelay_error a of
                 Some e \<Rightarrow> on_error H None (Configuration (''Failed to set TCP_NODELAY: '' @ e)) s
               | None \<Rightarrow> s))"

definition accept_register :: "'u tcp_handler \<Rightarrow> pending_conn \<Rightarrow> 'u tcp_state
    \<Rightarrow> connection_id option \<times> 'u tcp_state" where
  "accept_register H a s =
     (let conn_id = next_conn_id s;
          tok = unat (as_u64 conn_id);
          s = s\<lparr>next_conn_id := conn_id + 1, sockets := (sockets s)(conn_id := stream a)\<rparr>
      in if \<not> loop_alive s then
           let s = on_error H None EventLoopGone s in (None, s\<lparr>counter := counter s - 1\<rparr>)
         else
           let (res, p) = register (as_outcome (register_error a)) tok
                 \<lparr>wants_readable = True, wants_writable = True\<rparr> (Connection conn_id) (poll s);
               s = s\<lparr>poll := p\<rparr>
           in case register_error a of
                Some e \<Rightarrow>
                  let s = on_error H (Some conn_id) (Io e) s in (None, s\<lparr>counter := counter s - 1\<rparr>)
              | None \<Rightarrow> (Some conn_id, s))"

definition accept_insert :: "pending_conn \<Rightarrow> connection_id \<Rightarrow> 'u tcp_state \<Rightarrow> 'u tcp_state" where
  "accept_insert a c s =
     s\<lparr>connections := hm_insert c \<lparr>conn_token = unat (as_u64 c), conn_peer = peer a\<rparr> (connections s)\<rparr>"

definition accept_announce :: "'u tcp_handler \<Rightarrow> pending_conn \<Rightarrow> connection_id \<Rightarrow> 'u tcp_state
    \<Rightarrow> 'u tcp_state" where
  "accept_announce H a c s =
     (let s = snd (on_event H (ConnectionEstablished c (peer a)) s);
          (err, s) = on_connect H c s
      in case err of
           None \<Rightarrow> s
         | Some e \<Rightarrow>
             let s = on_error H (Some c) (HandlerError (''on_connect: '' @ e)) s;
                 s = detach c s
             in s\<lparr>counter := counter s - 1\<rparr>)"

definition accept_one :: "tcp_server_config \<Rightarrow> 'u tcp_handler \<Rightarrow> pending_conn \<Rightarrow> 'u tcp_state
    \<Rightarrow> 'u tcp_state" where
  "accept_one cfg H a s =
     (let (admitted, s) = accept_admit cfg H a s in
      if \<not> admitted then s
      else let (conn, s) = accept_register H a s in
      case conn of
        None \<Rightarrow> s
      | Some c \<Rightarrow> accept_announce H a c (accept_insert a c s))"

text \<open>An empty backlog is \<open>WouldBlock\<close>.\<close>

fun accept_loop :: "tcp_server_config \<Rightarrow> 'u tcp_handler \<Rightarrow> accept_result list \<Rightarrow> 'u tcp_state
    \<Rightarrow> 'u tcp_state" where
  "accept_loop cfg H [] s = s\<lparr>backlog := []\<rparr>"
| "accept_loop cfg H (Accepted a # rest) s = accept_loop cfg H rest (accept_one cfg H a s)"
| "accept_loop cfg H (Accept_failed e # rest) s = (on_error H None (Accept e) s)\<lparr>backlog := rest\<rparr>"

definition listener_event :: "tcp_server_config \<Rightarrow> 'u tcp_handler \<Rightarrow> mio_event \<Rightarrow> 'u tcp_state
    \<Rightarrow> 'u tcp_state" where
  "listener_event cfg H ev s = (if is_readable ev then accept_loop cfg H (backlog s) s else s)"

subsection \<open>Events of a connection\<close>

definition conn_disconnect :: "'u tcp_handler \<Rightarrow> connection_id \<Rightarrow> 'u tcp_state \<Rightarrow> 'u tcp_state" where
  "conn_disconnect H c s = (case hm_get (connections s) c of
      None \<Rightarrow> s
    | Some conn \<Rightarrow>
        let gone = s\<lparr>connections := hm_remove c (connections s), counter := counter s - 1\<rparr>;
            s = (if loop_alive s then (detach c s)\<lparr>counter := counter s - 1\<rparr> else gone)
        in notify_closed H c s)"

definition after_read :: "'u tcp_handler \<Rightarrow> connection_id \<Rightarrow> read_result \<Rightarrow> 'u tcp_state \<Rightarrow> 'u tcp_state" where
  "after_read H c res s = (case res of
      Read data \<Rightarrow>
        if data = [] then conn_disconnect H c s
        else (case on_data H c data s of
            (None, s) \<Rightarrow> s
          | (Some e, s) \<Rightarrow>
              conn_disconnect H c (on_error H (Some c) (HandlerError (''on_data: '' @ e)) s))
    | Read_blocked \<Rightarrow> s
    | Read_failed e \<Rightarrow> conn_disconnect H c (on_error H (Some c) (Io e) s))"

text \<open>The pool is one of byte vectors, so the buffer is one.\<close>

definition handle_read :: "'u tcp_handler \<Rightarrow> connection_id \<Rightarrow> 'u tcp_state \<Rightarrow> 'u tcp_state" where
  "handle_read H c s =
     (let (buffer, bp) = acquire (buffer_pool s);
          s = s\<lparr>buffer_pool := bp\<rparr>
      in case buffer of
           Some (Bytes b) \<Rightarrow>
             let (res, k) = sock_read (length b) (sockets s c);
                 s = s\<lparr>sockets := (sockets s)(c := k)\<rparr>;
                 s = after_read H c res s
             in s\<lparr>buffer_pool := pooled_drop buffer (buffer_pool s)\<rparr>
         | _ \<Rightarrow> s)"

definition handle_writable :: "'u tcp_handler \<Rightarrow> connection_id \<Rightarrow> 'u tcp_state \<Rightarrow> 'u tcp_state" where
  "handle_writable H c s =
     (case on_writable H c s of
        (None, s) \<Rightarrow> s
      | (Some e, s) \<Rightarrow> on_error H (Some c) (HandlerError (''on_writable: '' @ e)) s)"

definition connection_event :: "'u tcp_handler \<Rightarrow> connection_id \<Rightarrow> mio_event \<Rightarrow> 'u tcp_state
    \<Rightarrow> 'u tcp_state" where
  "connection_event H c ev s =
     (let s = (if is_readable ev then handle_read H c s else s)
      in if is_writable ev then handle_writable H c s else s)"

subsection \<open>Under the event loop\<close>

text \<open>The server's handlers as the reactor calls them: the registry is part of the world the
  reactor hands to a handler.\<close>

definition tcp_handling :: "tcp_server_config \<Rightarrow> 'u tcp_handler \<Rightarrow> (net_handler, 'u tcp_state) handling" where
  "tcp_handling cfg H h ev w =
     (let s = (snd w)\<lparr>poll := fst w\<rparr>;
          s = (case h of
                 Listener \<Rightarrow> listener_event cfg H ev s
               | Connection c \<Rightarrow> connection_event H c ev s)
      in (poll s, s))"

definition on_poll_event :: "tcp_server_config \<Rightarrow> 'u tcp_handler \<Rightarrow> mio_event \<Rightarrow> 'u tcp_state
    \<Rightarrow> 'u tcp_state" where
  "on_poll_event cfg H ev s = snd (handle_event (tcp_handling cfg H) ev (poll s, s))"

end
