(* ===== verification/Tcp_Effects.thy ===== *)
theory Tcp_Effects
  imports Tcp_Server
begin

section \<open>What the server's steps keep\<close>

text \<open>
  The invariant of the TCP server. What a user's method may do to the server is what the
  context offers it: change its own state, write to a connection, close one. \<open>effects\<close> is
  any sequence of those, the locale \<open>polite_handler\<close> the contract that every method keeps to
  them, and the lemmas of its contexts carry the invariant through accepting, reading,
  disconnecting and whole runs of the server.
\<close>

subsection \<open>What a method of the handler may do\<close>

inductive prim :: "'u tcp_state \<Rightarrow> 'u tcp_state \<Rightarrow> bool" where
  prim_user: "prim s (s\<lparr>user := u\<rparr>)"
| prim_write: "prim s (s\<lparr>sockets := (sockets s)(c := snd (write_all data (sockets s c)))\<rparr>)"
| prim_detach: "prim s (detach c s)"

abbreviation effects :: "'u tcp_state \<Rightarrow> 'u tcp_state \<Rightarrow> bool" where
  "effects \<equiv> prim\<^sup>*\<^sup>*"

subsection \<open>Connections and registry\<close>

definition handler_at :: "'u tcp_state \<Rightarrow> token \<Rightarrow> net_handler option" where
  "handler_at s t = map_option handler (hm_get (registry (poll s)) t)"

definition open_conns :: "'u tcp_state \<Rightarrow> connection_id set" where
  "open_conns s = dom (hm_get (connections s))"

definition conns_ok :: "'u tcp_state \<Rightarrow> bool" where
  "conns_ok s \<longleftrightarrow> hm_wf (connections s) \<and> loop_alive s \<and> 0 < unat (next_conn_id s)
     \<and> (\<forall>c. deregister_error (sockets s c) = None)
     \<and> (\<forall>a. Accepted a \<in> set (backlog s) \<longrightarrow> deregister_error (stream a) = None)
     \<and> (\<forall>t. handler_at s t = Some Listener \<longleftrightarrow> t = 0)
     \<and> (\<forall>c conn. hm_get (connections s) c = Some conn \<longrightarrow>
          conn_token conn = unat c \<and> 0 < unat c \<and> unat c < unat (next_conn_id s))
     \<and> (\<forall>t c. handler_at s t = Some (Connection c) \<longleftrightarrow> t = unat c \<and> c \<in> open_conns s)"

lemma deregister_error_write_all [simp]:
  "deregister_error (snd (write_all data k)) = deregister_error k"
  by (simp add: write_all_def split: option.splits)

lemma hm_remove_absent: "hm_get m k = None \<Longrightarrow> hm_remove k m = m"
  by (simp add: hm_get_def hm_remove_def map_of_eq_None_iff)

lemma detach_fields [simp]:
  "connections (detach c s) = hm_remove c (connections s)"
  "counter (detach c s) = counter s" "next_conn_id (detach c s) = next_conn_id s"
  "loop_alive (detach c s) = loop_alive s" "backlog (detach c s) = backlog s"
  "sockets (detach c s) = sockets s" "buffer_pool (detach c s) = buffer_pool s"
  "has_server (detach c s) = has_server s" "has_loop (detach c s) = has_loop s"
  "user (detach c s) = user s"
  by (auto simp: detach_def hm_remove_absent split: option.splits)

lemma open_detach [simp]: "open_conns (detach c s) = open_conns s - {c}"
  by (simp add: open_conns_def hm_simps)

lemma handler_at_detach:
  assumes "conns_ok s"
  shows "handler_at (detach c s) t = (if t = unat c \<and> c \<in> open_conns s then None else handler_at s t)"
  using assms
  by (auto simp: detach_def handler_at_def conns_ok_def deregister_def as_outcome_def hm_simps
      open_conns_def split: option.splits)

lemma conns_okD:
  assumes "conns_ok s"
  shows "hm_wf (connections s)" "loop_alive s" "deregister_error (sockets s c) = None"
    "Accepted a \<in> set (backlog s) \<Longrightarrow> deregister_error (stream a) = None"
    "handler_at s t = Some Listener \<longleftrightarrow> t = 0"
    "hm_get (connections s) c = Some conn \<Longrightarrow> conn_token conn = unat c"
    "c \<in> open_conns s \<Longrightarrow> 0 < unat c \<and> unat c < unat (next_conn_id s)"
    "handler_at s t = Some (Connection c) \<longleftrightarrow> t = unat c \<and> c \<in> open_conns s"
  using assms unfolding conns_ok_def by (auto simp: open_conns_def)

lemma conns_ok_detach:
  assumes "conns_ok s"
  shows "conns_ok (detach c s)"
proof -
  have pos: "c \<in> open_conns s \<Longrightarrow> unat c \<noteq> 0"
    using conns_okD(7) [OF assms] by fastforce
  have same: "unat c = unat d \<Longrightarrow> d = c" for d
    by (simp add: word_unat_eq_iff)
  show ?thesis
    using assms pos unfolding conns_ok_def [of "detach c s"] handler_at_detach [OF assms]
    by (auto simp: conns_ok_def hm_simps hm.wf_del split: if_splits dest: same)
qed

lemma prim_conns_ok: "prim s s' \<Longrightarrow> conns_ok s \<Longrightarrow> conns_ok s'"
proof (induction rule: prim.induct)
  case (prim_detach c s)
  then show ?case by (rule conns_ok_detach)
qed (auto simp: conns_ok_def handler_at_def open_conns_def)

definition shrinks :: "'u tcp_state \<Rightarrow> 'u tcp_state \<Rightarrow> bool" where
  "shrinks s s' \<longleftrightarrow> counter s' = counter s \<and> next_conn_id s' = next_conn_id s
     \<and> backlog s' = backlog s \<and> buffer_pool s' = buffer_pool s \<and> open_conns s' \<subseteq> open_conns s"

lemma prim_shrinks: "prim s s' \<Longrightarrow> shrinks s s'"
  by (induction rule: prim.induct) (auto simp: shrinks_def, auto simp: open_conns_def)

lemma effects_trans: "effects r s \<Longrightarrow> effects s t \<Longrightarrow> effects r t"
  by (rule rtranclp_trans)

lemma effects_conns_ok: "effects s s' \<Longrightarrow> conns_ok s \<Longrightarrow> conns_ok s'"
  by (induction rule: rtranclp_induct) (auto intro: prim_conns_ok)

lemma shrinks_trans: "shrinks r s \<Longrightarrow> shrinks s t \<Longrightarrow> shrinks r t"
  unfolding shrinks_def by (intro conjI) (simp_all, blast)

lemma effects_shrinks: "effects s s' \<Longrightarrow> shrinks s s'"
proof (induction rule: rtranclp_induct)
  case base
  then show ?case by (simp add: shrinks_def)
next
  case (step y z)
  then show ?case using shrinks_trans prim_shrinks by blast
qed


subsection \<open>Slots\<close>

definition within :: "nat option \<Rightarrow> nat \<Rightarrow> bool" where
  "within limit n \<longleftrightarrow> (case limit of Some m \<Rightarrow> n \<le> m | None \<Rightarrow> True)"

lemma within_mono: "within limit n \<Longrightarrow> k \<le> n \<Longrightarrow> within limit k"
  by (auto simp: within_def split: option.splits)

definition slots_ok :: "nat option \<Rightarrow> 'u tcp_state \<Rightarrow> bool" where
  "slots_ok limit s \<longleftrightarrow> card (open_conns s) \<le> unat (counter s)
     \<and> unat (counter s) < unat (next_conn_id s)
     \<and> within limit (unat (counter s))"

definition leaked :: "'u tcp_state \<Rightarrow> nat" where
  "leaked s = unat (counter s) - card (open_conns s)"

lemma finite_open [simp]: "finite (open_conns s)"
  by (simp add: open_conns_def hm.finite_dom)

lemma length_connections: "conns_ok s \<Longrightarrow> length (connections s) = card (open_conns s)"
  by (simp add: conns_ok_def open_conns_def hm.size_card)

definition tcp_inv :: "nat option \<Rightarrow> 'u tcp_state \<Rightarrow> bool" where
  "tcp_inv limit s \<longleftrightarrow> conns_ok s \<and> slots_ok limit s"

text \<open>One step of the server: the invariant is kept and no leaked slot comes back.\<close>

definition good_step :: "nat option \<Rightarrow> 'u tcp_state \<Rightarrow> 'u tcp_state \<Rightarrow> bool" where
  "good_step limit s s' \<longleftrightarrow> tcp_inv limit s' \<and> leaked s \<le> leaked s' \<and> backlog s' = backlog s"

lemma good_step_trans: "good_step l r s \<Longrightarrow> good_step l s t \<Longrightarrow> good_step l r t"
  by (simp add: good_step_def)

lemma shrinks_good:
  assumes "shrinks s s'" and "conns_ok s'" and "slots_ok limit s"
  shows "good_step limit s s'"
proof -
  have "card (open_conns s') \<le> card (open_conns s)"
    using assms(1) by (simp add: shrinks_def card_mono)
  with assms show ?thesis
    by (simp add: good_step_def tcp_inv_def slots_ok_def leaked_def shrinks_def)
qed

lemma effects_good: "effects s s' \<Longrightarrow> tcp_inv limit s \<Longrightarrow> good_step limit s s'"
  by (intro shrinks_good effects_shrinks) (auto simp: tcp_inv_def effects_conns_ok)

lemma unat_dec: "0 < unat n \<Longrightarrow> unat (n - 1 :: usize) = unat n - 1"
  by (rule unat_dec_pos)

lemma conns_ok_counter [simp]: "conns_ok (s\<lparr>counter := n\<rparr>) = conns_ok s"
  by (simp add: conns_ok_def handler_at_def open_conns_def)

lemma open_counter [simp]: "open_conns (s\<lparr>counter := n\<rparr>) = open_conns s"
  by (simp add: open_conns_def)

lemma conns_ok_backlog:
  "conns_ok s \<Longrightarrow> (\<forall>a. Accepted a \<in> set as \<longrightarrow> deregister_error (stream a) = None) \<Longrightarrow>
     conns_ok (s\<lparr>backlog := as\<rparr>)"
  by (simp add: conns_ok_def handler_at_def open_conns_def)

lemma tcp_inv_backlog:
  assumes "tcp_inv limit s" and "\<forall>a. Accepted a \<in> set as \<longrightarrow> deregister_error (stream a) = None"
  shows "tcp_inv limit (s\<lparr>backlog := as\<rparr>) \<and> leaked (s\<lparr>backlog := as\<rparr>) = leaked s"
  using assms conns_ok_backlog [of s as]
  by (simp add: tcp_inv_def slots_ok_def leaked_def open_conns_def)

lemma tcp_inv_fields [simp]:
  "tcp_inv limit (s\<lparr>buffer_pool := bp\<rparr>) = tcp_inv limit s"
  "leaked (s\<lparr>buffer_pool := bp\<rparr>) = leaked s"
  by (simp_all add: tcp_inv_def conns_ok_def slots_ok_def leaked_def handler_at_def open_conns_def)

lemma tcp_inv_socket:
  assumes "tcp_inv limit s" and "deregister_error k = None"
  shows "tcp_inv limit (s\<lparr>sockets := (sockets s)(c := k)\<rparr>)
    \<and> leaked (s\<lparr>sockets := (sockets s)(c := k)\<rparr>) = leaked s"
  using assms
  by (simp add: tcp_inv_def conns_ok_def slots_ok_def leaked_def handler_at_def open_conns_def)

definition keeps :: "nat option \<Rightarrow> 'u tcp_state \<Rightarrow> 'u tcp_state \<Rightarrow> bool" where
  "keeps limit s s' \<longleftrightarrow> tcp_inv limit s' \<and> leaked s \<le> leaked s'
     \<and> backlog s' = backlog s \<and> next_conn_id s' = next_conn_id s"

lemma keeps_trans: "keeps l r s \<Longrightarrow> keeps l s t \<Longrightarrow> keeps l r t"
  by (simp add: keeps_def)

lemma keeps_inv: "keeps l r s \<Longrightarrow> tcp_inv l s"
  by (simp add: keeps_def)

lemma effects_keeps: "effects s s' \<Longrightarrow> tcp_inv limit s \<Longrightarrow> keeps limit s s'"
  using effects_good [of s s' limit] effects_shrinks [of s s']
  by (simp add: keeps_def good_step_def shrinks_def)

lemma tcp_inv_pool: "keeps limit s (t\<lparr>buffer_pool := bp\<rparr>) = keeps limit s t"
  by (simp add: keeps_def)

text \<open>A slot has been taken for a connection that is not in the map yet.\<close>

definition reserved :: "nat option \<Rightarrow> 'u tcp_state \<Rightarrow> 'u tcp_state \<Rightarrow> bool" where
  "reserved limit s s1 \<longleftrightarrow> conns_ok s1 \<and> unat (counter s1) = unat (counter s) + 1
     \<and> within limit (unat (counter s) + 1) \<and> next_conn_id s1 = next_conn_id s
     \<and> open_conns s1 \<subseteq> open_conns s \<and> backlog s1 = backlog s"

locale polite_handler =
  fixes H :: "'u tcp_handler"
  assumes on_event_effects: "effects s (snd (on_event H ev s))"
    and on_connect_effects: "effects s (snd (on_connect H c s))"
    and on_data_effects: "effects s (snd (on_data H c data s))"
    and on_disconnect_effects: "effects s (snd (on_disconnect H c s))"
    and on_writable_effects: "effects s (snd (on_writable H c s))"
    and on_error_effects: "effects s (on_error H cid err s)"
begin

lemmas callbacks = on_event_effects on_connect_effects on_data_effects on_disconnect_effects
  on_writable_effects on_error_effects

lemma notify_effects: "effects s (notify_closed H c s)"
proof -
  let ?s1 = "snd (on_disconnect H c s)"
  let ?s2 = "case fst (on_disconnect H c s) of
      Some e \<Rightarrow> on_error H (Some c) (HandlerError (''on_disconnect: '' @ e)) ?s1 | None \<Rightarrow> ?s1"
  have "effects ?s1 ?s2"
    by (simp add: callbacks split: option.splits)
  then have "effects s ?s2"
    by (rule effects_trans [OF on_disconnect_effects])
  then have "effects s (snd (on_event H (ConnectionClosed c) ?s2))"
    using on_event_effects by (rule effects_trans)
  then show ?thesis
    by (simp add: notify_closed_def Let_def case_prod_unfold)
qed

lemma close_effects: "effects s (snd (close_connection H c s))"
proof -
  have "effects s (notify_closed H c (detach c s))"
    by (rule converse_rtranclp_into_rtranclp [OF prim_detach notify_effects])
  then show ?thesis
    by (simp add: close_connection_def)
qed

lemma ctx_close_effects: "effects s (snd (ctx_close_connection H c s))"
  by (simp add: ctx_close_connection_def close_effects)

lemma broadcast_loop_effects: "effects s (broadcast_loop H data cs s)"
proof (induction cs arbitrary: s)
  case Nil
  then show ?case by simp
next
  case (Cons c cs)
  let ?k = "write_all data (sockets s c)"
  let ?s1 = "s\<lparr>sockets := (sockets s)(c := snd ?k)\<rparr>"
  let ?s2 = "case fst ?k of Some e \<Rightarrow> on_error H (Some c) (Io e) ?s1 | None \<Rightarrow> ?s1"
  have "effects ?s1 ?s2"
    by (simp add: callbacks split: option.splits)
  then have "effects s ?s2"
    using converse_rtranclp_into_rtranclp [of prim, OF prim_write [of s c data]] by blast
  then have "effects s (broadcast_loop H data cs ?s2)"
    using Cons.IH by (rule effects_trans)
  then show ?case
    by (simp add: Let_def case_prod_unfold)
qed

lemma broadcast_effects: "effects s (snd (ctx_broadcast H data s))"
  by (simp add: ctx_broadcast_def broadcast_def broadcast_loop_effects)


subsubsection \<open>Accepting\<close>

lemma admit_refused:
  assumes "accept_admit cfg H a s = (False, s')" and "tcp_inv limit s"
  shows "good_step limit s s'"
  using assms by (auto simp: accept_admit_def Let_def effects_good callbacks split: option.splits)

lemma admit_admitted:
  assumes "accept_admit cfg H a s = (True, s')" and "tcp_inv (max_connections cfg) s"
  shows "shrinks (s\<lparr>counter := counter s + 1\<rparr>) s' \<and> conns_ok s'
    \<and> unat (counter s + 1) = unat (counter s) + 1
    \<and> within (max_connections cfg) (unat (counter s) + 1)"
proof -
  let ?s1 = "s\<lparr>counter := counter s + 1\<rparr>"
  have "try_admit (max_connections cfg) (counter s) = Some (counter s + 1)"
    and limit: "within (max_connections cfg) (unat (counter s) + 1)"
    and eff: "effects ?s1 s'"
    using assms(1) by (auto simp: accept_admit_def try_admit_def Let_def callbacks within_def
        split: option.splits if_splits)
  have "unat (counter s) < unat (next_conn_id s)"
    using assms(2) by (simp add: tcp_inv_def slots_ok_def)
  then have "unat (counter s + 1) = unat (counter s) + 1"
    by (intro unat_inc_less) (simp add: word_less_nat_alt)
  moreover have "conns_ok ?s1"
    using assms(2) by (simp add: tcp_inv_def conns_ok_def handler_at_def open_conns_def)
  ultimately show ?thesis
    using eff limit effects_shrinks effects_conns_ok by blast
qed

lemma conns_ok_next:
  assumes "conns_ok s" and "unat (next_conn_id s) + 1 < 2 ^ 64" and "deregister_error k = None"
  shows "conns_ok (s\<lparr>next_conn_id := next_conn_id s + 1, sockets := (sockets s)(next_conn_id s := k)\<rparr>)"
proof -
  have "unat (next_conn_id s + 1) = unat (next_conn_id s) + 1"
    using assms(2) by (simp add: word_view)
  then show ?thesis
    using assms(1,3) unfolding conns_ok_def handler_at_def open_conns_def
    by simp (metis less_SucI)
qed

lemma next_fresh: "conns_ok s \<Longrightarrow> next_conn_id s \<notin> open_conns s"
  using conns_okD(7) by blast

lemma register_failed:
  assumes "accept_register H a s = (None, s')" and "conns_ok s"
    and "unat (next_conn_id s) + 1 < 2 ^ 64" and "deregister_error (stream a) = None"
  shows "\<exists>t. shrinks (s\<lparr>next_conn_id := next_conn_id s + 1\<rparr>) t \<and> conns_ok t
    \<and> s' = t\<lparr>counter := counter t - 1\<rparr>"
proof -
  let ?u = "s\<lparr>next_conn_id := next_conn_id s + 1, sockets := (sockets s)(next_conn_id s := stream a)\<rparr>"
  obtain e where e: "register_error a = Some e"
    and s': "s' = (let t = on_error H (Some (next_conn_id s)) (Io e) ?u in t\<lparr>counter := counter t - 1\<rparr>)"
    using assms(1) conns_okD(2) [OF assms(2)]
    by (auto simp: accept_register_def register_def as_outcome_def as_u64_def Let_def
        split: option.splits)
  let ?t = "on_error H (Some (next_conn_id s)) (Io e) ?u"
  have eff: "effects ?u ?t"
    by (rule callbacks)
  have ok: "conns_ok ?t"
    using effects_conns_ok [OF eff] conns_ok_next [OF assms(2-4)] by blast
  have opened: "open_conns ?u = open_conns s"
    by (simp add: open_conns_def)
  have "shrinks (s\<lparr>next_conn_id := next_conn_id s + 1\<rparr>) ?t"
    using effects_shrinks [OF eff] unfolding shrinks_def opened by (simp add: open_conns_def)
  moreover have "s' = ?t\<lparr>counter := counter ?t - 1\<rparr>"
    using s' by (simp only: Let_def)
  ultimately show ?thesis
    using ok by blast
qed

lemma register_done:
  assumes "accept_register H a s = (Some c, s')" and "conns_ok s"
    and "unat (next_conn_id s) + 1 < 2 ^ 64" and "deregister_error (stream a) = None"
  shows "c = next_conn_id s \<and> counter (accept_insert a c s') = counter s
    \<and> next_conn_id (accept_insert a c s') = next_conn_id s + 1
    \<and> backlog (accept_insert a c s') = backlog s
    \<and> open_conns (accept_insert a c s') = insert c (open_conns s)
    \<and> conns_ok (accept_insert a c s')"
proof -
  let ?u = "s\<lparr>next_conn_id := next_conn_id s + 1, sockets := (sockets s)(next_conn_id s := stream a)\<rparr>"
  let ?i = "\<lparr>wants_readable = True, wants_writable = True\<rparr>"
  have c: "c = next_conn_id s"
    and s': "s' = ?u\<lparr>poll := snd (register (Ok ()) (unat c) ?i (Connection c) (poll s))\<rparr>"
    using assms(1) conns_okD(2) [OF assms(2)]
    by (auto simp: accept_register_def register_def as_outcome_def as_u64_def Let_def
        split: option.splits)
  have u: "conns_ok ?u"
    by (rule conns_ok_next) fact+
  have at: "handler_at (accept_insert a c s') t
      = (if t = unat c then Some (Connection c) else handler_at ?u t)" for t
    by (simp add: s' accept_insert_def handler_at_def register_def handler_entry_new_def hm_simps)
  have opened: "open_conns (accept_insert a c s') = insert c (open_conns s)"
    by (simp add: s' accept_insert_def open_conns_def hm_simps)
  have pos: "0 < unat c" and inc: "unat (next_conn_id s + 1) = unat c + 1"
    using assms(2,3) by (simp_all add: conns_ok_def c word_view)
  have same: "unat x = unat y \<Longrightarrow> x = y" for x y :: connection_id
    by (simp add: word_unat_eq_iff)
  have fresh: "c \<notin> open_conns s"
    using next_fresh [OF assms(2)] c by simp
  have u_at: "handler_at ?u t = handler_at s t" for t
    by (simp add: handler_at_def)
  have "conns_ok (accept_insert a c s')"
    using assms(2,4) pos fresh unfolding conns_ok_def at opened u_at
    by (auto simp: s' accept_insert_def hm_simps hm.wf_put inc c as_u64_def dest: same
        intro: less_SucI)
  then show ?thesis
    using opened by (simp add: c) (simp add: s' accept_insert_def)
qed


lemma announce_cases:
  assumes "conns_ok s"
  shows "shrinks s (accept_announce H a c s) \<and> conns_ok (accept_announce H a c s)
    \<or> (\<exists>t. shrinks s t \<and> conns_ok t
         \<and> accept_announce H a c s = (detach c t)\<lparr>counter := counter t - 1\<rparr>)"
proof -
  let ?s1 = "snd (on_event H (ConnectionEstablished c (peer a)) s)"
  let ?s2 = "snd (on_connect H c ?s1)"
  have two: "effects s ?s2"
    by (rule effects_trans [OF on_event_effects on_connect_effects])
  show ?thesis
  proof (cases "fst (on_connect H c ?s1)")
    case None
    then have "accept_announce H a c s = ?s2"
      by (simp add: accept_announce_def Let_def case_prod_unfold)
    then show ?thesis
      using effects_shrinks [OF two] effects_conns_ok [OF two assms] by simp
  next
    case (Some e)
    let ?t = "on_error H (Some c) (HandlerError (''on_connect: '' @ e)) ?s2"
    have eff: "effects s ?t"
      using two on_error_effects by (rule effects_trans)
    have "accept_announce H a c s = (detach c ?t)\<lparr>counter := counter ?t - 1\<rparr>"
      using Some by (simp add: accept_announce_def Let_def case_prod_unfold)
    then show ?thesis
      using effects_shrinks [OF eff] effects_conns_ok [OF eff assms] by blast
  qed
qed

text \<open>Giving a slot back: the state holds one more than its connections need.\<close>

lemma slot_returned:
  assumes "tcp_inv limit s" and "conns_ok t" and "open_conns t \<subseteq> open_conns s"
    and "unat (counter t) = unat (counter s) + 1" and "backlog t = backlog s"
    and "unat (next_conn_id t) = unat (next_conn_id s) + 1"
  shows "good_step limit s (t\<lparr>counter := counter t - 1\<rparr>)"
proof -
  have "card (open_conns t) \<le> card (open_conns s)"
    using assms(3) by (simp add: card_mono)
  moreover have "unat (counter t - 1) = unat (counter s)"
    using assms(4) by (simp add: unat_dec)
  ultimately show ?thesis
    using assms by (auto simp: good_step_def tcp_inv_def slots_ok_def leaked_def within_mono)
qed

lemma admit_reserved:
  assumes "accept_admit cfg H a s = (True, s1)" and "tcp_inv (max_connections cfg) s"
  shows "reserved (max_connections cfg) s s1"
  using admit_admitted [OF assms] by (auto simp: reserved_def shrinks_def)

lemma unregistered_good:
  assumes "tcp_inv limit s" and "reserved limit s s1" and "accept_register H a s1 = (None, s2)"
    and "unat (next_conn_id s) + 1 < 2 ^ 64" and "deregister_error (stream a) = None"
  shows "good_step limit s s2 \<and> unat (next_conn_id s2) = unat (next_conn_id s) + 1"
proof -
  have inc: "unat (next_conn_id s + 1) = unat (next_conn_id s) + 1"
    using assms(4) by (simp add: word_view)
  obtain t where t: "shrinks (s1\<lparr>next_conn_id := next_conn_id s1 + 1\<rparr>) t" "conns_ok t"
      "s2 = t\<lparr>counter := counter t - 1\<rparr>"
    using register_failed [OF assms(3)] assms(2,4,5) by (auto simp: reserved_def)
  have "open_conns (s1\<lparr>next_conn_id := next_conn_id s1 + 1\<rparr>) = open_conns s1"
    by (simp add: open_conns_def)
  with t(1) assms(2) inc show ?thesis
    unfolding t(3)
    by (intro conjI slot_returned assms(1) t(2)) (auto simp: shrinks_def reserved_def)
qed

lemma announced_good:
  assumes "tcp_inv limit s" and "reserved limit s s1" and "accept_register H a s1 = (Some c, s2)"
    and "unat (next_conn_id s) + 1 < 2 ^ 64" and "deregister_error (stream a) = None"
  shows "good_step limit s (accept_announce H a c (accept_insert a c s2))
    \<and> unat (next_conn_id (accept_announce H a c (accept_insert a c s2))) = unat (next_conn_id s) + 1"
proof -
  let ?s3 = "accept_insert a c s2" and ?s4 = "accept_announce H a c (accept_insert a c s2)"
  have inc: "unat (next_conn_id s + 1) = unat (next_conn_id s) + 1"
    using assms(4) by (simp add: word_view)
  have ok1: "conns_ok s1" and next1: "next_conn_id s1 = next_conn_id s"
    using assms(2) by (simp_all add: reserved_def)
  have three: "c = next_conn_id s" "counter ?s3 = counter s1" "next_conn_id ?s3 = next_conn_id s + 1"
      "backlog ?s3 = backlog s" "open_conns ?s3 \<subseteq> insert c (open_conns s)" "conns_ok ?s3"
    using register_done [OF assms(3) ok1 _ assms(5)] assms(2,4) next1 by (auto simp: reserved_def)
  have "c \<notin> open_conns s"
    using three(1) next_fresh assms(1) by (auto simp: tcp_inv_def)
  then have card3: "card (open_conns ?s3) \<le> Suc (card (open_conns s))"
    using card_mono [OF _ three(5)] by simp
  from announce_cases [OF three(6), of a c] show ?thesis
  proof (elim disjE exE)
    assume t: "shrinks ?s3 ?s4 \<and> conns_ok ?s4"
    have "slots_ok limit ?s3" "leaked s \<le> leaked ?s3"
      using assms(1,2) three inc card3
      by (auto simp: tcp_inv_def slots_ok_def leaked_def reserved_def intro: within_mono)
    then show ?thesis
      using shrinks_good [of ?s3 ?s4 limit] t three inc by (auto simp: good_step_def shrinks_def)
  next
    fix t assume t: "shrinks ?s3 t \<and> conns_ok t \<and> ?s4 = (detach c t)\<lparr>counter := counter t - 1\<rparr>"
    have "good_step limit s ((detach c t)\<lparr>counter := counter (detach c t) - 1\<rparr>)"
      using t assms(2) three inc
      by (intro slot_returned assms(1) conns_ok_detach) (auto simp: shrinks_def reserved_def)
    then show ?thesis
      using t three(3) inc by (auto simp: shrinks_def)
  qed
qed

lemma accept_good:
  assumes "tcp_inv (max_connections cfg) s" and "unat (next_conn_id s) + 1 < 2 ^ 64"
    and "deregister_error (stream a) = None"
  shows "good_step (max_connections cfg) s (accept_one cfg H a s)
    \<and> unat (next_conn_id (accept_one cfg H a s)) \<le> unat (next_conn_id s) + 1"
proof -
  obtain b s1 where admit: "accept_admit cfg H a s = (b, s1)"
    by fastforce
  show ?thesis
  proof (cases b)
    case False
    then have "effects s (accept_one cfg H a s)"
      using admit by (auto simp: accept_one_def accept_admit_def Let_def callbacks split: option.splits)
    from effects_good [OF this assms(1)] effects_shrinks [OF this] show ?thesis
      by (simp add: shrinks_def)
  next
    case True
    with admit assms(1) have res: "reserved (max_connections cfg) s s1"
      by (intro admit_reserved) simp_all
    obtain r s2 where reg: "accept_register H a s1 = (r, s2)"
      by fastforce
    show ?thesis
    proof (cases r)
      case None
      then show ?thesis
        using unregistered_good [OF assms(1) res _ assms(2,3)] admit True reg by (simp add: accept_one_def)
    next
      case (Some c)
      then show ?thesis
        using announced_good [OF assms(1) res _ assms(2,3)] admit True reg by (simp add: accept_one_def)
    qed
  qed
qed

lemma accept_loop_good:
  "tcp_inv (max_connections cfg) s \<Longrightarrow> unat (next_conn_id s) + length as < 2 ^ 64 \<Longrightarrow>
     \<forall>a. Accepted a \<in> set as \<longrightarrow> deregister_error (stream a) = None \<Longrightarrow>
     tcp_inv (max_connections cfg) (accept_loop cfg H as s) \<and> leaked s \<le> leaked (accept_loop cfg H as s)
     \<and> unat (next_conn_id (accept_loop cfg H as s)) + length (backlog (accept_loop cfg H as s))
         \<le> unat (next_conn_id s) + length as"
proof (induction as arbitrary: s)
  case Nil
  then show ?case
    using tcp_inv_backlog [of _ s "[]"] by simp
next
  case (Cons x as)
  show ?case
  proof (cases x)
    case (Accepted a)
    have "good_step (max_connections cfg) s (accept_one cfg H a s)
        \<and> unat (next_conn_id (accept_one cfg H a s)) \<le> unat (next_conn_id s) + 1"
      using Cons.prems Accepted by (intro accept_good) auto
    with Cons.IH [of "accept_one cfg H a s"] Cons.prems Accepted show ?thesis
      by (simp add: good_step_def)
  next
    case (Accept_failed e)
    let ?t = "on_error H None (Accept e) s"
    have eff: "effects s ?t"
      by (rule callbacks)
    have "good_step (max_connections cfg) s ?t" "shrinks s ?t"
      by (rule effects_good [OF eff Cons.prems(1)]) (rule effects_shrinks [OF eff])
    then show ?thesis
      using tcp_inv_backlog [of "max_connections cfg" ?t as] Cons.prems(3) Accept_failed
      by (simp add: good_step_def shrinks_def)
  qed
qed

subsubsection \<open>Events of a connection\<close>

lemma disconnect_good:
  assumes "tcp_inv limit s"
  shows "good_step limit s (conn_disconnect H c s)
    \<and> next_conn_id (conn_disconnect H c s) = next_conn_id s"
proof (cases "c \<in> open_conns s")
  case False
  then have "conn_disconnect H c s = s"
    by (simp add: conn_disconnect_def open_conns_def domIff)
  then show ?thesis
    using assms by (simp add: good_step_def)
next
  case True
  let ?t = "(detach c s)\<lparr>counter := counter s - 1\<rparr>"
  have alive: "loop_alive s" and wf: "conns_ok s"
    using assms by (simp_all add: tcp_inv_def conns_ok_def)
  have some: "0 < card (open_conns s)"
    using True by (auto simp: card_gt_0_iff)
  then have pos: "0 < unat (counter s)"
    using assms by (simp add: tcp_inv_def slots_ok_def)
  have "good_step limit s ?t"
    using assms True pos some conns_ok_detach [OF wf, of c]
    by (auto simp: good_step_def tcp_inv_def slots_ok_def leaked_def unat_dec intro: within_mono)
  moreover have eff: "effects ?t (notify_closed H c ?t)"
    by (rule notify_effects)
  moreover have "conn_disconnect H c s = notify_closed H c ?t"
    using True alive by (auto simp: conn_disconnect_def open_conns_def Let_def)
  ultimately show ?thesis
    using good_step_trans effects_good [OF eff, of limit] effects_shrinks [OF eff]
    by (auto simp: good_step_def shrinks_def)
qed

lemma disconnect_keeps: "tcp_inv limit s \<Longrightarrow> keeps limit s (conn_disconnect H c s)"
  using disconnect_good [of limit s c] by (simp add: keeps_def good_step_def)

lemma error_disconnect_keeps:
  "tcp_inv limit s \<Longrightarrow> keeps limit s (conn_disconnect H c (on_error H cid e s))"
  using keeps_trans disconnect_keeps effects_keeps [OF on_error_effects] keeps_inv by metis

lemma after_read_keeps:
  assumes "tcp_inv limit s"
  shows "keeps limit s (after_read H c res s)"
proof (cases "\<exists>data. res = Read data \<and> data \<noteq> []")
  case True
  then obtain data where data: "res = Read data" "data \<noteq> []"
    by blast
  have "keeps limit s (snd (on_data H c data s))"
    by (rule effects_keeps [OF on_data_effects assms])
  moreover from this have
    "keeps limit s (conn_disconnect H c (on_error H cid e (snd (on_data H c data s))))" for cid e
    using error_disconnect_keeps keeps_trans keeps_inv by blast
  ultimately show ?thesis
    using data by (simp add: after_read_def case_prod_unfold split: option.splits)
next
  case False
  have "keeps limit s s"
    using assms by (simp add: keeps_def)
  with False show ?thesis
    using disconnect_keeps [OF assms] error_disconnect_keeps [OF assms]
    by (auto simp: after_read_def split: read_result.splits)
qed

lemma handle_read_keeps:
  assumes "tcp_inv limit s"
  shows "keeps limit s (handle_read H c s)"
proof -
  obtain buffer bp where buf: "acquire (buffer_pool s) = (buffer, bp)"
    by fastforce
  let ?s1 = "s\<lparr>buffer_pool := bp\<rparr>"
  show ?thesis
  proof (cases "\<exists>b. buffer = Some (Bytes b)")
    case True
    then obtain b where b: "buffer = Some (Bytes b)"
      by blast
    obtain res k where res: "sock_read (length b) (sockets ?s1 c) = (res, k)"
      by fastforce
    let ?s2 = "?s1\<lparr>sockets := (sockets ?s1)(c := k)\<rparr>"
    have "deregister_error (sockets s c) = None"
      using assms by (simp add: tcp_inv_def conns_ok_def)
    then have "deregister_error k = None"
      using res by (auto simp: sock_read_def split: option.splits if_splits)
    then have two: "keeps limit s ?s2"
      using tcp_inv_socket [of limit ?s1 k c] assms by (simp add: keeps_def)
    then have "keeps limit s (after_read H c res ?s2)"
      using after_read_keeps keeps_trans keeps_inv by blast
    then show ?thesis
      using buf b res by (simp add: handle_read_def Let_def tcp_inv_pool)
  next
    case False
    then have "handle_read H c s = ?s1"
      using buf by (auto simp: handle_read_def Let_def split: option.splits poolable.splits)
    then show ?thesis
      using assms by (simp add: keeps_def)
  qed
qed

lemma handle_writable_keeps:
  assumes "tcp_inv limit s"
  shows "keeps limit s (handle_writable H c s)"
proof -
  have "keeps limit s (snd (on_writable H c s))"
    by (rule effects_keeps [OF on_writable_effects assms])
  moreover from this have "keeps limit s (on_error H cid e (snd (on_writable H c s)))" for cid e
    using effects_keeps [OF on_error_effects] keeps_trans keeps_inv by blast
  ultimately show ?thesis
    by (simp add: handle_writable_def case_prod_unfold split: option.splits)
qed

lemma connection_event_keeps:
  assumes "tcp_inv limit s"
  shows "keeps limit s (connection_event H c ev s)"
proof -
  define t where "t = (if is_readable ev then handle_read H c s else s)"
  have t: "keeps limit s t"
    using assms handle_read_keeps [OF assms] by (simp add: t_def keeps_def)
  then have "keeps limit s (handle_writable H c t)"
    using handle_writable_keeps keeps_trans keeps_inv by blast
  with t show ?thesis
    by (simp add: connection_event_def t_def [symmetric])
qed

end

subsection \<open>Runs of the server\<close>

text \<open>What happens to a server: the poller reports an event, connections arrive, the kernel
  changes a socket, or someone uses the context.\<close>

datatype tcp_op =
    Poll_event mio_event
  | Arrive "accept_result list"
  | Kernel connection_id socket
  | Send connection_id bytes
  | Broadcast bytes
  | Close connection_id

fun tcp_step :: "tcp_server_config \<Rightarrow> 'u tcp_handler \<Rightarrow> tcp_op \<Rightarrow> 'u tcp_state \<Rightarrow> 'u tcp_state" where
  "tcp_step cfg H (Poll_event ev) s = on_poll_event cfg H ev s"
| "tcp_step cfg H (Arrive as) s = s\<lparr>backlog := backlog s @ as\<rparr>"
| "tcp_step cfg H (Kernel c k) s = s\<lparr>sockets := (sockets s)(c := k)\<rparr>"
| "tcp_step cfg H (Send c data) s = snd (ctx_send_to c data s)"
| "tcp_step cfg H (Broadcast data) s = snd (ctx_broadcast H data s)"
| "tcp_step cfg H (Close c) s = snd (ctx_close_connection H c s)"

definition tcp_run :: "tcp_server_config \<Rightarrow> 'u tcp_handler \<Rightarrow> tcp_op list \<Rightarrow> 'u tcp_state \<Rightarrow> 'u tcp_state" where
  "tcp_run cfg H ops s = fold (tcp_step cfg H) ops s"

text \<open>The poller takes its sources back, and few enough connections arrive for the ids.\<close>

fun deregisters :: "tcp_op \<Rightarrow> bool" where
  "deregisters (Arrive as) \<longleftrightarrow>
     list_all (\<lambda>x. case x of Accepted a \<Rightarrow> deregister_error (stream a) = None | _ \<Rightarrow> True) as"
| "deregisters (Kernel c k) \<longleftrightarrow> deregister_error k = None"
| "deregisters _ \<longleftrightarrow> True"

fun arrivals :: "tcp_op list \<Rightarrow> nat" where
  "arrivals [] = 0"
| "arrivals (Arrive as # ops) = length as + arrivals ops"
| "arrivals (_ # ops) = arrivals ops"

definition ids_due :: "'u tcp_state \<Rightarrow> nat" where
  "ids_due s = unat (next_conn_id s) + length (backlog s)"

definition run_inv :: "nat option \<Rightarrow> 'u tcp_state \<Rightarrow> 'u tcp_state \<Rightarrow> bool" where
  "run_inv limit s s' \<longleftrightarrow> tcp_inv limit s' \<and> leaked s \<le> leaked s'"

lemma send_to_effects: "effects s (snd (send_to c data s))"
  using r_into_rtranclp [of prim, OF prim_write [of s c data]]
  by (cases "hm_get (connections s) c") (simp_all add: send_to_def Let_def case_prod_unfold)

lemma ctx_send_effects: "effects s (snd (ctx_send_to c data s))"
  by (simp add: ctx_send_to_def send_to_effects)

lemma tcp_inv_arrive:
  assumes "tcp_inv limit s" and "deregisters (Arrive as)"
  shows "tcp_inv limit (s\<lparr>backlog := backlog s @ as\<rparr>) \<and> leaked (s\<lparr>backlog := backlog s @ as\<rparr>) = leaked s"
proof -
  have "deregister_error (stream a) = None" if "Accepted a \<in> set (backlog s @ as)" for a
    using that assms by (auto simp: tcp_inv_def conns_ok_def list_all_iff split: accept_result.splits)
  then show ?thesis
    by (intro tcp_inv_backlog assms(1)) blast
qed

context polite_handler
begin

lemma poll_event_ok:
  assumes "tcp_inv (max_connections cfg) s" and "ids_due s < 2 ^ 64"
  shows "run_inv (max_connections cfg) s (on_poll_event cfg H ev s)
    \<and> ids_due (on_poll_event cfg H ev s) \<le> ids_due s"
proof -
  have same: "s\<lparr>poll := poll s\<rparr> = s"
    by simp
  have quiet: ?thesis if "on_poll_event cfg H ev s = s"
    using assms(1) that by (simp add: run_inv_def)
  show ?thesis
  proof (cases "\<exists>e. hm_get (registry (poll s)) (event_token ev) = Some e
      \<and> interested (entry_interest e) ev")
    case False
    then have "on_poll_event cfg H ev s = s"
      by (auto simp: on_poll_event_def handle_event_def split: option.splits)
    then show ?thesis by (rule quiet)
  next
    case True
    then obtain e where e: "hm_get (registry (poll s)) (event_token ev) = Some e"
        "interested (entry_interest e) ev"
      by blast
    show ?thesis
    proof (cases "handler e")
      case Listener
      with e have result: "on_poll_event cfg H ev s = listener_event cfg H ev s"
        by (simp add: on_poll_event_def handle_event_def tcp_handling_def Let_def)
      have "\<forall>a. Accepted a \<in> set (backlog s) \<longrightarrow> deregister_error (stream a) = None"
        using assms(1) by (simp add: tcp_inv_def conns_ok_def)
      from accept_loop_good [OF assms(1) _ this] assms show ?thesis
        unfolding result by (simp add: listener_event_def run_inv_def ids_due_def)
    next
      case (Connection c)
      with e have "on_poll_event cfg H ev s = connection_event H c ev s"
        by (simp add: on_poll_event_def handle_event_def tcp_handling_def Let_def)
      with connection_event_keeps [OF assms(1), of c ev] show ?thesis
        by (simp add: keeps_def run_inv_def ids_due_def)
    qed
  qed
qed

lemma step_ok:
  assumes "tcp_inv (max_connections cfg) s" and "ids_due s + arrivals [x] < 2 ^ 64" and "deregisters x"
  shows "run_inv (max_connections cfg) s (tcp_step cfg H x s)
    \<and> ids_due (tcp_step cfg H x s) \<le> ids_due s + arrivals [x]"
proof -
  have eff: "run_inv (max_connections cfg) s s' \<and> ids_due s' \<le> ids_due s" if "effects s s'" for s'
    using effects_keeps [OF that assms(1)] by (simp add: keeps_def run_inv_def ids_due_def)
  show ?thesis
  proof (cases x)
    case (Poll_event ev)
    then show ?thesis
      using poll_event_ok [OF assms(1), of ev] assms(2) by simp
  next
    case (Arrive as)
    then show ?thesis
      using tcp_inv_arrive [OF assms(1), of as] assms(3) by (simp add: run_inv_def ids_due_def)
  next
    case (Kernel c k)
    then show ?thesis
      using tcp_inv_socket [OF assms(1), of k c] assms(3) by (simp add: run_inv_def ids_due_def)
  qed (simp_all add: eff ctx_send_effects broadcast_effects ctx_close_effects)
qed

lemma arrivals_Cons: "arrivals (x # ops) = arrivals [x] + arrivals ops"
  by (cases x) simp_all

lemma run_ok:
  "tcp_inv (max_connections cfg) s \<Longrightarrow> ids_due s + arrivals ops < 2 ^ 64 \<Longrightarrow> list_all deregisters ops \<Longrightarrow>
     run_inv (max_connections cfg) s (tcp_run cfg H ops s)"
proof (induction ops arbitrary: s)
  case Nil
  then show ?case by (simp add: tcp_run_def run_inv_def)
next
  case (Cons x ops)
  have sum: "arrivals (x # ops) = arrivals [x] + arrivals ops"
    by (rule arrivals_Cons)
  with Cons.prems have "ids_due s + arrivals [x] < 2 ^ 64"
    by linarith
  from step_ok [OF Cons.prems(1) this] Cons.prems(3)
  have one: "run_inv (max_connections cfg) s (tcp_step cfg H x s)"
      "ids_due (tcp_step cfg H x s) \<le> ids_due s + arrivals [x]"
    by simp_all
  with Cons.IH [of "tcp_step cfg H x s"] Cons.prems sum show ?case
    by (simp add: tcp_run_def run_inv_def)
qed

end

end
