(* ===== verification/Tcp_Stream.thy ===== *)
theory Tcp_Stream
  imports Tcp_Effects
begin

section \<open>Handlers that answer what they read\<close>

text \<open>
  The servers of the repository are handlers whose \<open>on_data\<close> takes a chunk of bytes, changes what
  the handler owns and sends bytes back on the same connection. This theory takes such a handler
  through the layers below it: bytes arrive at a socket, the poller reports it, the registry finds
  the connection's handler, which reads into a buffer of the pool and calls \<open>on_data\<close>. The
  specification is a machine without sockets, registry and pool: per connection the bytes that
  wait and what was sent, and one state of the handler. The locale \<open>answering\<close> is the contract of
  the handler, and its refinement is proved once for all of them.
\<close>

subsection \<open>Sending what fits\<close>

definition can_send :: "connection_id \<Rightarrow> nat \<Rightarrow> 'u tcp_state \<Rightarrow> bool" where
  "can_send c n s \<longleftrightarrow> has_server s \<and> hm_get (connections s) c \<noteq> None
     \<and> write_error (sockets s c) = None \<and> n \<le> room (sockets s c)"

lemma can_send_less: "can_send c n s \<Longrightarrow> m \<le> n \<Longrightarrow> can_send c m s"
  by (simp add: can_send_def)

definition deliver :: "connection_id \<Rightarrow> bytes \<Rightarrow> 'u \<Rightarrow> 'u tcp_state \<Rightarrow> 'u tcp_state" where
  "deliver c bs u s = s\<lparr>sockets := (sockets s)(c := (sockets s c)
       \<lparr>outgoing := outgoing (sockets s c) @ bs, room := room (sockets s c) - length bs\<rparr>), user := u\<rparr>"

lemma deliver_nothing: "deliver c [] u s = s\<lparr>user := u\<rparr>"
  by (simp add: deliver_def)

lemma ctx_send_deliver:
  "can_send c (length bs) s \<Longrightarrow> ctx_send_to c bs s = (None, deliver c bs (user s) s)"
  by (auto simp: can_send_def ctx_send_to_def send_to_def write_all_def deliver_def)

subsection \<open>The specification\<close>

type_synonym 'u answerer = "connection_id \<Rightarrow> bytes \<Rightarrow> 'u \<Rightarrow> bytes \<times> 'u"

record 'u stream_state =
  queued :: "connection_id \<Rightarrow> bytes"
  sent :: "connection_id \<Rightarrow> bytes"
  owned :: 'u

text \<open>What happens to the server: the peer's bytes arrive, and a poll reports the connection
  ready to read or to write.\<close>

datatype net_op = Arrives connection_id bytes | Polled connection_id bool bool

fun about :: "net_op \<Rightarrow> connection_id" where
  "about (Arrives c bs) = c"
| "about (Polled c r w) = c"

fun arrived :: "net_op list \<Rightarrow> bytes" where
  "arrived [] = []"
| "arrived (Arrives c bs # ops) = bs @ arrived ops"
| "arrived (Polled c r w # ops) = arrived ops"

definition stream_read :: "'u answerer \<Rightarrow> connection_id \<Rightarrow> bytes \<Rightarrow> 'u stream_state \<Rightarrow> 'u stream_state" where
  "stream_read f c d a =
     (let (bs, u) = f c d (owned a) in a\<lparr>sent := (sent a)(c := sent a c @ bs), owned := u\<rparr>)"

fun stream_step :: "'u answerer \<Rightarrow> net_op \<Rightarrow> 'u stream_state \<Rightarrow> 'u stream_state" where
  "stream_step f (Arrives c bs) a = a\<lparr>queued := (queued a)(c := queued a c @ bs)\<rparr>"
| "stream_step f (Polled c readable writable) a =
     (if readable \<and> queued a c \<noteq> []
      then stream_read f c (take IO_BUFFER_SIZE (queued a c))
             (a\<lparr>queued := (queued a)(c := drop IO_BUFFER_SIZE (queued a c))\<rparr>)
      else a)"

definition stream_run :: "'u answerer \<Rightarrow> net_op list \<Rightarrow> 'u stream_state \<Rightarrow> 'u stream_state" where
  "stream_run f ops a = fold (stream_step f) ops a"

lemma sent_step: "\<exists>bs. sent (stream_step f op a) c = sent a c @ bs"
  by (cases op) (auto simp: stream_read_def Let_def case_prod_unfold)

lemma sent_run: "\<exists>bs. sent (stream_run f ops a) c = sent a c @ bs"
proof (induction ops arbitrary: a)
  case (Cons op ops)
  from Cons [of "stream_step f op a"] sent_step [of f op a c] show ?case
    by (auto simp: stream_run_def)
qed (simp add: stream_run_def)

text \<open>The chunks that are read from a connection, given what waits there.\<close>

fun reads_of :: "connection_id \<Rightarrow> bytes \<Rightarrow> net_op list \<Rightarrow> bytes list" where
  "reads_of c q [] = []"
| "reads_of c q (Arrives d bs # ops) = reads_of c (if d = c then q @ bs else q) ops"
| "reads_of c q (Polled d readable writable # ops) =
     (if d = c \<and> readable \<and> q \<noteq> [] then take IO_BUFFER_SIZE q # reads_of c (drop IO_BUFFER_SIZE q) ops
      else reads_of c q ops)"

lemma reads_arrived: "\<forall>op \<in> set ops. about op = c \<Longrightarrow> \<exists>rest. concat (reads_of c q ops) @ rest = q @ arrived ops"
proof (induction c q ops rule: reads_of.induct)
  case (3 c q d readable writable ops)
  show ?case
  proof (cases "readable \<and> q \<noteq> []")
    case True
    with 3 obtain rest where "concat (reads_of c (drop IO_BUFFER_SIZE q) ops) @ rest = drop IO_BUFFER_SIZE q @ arrived ops"
      by auto
    then have "take IO_BUFFER_SIZE q @ concat (reads_of c (drop IO_BUFFER_SIZE q) ops) @ rest = q @ arrived ops"
      by simp
    with 3 True show ?thesis
      by auto
  qed (use 3 in auto)
qed auto

text \<open>A handler that keeps nothing answers each chunk by itself.\<close>

lemma stateless_run:
  assumes "\<And>c d u. f c d u = (g d, u)"
  shows "sent (stream_run f ops a) c = sent a c @ concat (map g (reads_of c (queued a c) ops))"
proof (induction ops arbitrary: a)
  case (Cons op ops)
  then show ?case
    using Cons [of "stream_step f op a"] by (cases op) (auto simp: stream_run_def stream_read_def assms)
qed (simp add: stream_run_def)

subsection \<open>The server\<close>

definition poll_of :: "connection_id \<Rightarrow> bool \<Rightarrow> bool \<Rightarrow> mio_event" where
  "poll_of c readable writable =
     \<lparr>event_token = unat (as_u64 c), is_readable = readable, is_writable = writable\<rparr>"

fun net_step :: "tcp_server_config \<Rightarrow> 'u tcp_handler \<Rightarrow> net_op \<Rightarrow> 'u tcp_state \<Rightarrow> 'u tcp_state" where
  "net_step cfg H (Arrives c bs) s =
     s\<lparr>sockets := (sockets s)(c := (sockets s c)\<lparr>incoming := incoming (sockets s c) @ bs\<rparr>)\<rparr>"
| "net_step cfg H (Polled c readable writable) s = on_poll_event cfg H (poll_of c readable writable) s"

definition net_run :: "tcp_server_config \<Rightarrow> 'u tcp_handler \<Rightarrow> net_op list \<Rightarrow> 'u tcp_state \<Rightarrow> 'u tcp_state" where
  "net_run cfg H ops s = fold (net_step cfg H) ops s"

definition stream_of :: "'u tcp_state \<Rightarrow> 'u stream_state" where
  "stream_of s = \<lparr>queued = (\<lambda>c. incoming (sockets s c)), sent = (\<lambda>c. outgoing (sockets s c)), owned = user s\<rparr>"

text \<open>The connections of \<open>C\<close> are open, registered for both kinds of events and in working order;
  \<open>cap\<close> is how much each send buffer takes in all.\<close>

definition working :: "connection_id set \<Rightarrow> (connection_id \<Rightarrow> nat) \<Rightarrow> 'u tcp_state \<Rightarrow> bool" where
  "working C cap s \<longleftrightarrow> has_server s \<and> bytes_only (buffer_pool s) \<and> (\<forall>c \<in> C.
     hm_get (connections s) c \<noteq> None
     \<and> hm_get (registry (poll s)) (unat (as_u64 c)) = Some \<lparr>handler = Connection c,
          entry_interest = \<lparr>wants_readable = True, wants_writable = True\<rparr>\<rparr>
     \<and> \<not> at_eof (sockets s c) \<and> read_error (sockets s c) = None \<and> write_error (sockets s c) = None
     \<and> length (outgoing (sockets s c)) + room (sockets s c) = cap c)"

lemma stream_of_pool [simp]: "stream_of (s\<lparr>buffer_pool := bp\<rparr>) = stream_of s"
  by (simp add: stream_of_def)

lemma working_pool: "working C cap s \<Longrightarrow> bytes_only bp \<Longrightarrow> working C cap (s\<lparr>buffer_pool := bp\<rparr>)"
  by (simp add: working_def)

lemma working_incoming:
  "working C cap (s\<lparr>sockets := (sockets s)(c := (sockets s c)\<lparr>incoming := bs\<rparr>)\<rparr>) = working C cap s"
  by (auto simp: working_def)

lemma stream_of_incoming:
  "stream_of (s\<lparr>sockets := (sockets s)(c := (sockets s c)\<lparr>incoming := bs\<rparr>)\<rparr>)
     = (stream_of s)\<lparr>queued := (queued (stream_of s))(c := bs)\<rparr>"
  by (auto simp: stream_of_def fun_eq_iff)

lemma stream_of_deliver: "stream_of (deliver c bs u s)
    = (stream_of s)\<lparr>sent := (sent (stream_of s))(c := sent (stream_of s) c @ bs), owned := u\<rparr>"
  by (auto simp: stream_of_def deliver_def fun_eq_iff)

lemma working_deliver:
  "working C cap s \<Longrightarrow> c \<in> C \<Longrightarrow> length (sent (stream_of s) c) + length bs \<le> cap c \<Longrightarrow>
     working C cap (deliver c bs u s)"
  by (auto simp: working_def deliver_def stream_of_def)

lemma working_can_send:
  "working C cap s \<Longrightarrow> c \<in> C \<Longrightarrow> length (sent (stream_of s) c) + n \<le> cap c \<Longrightarrow> can_send c n s"
  by (auto simp: working_def can_send_def stream_of_def)

subsection \<open>The contract and its refinement\<close>

locale answering =
  fixes H :: "'u tcp_handler" and f :: "'u answerer"
  assumes answers: "f c d (user s) = (bs, u) \<Longrightarrow> can_send c (length bs) s \<Longrightarrow>
      on_data H c d s = (None, deliver c bs u s)"
    and no_writes: "on_writable H c s = (None, s)"
begin

lemma chunk_refines:
  assumes "working C cap s" and "c \<in> C" and "length (sent (stream_read f c d (stream_of s)) c) \<le> cap c"
  shows "\<exists>s'. on_data H c d s = (None, s') \<and> stream_of s' = stream_read f c d (stream_of s) \<and> working C cap s'"
proof -
  obtain bs u where f: "f c d (user s) = (bs, u)"
    by fastforce
  then have read: "stream_read f c d (stream_of s) = stream_of (deliver c bs u s)"
    by (simp add: stream_read_def stream_of_deliver) (simp add: stream_of_def)
  with assms(3) have room: "length (sent (stream_of s) c) + length bs \<le> cap c"
    by (simp add: stream_of_deliver)
  with answers [OF f working_can_send] working_deliver [OF assms(1,2)] read assms(1,2) show ?thesis
    by simp
qed

lemma read_event_refines:
  assumes "working C cap s" and "c \<in> C"
    and "length (sent (stream_step f (Polled c True b) (stream_of s)) c) \<le> cap c"
  defines "s' \<equiv> handle_read H c s"
  shows "stream_of s' = stream_step f (Polled c True b) (stream_of s) \<and> working C cap s'"
proof -
  obtain buffer bp where buf: "acquire (buffer_pool s) = (buffer, bp)"
    by fastforce
  have pool: "bytes_only (buffer_pool s)" and sock: "\<not> at_eof (sockets s c)" "read_error (sockets s c) = None"
    using assms(1,2) by (auto simp: working_def)
  from acquire_bytes [OF pool buf] have buffer: "buffer = Some (Bytes (replicate IO_BUFFER_SIZE 0))"
    and bp: "bytes_only bp"
    by simp_all
  have give_back: "bytes_only p \<Longrightarrow> bytes_only (pooled_drop buffer p)" for p :: "unit object_pool"
    by (auto simp: buffer pooled_drop_def bytes_only_def)
  show ?thesis
  proof (cases "incoming (sockets s c) = []")
    case True
    then have "s' = s\<lparr>buffer_pool := pooled_drop buffer bp\<rparr>"
      using buf buffer sock
      by (simp add: s'_def handle_read_def sock_read_def IO_BUFFER_SIZE_def after_read_def Let_def)
    moreover have "queued (stream_of s) c = []"
      using True by (simp add: stream_of_def)
    ultimately show ?thesis
      using assms(1) bp by (simp add: working_pool give_back)
  next
    case False
    let ?d = "take IO_BUFFER_SIZE (incoming (sockets s c))"
    let ?s1 = "s\<lparr>buffer_pool := bp, sockets := (sockets s)(c := (sockets s c)
      \<lparr>incoming := drop IO_BUFFER_SIZE (incoming (sockets s c))\<rparr>)\<rparr>"
    have work: "working C cap ?s1"
      using working_incoming [of C cap "s\<lparr>buffer_pool := bp\<rparr>" c] working_pool [OF assms(1) bp] by simp
    have "stream_of ?s1 = (stream_of s)\<lparr>queued := (queued (stream_of s))(c := drop IO_BUFFER_SIZE (queued (stream_of s) c))\<rparr>"
      using stream_of_incoming [of "s\<lparr>buffer_pool := bp\<rparr>" c] by (simp add: stream_of_def)
    then have step: "stream_step f (Polled c True b) (stream_of s) = stream_read f c ?d (stream_of ?s1)"
      using False by (simp add: stream_of_def)
    from chunk_refines [OF work assms(2), of ?d, folded step, OF assms(3)]
    obtain s2 where s2: "on_data H c ?d ?s1 = (None, s2)"
        "stream_of s2 = stream_step f (Polled c True b) (stream_of s)" "working C cap s2"
      by blast
    then have "s' = s2\<lparr>buffer_pool := pooled_drop buffer (buffer_pool s2)\<rparr>"
      using buf buffer sock False
      by (simp add: s'_def handle_read_def sock_read_def IO_BUFFER_SIZE_def after_read_def Let_def)
    with s2 give_back show ?thesis
      by (simp add: working_pool) (simp add: working_def)
  qed
qed

lemma poll_refines:
  fixes cfg :: tcp_server_config
  assumes "working C cap s" and "c \<in> C"
    and "length (sent (stream_step f (Polled c r w) (stream_of s)) c) \<le> cap c"
  defines "s' \<equiv> on_poll_event cfg H (poll_of c r w) s"
  shows "stream_of s' = stream_step f (Polled c r w) (stream_of s) \<and> working C cap s'"
proof -
  have "hm_get (registry (poll s)) (unat (as_u64 c)) = Some \<lparr>handler = Connection c,
      entry_interest = \<lparr>wants_readable = True, wants_writable = True\<rparr>\<rparr>"
    using assms(1,2) by (simp add: working_def)
  then have s': "s' = (if r then handle_read H c s else s)"
    by (auto simp: s'_def on_poll_event_def handle_event_def poll_of_def interested_def tcp_handling_def
        connection_event_def handle_writable_def no_writes Let_def)
  show ?thesis
  proof (cases r)
    case True
    with assms(3) read_event_refines [OF assms(1,2), of w] s' show ?thesis
      by (simp only: if_True)
  qed (use s' assms(1) in simp)
qed

lemma step_refines:
  assumes "working C cap s" and "about op \<in> C"
    and "length (sent (stream_step f op (stream_of s)) (about op)) \<le> cap (about op)"
  shows "stream_of (net_step cfg H op s) = stream_step f op (stream_of s) \<and> working C cap (net_step cfg H op s)"
proof (cases op)
  case (Arrives c bs)
  with assms(1) show ?thesis
    by (simp add: stream_of_incoming working_incoming) (simp add: stream_of_def)
next
  case (Polled c r w)
  with assms poll_refines [of C cap s c r w cfg] show ?thesis
    by simp
qed

lemma run_refines:
  assumes "working C cap s" and "\<forall>op \<in> set ops. about op \<in> C"
    and "\<forall>c \<in> C. length (sent (stream_run f ops (stream_of s)) c) \<le> cap c"
  shows "stream_of (net_run cfg H ops s) = stream_run f ops (stream_of s) \<and> working C cap (net_run cfg H ops s)"
  using assms
proof (induction ops arbitrary: s)
  case Nil
  then show ?case by (simp add: net_run_def stream_run_def)
next
  case (Cons op ops)
  let ?a = "stream_step f op (stream_of s)"
  have "length (sent ?a (about op)) \<le> length (sent (stream_run f ops ?a) (about op))"
    using sent_run [of f ops ?a "about op"] by auto
  also have "\<dots> \<le> cap (about op)"
    using Cons.prems(2,3) by (simp add: stream_run_def)
  finally have "length (sent ?a (about op)) \<le> cap (about op)" .
  with Cons.prems(1,2) step_refines [of C cap s op cfg]
  have step: "stream_of (net_step cfg H op s) = ?a" "working C cap (net_step cfg H op s)"
    by simp_all
  with Cons.prems(2,3) Cons.IH [OF step(2)] show ?case
    by (simp add: net_run_def stream_run_def)
qed

end

end
