(* ===== verification/Tcp_Props.thy ===== *)
theory Tcp_Props
  imports Tcp_Stream "HOL-Library.Sublist"
begin

section \<open>Properties of the TCP server\<close>

text \<open>
  What the TCP server promises of its connections, their slots, sends and reads, and what goes
  wrong when events meet an accept half-way. The echo handler of the crate's documentation and
  tests is the handler of the witnesses.
\<close>

definition echo_handler :: "'u tcp_handler" where
  "echo_handler = default_handler (\<lambda>c data s. ctx_send_to c data s)"

interpretation echo: polite_handler echo_handler
  by unfold_locales (simp_all add: echo_handler_def default_handler_def ctx_send_effects)

interpretation echo_answers: answering echo_handler "\<lambda>c d u. (d, u)"
  by unfold_locales (simp_all add: echo_handler_def default_handler_def ctx_send_deliver)

text \<open>What an open connection sends is what it reads.\<close>

lemma echo_over_tcp:
  assumes "working C cap s" and "\<forall>op \<in> set ops. about op \<in> C"
    and "\<forall>c \<in> C. length (outgoing (sockets s c) @ concat (reads_of c (incoming (sockets s c)) ops)) \<le> cap c"
  shows "outgoing (sockets (net_run cfg echo_handler ops s) c)
    = outgoing (sockets s c) @ concat (reads_of c (incoming (sockets s c)) ops)"
proof -
  have echo: "sent (stream_run (\<lambda>c d u. (d, u)) ops (stream_of s)) d
      = outgoing (sockets s d) @ concat (reads_of d (incoming (sockets s d)) ops)" for d
    using stateless_run [of "\<lambda>c d u. (d, u)" "\<lambda>d. d" ops "stream_of s" d] by (simp add: stream_of_def)
  have "stream_of (net_run cfg echo_handler ops s) = stream_run (\<lambda>c d u. (d, u)) ops (stream_of s)"
    using echo_answers.run_refines [OF assms(1,2)] assms(3) by (simp add: echo)
  then have "sent (stream_of (net_run cfg echo_handler ops s)) c
      = outgoing (sockets s c) @ concat (reads_of c (incoming (sockets s c)) ops)"
    by (simp add: echo)
  then show ?thesis
    by (simp add: stream_of_def)
qed

subsection \<open>Starting\<close>

definition fresh_socket :: "bytes \<Rightarrow> socket" where
  "fresh_socket data = \<lparr>incoming = data, at_eof = False, read_error = None, outgoing = [],
     room = 65536, write_error = None, deregister_error = None\<rparr>"

text \<open>A server with one connection open, and what a run does that reads one chunk on it.\<close>

definition one_open :: "'u \<Rightarrow> 'u tcp_state" where
  "one_open u = \<lparr>connections = hm_insert 1 \<lparr>conn_token = 1, conn_peer = ''p''\<rparr> [], counter = 1,
     next_conn_id = 2, buffer_pool = object_pool_new 20 (Bytes []), has_server = True,
     has_loop = True, loop_alive = True, poll = \<lparr>registry = hm_insert 1 \<lparr>handler = Connection 1,
       entry_interest = \<lparr>wants_readable = True, wants_writable = True\<rparr>\<rparr> []\<rparr>,
     sockets = (\<lambda>_. fresh_socket []), backlog = [], user = u\<rparr>"

definition one_chunk :: "bytes \<Rightarrow> net_op list" where
  "one_chunk d = [Arrives 1 d, Polled 1 True False]"

lemma one_open_facts:
  "working {1} (\<lambda>_. 65536) (one_open u)" "outgoing (sockets (one_open u) 1) = []"
  "incoming (sockets (one_open u) 1) = []" "user (one_open u) = u"
  by (simp_all add: working_def one_open_def fresh_socket_def bytes_only_def object_pool_new_def
      hm_simps as_u64_def)

lemma one_chunk_reads: "d \<noteq> [] \<Longrightarrow> length d \<le> 8192 \<Longrightarrow> reads_of 1 [] (one_chunk d @ ops) = d # reads_of 1 [] ops"
  by (simp add: one_chunk_def IO_BUFFER_SIZE_def)

lemma one_chunk_about: "\<forall>op \<in> set (one_chunk d). about op \<in> {1}"
  by (simp add: one_chunk_def)

lemma hm_get_empty: "hm_get [] = Map.empty"
  by (rule ext) simp

lemma started_inv:
  assumes "tcp_server_new cfg None socks u = Inr s0" and "start None 0 s0 = (r, s)"
    and "\<And>c. deregister_error (socks c) = None"
  shows "tcp_inv (max_connections cfg) s \<and> ids_due s = 1 \<and> r = None
    \<and> has_server s \<and> has_loop s \<and> connections s = [] \<and> counter s = 0"
  using assms
  by (auto simp: tcp_server_new_def start_def tcp_inv_def conns_ok_def slots_ok_def within_def
      handler_at_def open_conns_def register_def as_outcome_def poll_handle_new_def
      handler_entry_new_def ids_due_def hm_simps hm_get_empty Let_def split: option.splits if_splits)

text \<open>C21: the server after any run, from its start, with a handler that only uses its
  context: each open connection is registered for its own handler under the token of its id,
  no handler of a closed one is left, and the open connections are at most the count, which
  never exceeds the configured limit.\<close>

theorem server_consistent:
  assumes "polite_handler H" and "tcp_server_new cfg None socks u = Inr s0"
    and "start None 0 s0 = (r, s)" and "\<And>c. deregister_error (socks c) = None"
    and "list_all deregisters ops" and "arrivals ops + 1 < 2 ^ 64"
    and "s' = tcp_run cfg H ops s"
  shows "(handler_at s' t = Some (Connection c) \<longleftrightarrow> t = unat c \<and> hm_get (connections s') c \<noteq> None)
    \<and> (handler_at s' t = Some Listener \<longleftrightarrow> t = 0)
    \<and> length (connections s') \<le> unat (connection_count s')
    \<and> within (max_connections cfg) (unat (connection_count s'))"
proof -
  note init = started_inv [OF assms(2-4)]
  then have "ids_due s + arrivals ops < 2 ^ 64"
    using assms(6) by simp
  with polite_handler.run_ok [OF assms(1)] init assms(5,7)
  have inv: "tcp_inv (max_connections cfg) s'"
    by (simp add: run_inv_def)
  then have "conns_ok s'"
    by (simp add: tcp_inv_def)
  from conns_okD(5,8) [OF this] length_connections [OF this] inv show ?thesis
    by (auto simp: tcp_inv_def slots_ok_def connection_count_def open_conns_def domIff)
qed

definition sample_cfg :: tcp_server_config where
  "sample_cfg = config_build (set_max_connections 1 config_builder)"

definition sample_server :: "nat tcp_state" where
  "sample_server = (case tcp_server_new sample_cfg None (\<lambda>_. fresh_socket []) 0 of
     Inr s \<Rightarrow> snd (start None 0 s))"

definition sample_conn :: pending_conn where
  "sample_conn = \<lparr>peer = ''10.0.0.1:5000'', stream = fresh_socket [1, 2, 3],
     nodelay_error = None, register_error = None\<rparr>"

definition event_at :: "token \<Rightarrow> mio_event" where
  "event_at tok = \<lparr>event_token = tok, is_readable = True, is_writable = False\<rparr>"

definition sample_ops :: "tcp_op list" where
  "sample_ops = [Arrive [Accepted sample_conn, Accepted sample_conn], Poll_event (event_at 0),
     Poll_event (event_at 1)]"

lemma sample_limit: "max_connections sample_cfg = Some 1"
  by (simp add: sample_cfg_def config_build_def set_max_connections_def option_or_def Let_def)

lemma sample_start:
  "\<exists>s0. tcp_server_new sample_cfg None (\<lambda>_. fresh_socket []) 0 = Inr s0
     \<and> start None 0 s0 = (None, sample_server)"
  by (simp add: sample_server_def tcp_server_new_def start_def Let_def case_prod_unfold)

lemma sample_ops_ok: "list_all deregisters sample_ops" "arrivals sample_ops = 2"
  by (simp_all add: sample_ops_def sample_conn_def fresh_socket_def)

theorem server_consistent_witness:
  "length (connections (tcp_run sample_cfg echo_handler sample_ops sample_server)) \<le> 1"
proof -
  obtain s0 where s0: "tcp_server_new sample_cfg None (\<lambda>_. fresh_socket []) 0 = Inr s0"
      "start None 0 s0 = (None, sample_server)"
    using sample_start by blast
  have "deregister_error ((\<lambda>_. fresh_socket []) c) = None" for c :: connection_id
    by (simp add: fresh_socket_def)
  from server_consistent [OF echo.polite_handler_axioms s0 this sample_ops_ok(1) _ refl, of 1 1]
  show ?thesis
    by (simp add: sample_ops_ok sample_limit within_def)
qed

subsection \<open>Slots\<close>

text \<open>A connection the server itself closes gives its slot up for good, the count being
  lowered only when the peer ends a connection: whatever happens later, the open connections
  and the slots lost, this one included, are at most the limit.\<close>

theorem close_loses_slot:
  assumes "polite_handler H" and "tcp_inv (Some m) s" and "max_connections cfg = Some m"
    and "has_server s" and "has_loop s" and "hm_get (connections s) c \<noteq> None"
    and "list_all deregisters ops" and "ids_due s + arrivals ops < 2 ^ 64"
    and "s' = tcp_run cfg H (Close c # ops) s"
  shows "length (connections s') + leaked s + 1 \<le> m"
proof -
  let ?d = "detach c s" and ?s1 = "notify_closed H c (detach c s)"
  have c: "c \<in> open_conns s" and ok: "conns_ok s"
    using assms(2,6) by (auto simp: open_conns_def tcp_inv_def)
  have step: "tcp_step cfg H (Close c) s = ?s1"
    using assms(4-6) by (simp add: ctx_close_connection_def close_connection_def)
  have card: "0 < card (open_conns s)"
    using c by (auto simp: card_gt_0_iff)
  have d: "tcp_inv (Some m) ?d" "leaked s + 1 \<le> leaked ?d"
    using assms(2) c card conns_ok_detach [OF ok, of c]
    by (auto simp: tcp_inv_def slots_ok_def leaked_def)
  note one = effects_keeps [OF polite_handler.notify_effects [OF assms(1), of ?d c] d(1)]
  then have "tcp_inv (max_connections cfg) ?s1" "ids_due ?s1 + arrivals ops < 2 ^ 64"
    using assms(3,8) by (simp_all add: keeps_def ids_due_def)
  from polite_handler.run_ok [OF assms(1) this assms(7)]
  have "run_inv (Some m) ?s1 s'"
    using assms(3,9) step by (simp add: tcp_run_def)
  then have "tcp_inv (Some m) s'" "leaked s + 1 \<le> leaked s'"
    using one d(2) by (auto simp: run_inv_def keeps_def)
  then show ?thesis
    using length_connections [of s'] by (auto simp: tcp_inv_def slots_ok_def within_def leaked_def)
qed

definition accepted_server :: "nat tcp_state" where
  "accepted_server = accept_one sample_cfg echo_handler sample_conn sample_server"

lemmas sample_simps = accepted_server_def accept_one_def accept_admit_def try_admit_def sample_limit
  sample_server_def tcp_server_new_def start_def sample_conn_def accept_register_def as_outcome_def
  register_def accept_insert_def accept_announce_def echo_handler_def default_handler_def as_u64_def
  handler_entry_new_def poll_handle_new_def hm_simps Let_def

lemma accepted_server_facts:
  "connections accepted_server = hm_insert 1 \<lparr>conn_token = 1, conn_peer = ''10.0.0.1:5000''\<rparr> []"
  "counter accepted_server = 1" "next_conn_id accepted_server = 2"
  "has_server accepted_server" "has_loop accepted_server" "backlog accepted_server = []"
  "sockets accepted_server 1 = fresh_socket [1, 2, 3]"
  "buffer_pool accepted_server = object_pool_new 20 (Bytes (replicate (buffer_size sample_cfg) 0))"
  by (simp_all add: sample_simps)

lemma accepted_inv: "tcp_inv (Some 1) accepted_server"
proof -
  obtain s0 where s0: "tcp_server_new sample_cfg None (\<lambda>_. fresh_socket []) 0 = Inr s0"
      "start None 0 s0 = (None, sample_server)"
    using sample_start by blast
  note init = started_inv [OF s0, simplified fresh_socket_def, simplified]
  then have "tcp_inv (max_connections sample_cfg) sample_server" "unat (next_conn_id sample_server) + 1 < 2 ^ 64"
    by (simp_all add: ids_due_def)
  from echo.accept_good [OF this, of sample_conn] show ?thesis
    by (simp add: good_step_def accepted_server_def sample_limit sample_conn_def fresh_socket_def)
qed

theorem close_loses_slot_witness:
  "connections (tcp_run sample_cfg echo_handler (Close 1 # sample_ops) accepted_server) = []"
proof -
  have "length (connections (tcp_run sample_cfg echo_handler (Close 1 # sample_ops) accepted_server))
      + leaked accepted_server + 1 \<le> 1"
    by (rule close_loses_slot [OF echo.polite_handler_axioms accepted_inv sample_limit _ _ _ sample_ops_ok(1) _ refl])
      (simp_all add: accepted_server_facts sample_ops_ok ids_due_def hm_simps)
  then show ?thesis by simp
qed


subsection \<open>Sending\<close>



subsection \<open>Reading\<close>

lemma incoming_write_all [simp]: "incoming (snd (write_all data k)) = incoming k"
  by (simp add: write_all_def split: option.splits)

lemma effects_incoming: "effects s s' \<Longrightarrow> incoming (sockets s' c) = incoming (sockets s c)"
  by (induction rule: rtranclp_induct) (auto elim!: prim.cases)

lemma disconnect_incoming:
  assumes "polite_handler H"
  shows "incoming (sockets (conn_disconnect H c s) d) = incoming (sockets s d)"
proof -
  have "incoming (sockets (notify_closed H c t) d) = incoming (sockets t d)" for t
    by (rule effects_incoming [OF polite_handler.notify_effects [OF assms]])
  then show ?thesis
    by (simp add: conn_disconnect_def Let_def split: option.splits)
qed

lemma data_incoming:
  assumes "polite_handler H"
  shows "incoming (sockets (after_read H c (Read data) s) d) = incoming (sockets s d)"
proof -
  have "incoming (sockets (snd (on_data H c data s)) d) = incoming (sockets s d)"
    by (rule effects_incoming [OF polite_handler.on_data_effects [OF assms]])
  moreover have "incoming (sockets (on_error H cid e t) d) = incoming (sockets t d)" for cid e t
    by (rule effects_incoming [OF polite_handler.on_error_effects [OF assms]])
  ultimately show ?thesis
    by (simp add: after_read_def disconnect_incoming [OF assms] case_prod_unfold split: option.splits)
qed

lemma writable_incoming:
  assumes "polite_handler H"
  shows "incoming (sockets (handle_writable H c s) d) = incoming (sockets s d)"
proof -
  have "incoming (sockets (snd (on_writable H c s)) d) = incoming (sockets s d)"
    by (rule effects_incoming [OF polite_handler.on_writable_effects [OF assms]])
  moreover have "incoming (sockets (on_error H cid e t) d) = incoming (sockets t d)" for cid e t
    by (rule effects_incoming [OF polite_handler.on_error_effects [OF assms]])
  ultimately show ?thesis
    by (simp add: handle_writable_def case_prod_unfold split: option.splits)
qed

lemma handle_read_data:
  assumes "bytes_only (buffer_pool s)" and "read_error (sockets s c) = None"
    and "incoming (sockets s c) \<noteq> []"
  obtains bp bp' where "handle_read H c s =
    (after_read H c (Read (take IO_BUFFER_SIZE (incoming (sockets s c))))
      (s\<lparr>buffer_pool := bp, sockets := (sockets s)(c :=
         (sockets s c)\<lparr>incoming := drop IO_BUFFER_SIZE (incoming (sockets s c))\<rparr>)\<rparr>))\<lparr>buffer_pool := bp'\<rparr>"
proof -
  obtain buffer bp where buf: "acquire (buffer_pool s) = (buffer, bp)"
    by fastforce
  with acquire_bytes [OF assms(1) this]
  have "buffer = Some (Bytes (replicate IO_BUFFER_SIZE 0))"
    by simp
  then show ?thesis
    using buf assms(2,3) by (intro that) (simp add: handle_read_def sock_read_def IO_BUFFER_SIZE_def Let_def)
qed

text \<open>One readable event takes at most 8192 bytes off a connection, whatever buffer size
  is configured: the rest of what the peer sent stays in the socket, though the poller reports
  it only once.\<close>

theorem one_read_per_event:
  assumes "polite_handler H" and "bytes_only (buffer_pool s)" and "is_readable ev"
    and "read_error (sockets s c) = None" and "incoming (sockets s c) \<noteq> []"
  shows "incoming (sockets (connection_event H c ev s) c) = drop 8192 (incoming (sockets s c))"
proof -
  obtain bp bp' where "handle_read H c s =
    (after_read H c (Read (take IO_BUFFER_SIZE (incoming (sockets s c))))
      (s\<lparr>buffer_pool := bp, sockets := (sockets s)(c :=
         (sockets s c)\<lparr>incoming := drop IO_BUFFER_SIZE (incoming (sockets s c))\<rparr>)\<rparr>))\<lparr>buffer_pool := bp'\<rparr>"
    using handle_read_data [OF assms(2,4,5)] by blast
  then have "incoming (sockets (handle_read H c s) c) = drop 8192 (incoming (sockets s c))"
    by (simp add: data_incoming [OF assms(1)] IO_BUFFER_SIZE_def)
  then show ?thesis
    using assms(3) by (simp add: connection_event_def Let_def writable_incoming [OF assms(1)])
qed

lemma accepted_pool: "bytes_only (buffer_pool accepted_server)"
  by (auto simp: accepted_server_facts bytes_only_def object_pool_new_def)

theorem one_read_per_event_witness:
  "length (incoming (sockets (connection_event echo_handler 1 (event_at 1)
     (accepted_server\<lparr>sockets := (\<lambda>_. fresh_socket (replicate 8200 7))\<rparr>)) 1)) = 8"
proof -
  let ?s = "accepted_server\<lparr>sockets := (\<lambda>_. fresh_socket (replicate 8200 7))\<rparr>"
  have "incoming (sockets (connection_event echo_handler 1 (event_at 1) ?s) 1)
      = drop 8192 (incoming (sockets ?s 1))"
    by (rule one_read_per_event)
      (simp_all add: echo.polite_handler_axioms accepted_pool event_at_def fresh_socket_def)
  then show ?thesis
    by (simp only: length_drop) (simp add: fresh_socket_def)
qed

subsection \<open>Failing connections\<close>

definition ends_connection :: "'u tcp_handler \<Rightarrow> connection_id \<Rightarrow> read_result \<Rightarrow> 'u tcp_state \<Rightarrow> bool" where
  "ends_connection H c res s \<longleftrightarrow> (case res of
      Read data \<Rightarrow> data = [] \<or> fst (on_data H c data s) \<noteq> None
    | Read_blocked \<Rightarrow> False
    | Read_failed e \<Rightarrow> True)"

lemma disconnect_closed:
  assumes "polite_handler H" and "tcp_inv limit s"
  shows "c \<notin> open_conns (conn_disconnect H c s)"
proof (cases "c \<in> open_conns s")
  case False
  then show ?thesis
    by (simp add: conn_disconnect_def open_conns_def domIff)
next
  case True
  have "loop_alive s"
    using assms(2) by (simp add: tcp_inv_def conns_ok_def)
  then have "conn_disconnect H c s = notify_closed H c ((detach c s)\<lparr>counter := counter s - 1\<rparr>)"
    using True by (auto simp: conn_disconnect_def open_conns_def Let_def)
  then show ?thesis
    using effects_shrinks [OF polite_handler.notify_effects [OF assms(1)],
        of "(detach c s)\<lparr>counter := counter s - 1\<rparr>" c]
    by (auto simp: shrinks_def)
qed

text \<open>C25: a read that reports the end of the stream or an error, or whose data the handler
  fails on, ends the connection: it leaves the map, its handler leaves the event loop, so later
  events on its token change nothing, and the invariant of the server holds.\<close>

theorem failed_read_ends_connection:
  assumes "polite_handler H" and "tcp_inv limit s" and "ends_connection H c res s"
    and "s' = after_read H c res s" and "event_token ev = unat c" and "c \<in> open_conns s"
  shows "c \<notin> open_conns s' \<and> handler_at s' (unat c) = None \<and> on_poll_event cfg H ev s' = s'
    \<and> tcp_inv limit s'"
proof -
  have inv: "tcp_inv limit s'"
    using polite_handler.after_read_keeps [OF assms(1,2)] assms(4) by (simp add: keeps_def)
  note keep = polite_handler.on_error_effects [OF assms(1)] polite_handler.on_data_effects [OF assms(1)]
  have inv': "tcp_inv limit t" if "effects s t" for t
    using effects_keeps [OF that assms(2)] by (simp add: keeps_def)
  have "\<exists>t. s' = conn_disconnect H c t \<and> tcp_inv limit t"
  proof (cases res)
    case (Read data)
    then show ?thesis
      using assms(2-4) inv' effects_trans [OF keep(2) keep(1)]
      by (fastforce simp: ends_connection_def after_read_def case_prod_unfold split: option.splits)
  next
    case Read_blocked
    then show ?thesis
      using assms(3) by (simp add: ends_connection_def)
  next
    case (Read_failed e)
    then show ?thesis
      using assms(4) inv' [OF keep(1)] by (auto simp: after_read_def)
  qed
  then have closed: "c \<notin> open_conns s'"
    using disconnect_closed [OF assms(1)] by blast
  have ok: "conns_ok s'"
    using inv by (simp add: tcp_inv_def)
  have "handler_at s' (unat c) = None"
  proof (cases "handler_at s' (unat c)")
    case (Some h)
    have "0 < unat c"
      using assms(2,6) conns_okD(7) by (auto simp: tcp_inv_def)
    then have "h \<noteq> Listener"
      using Some conns_okD(5) [OF ok, of "unat c"] by auto
    moreover have "h \<noteq> Connection d" for d
      using Some conns_okD(8) [OF ok, of "unat c" d] closed word_unat_eq_iff [of c d] by auto
    ultimately show ?thesis
      by (cases h) blast+
  qed
  with closed inv assms(5) show ?thesis
    by (simp add: on_poll_event_def handle_event_def handler_at_def)
qed

theorem failed_read_ends_connection_witness:
  "1 \<notin> open_conns (after_read echo_handler 1 (Read []) accepted_server)"
proof -
  have "1 \<in> open_conns accepted_server"
    by (simp add: open_conns_def accepted_server_facts hm_simps)
  with failed_read_ends_connection [OF echo.polite_handler_axioms accepted_inv, of 1 "Read []" _ "event_at 1"]
  show ?thesis
    by (simp add: ends_connection_def event_at_def)
qed

subsection \<open>Races\<close>

text \<open>The check and the increment of the count together never exceed the limit, however often
  other threads change the count in between: an increment starts from a count below the limit
  that was still there when it was exchanged.\<close>

theorem admission_bounded:
  assumes "admit_loop m attempts = Some (Some n)" and "m < 2 ^ 64"
  shows "unat n \<le> m \<and> (\<exists>current. (current, current) \<in> set attempts \<and> unat n = unat current + 1)"
  using assms
proof (induction attempts)
  case Nil
  then show ?case by simp
next
  case (Cons x rest)
  obtain current found where x: "x = (current, found)"
    by fastforce
  show ?case
  proof (cases "\<not> m \<le> unat current \<and> found = current")
    case True
    then have "n = current + 1" "unat current + unat (1 :: usize) < 2 ^ 64"
      using Cons.prems x by simp_all
    with True x show ?thesis
      by (auto simp: word_view)
  next
    case False
    then show ?thesis
      using Cons x by (auto split: if_splits)
  qed
qed

theorem admission_bounded_witness:
  "unat (3 :: usize) \<le> 3 \<and> (\<exists>current :: usize. (current, current) \<in> {(1, 2), (2, 2)} \<and> unat (3 :: usize) = unat current + 1)"
  using admission_bounded [of 3 "[(1, 2), (2, 2)]" 3] by simp

text \<open>A peer that ends its connection while \<open>on_connect\<close> is running, and so makes it fail,
  gives the slot back twice. For the only connection of a server the count falls below zero and
  wraps: from then on every limit refuses every connection.\<close>

theorem connect_race_underflows:
  assumes "polite_handler H" and "conns_ok s" and "counter s = 1" and "c \<in> open_conns s"
    and "\<And>t. fst (on_connect H c t) \<noteq> None" and "m < 2 ^ 64"
    and "s' = accept_announce H a c (conn_disconnect H c s)"
  shows "counter s' = - 1 \<and> try_admit (Some m) (counter s') = None"
proof -
  have keep: "counter t = counter s" if "effects s t" for s t :: "'a tcp_state"
    using effects_shrinks [OF that] by (simp add: shrinks_def)
  let ?d = "(detach c s)\<lparr>counter := counter s - 1\<rparr>"
  have "loop_alive s"
    using assms(2) by (simp add: conns_ok_def)
  then have "conn_disconnect H c s = notify_closed H c ?d"
    using assms(4) by (auto simp: conn_disconnect_def open_conns_def Let_def)
  then have "counter (conn_disconnect H c s) = 0"
    using keep [OF polite_handler.notify_effects [OF assms(1), of ?d c]] assms(3) by simp
  moreover have "counter (accept_announce H a c t) = counter t - 1" for t
    using assms(5) keep [OF polite_handler.on_event_effects [OF assms(1)]]
      keep [OF polite_handler.on_connect_effects [OF assms(1)]]
      keep [OF polite_handler.on_error_effects [OF assms(1)]]
    by (auto simp: accept_announce_def Let_def case_prod_unfold split: option.splits)
  ultimately have wrapped: "counter s' = - 1"
    using assms(7) by simp
  then have "unat (counter s') = 2 ^ 64 - 1"
    by (simp add: unsigned_minus_1_eq_mask mask_eq_exp_minus_1)
  with assms(6) wrapped show ?thesis
    by (simp add: try_admit_def)
qed

definition refusing_handler :: "'u tcp_handler" where
  "refusing_handler = echo_handler\<lparr>on_connect := \<lambda>_ s. (Some ''no'', s)\<rparr>"

interpretation refusing: polite_handler refusing_handler
  by unfold_locales (simp_all add: refusing_handler_def echo_handler_def default_handler_def ctx_send_effects)

theorem connect_race_underflows_witness:
  "counter (accept_announce refusing_handler sample_conn 1 (conn_disconnect refusing_handler 1 accepted_server)) = - 1"
proof -
  have ok: "conns_ok accepted_server"
    using accepted_inv by (simp add: tcp_inv_def)
  have opened: "1 \<in> open_conns accepted_server"
    by (simp add: accepted_server_facts open_conns_def hm_simps)
  have fails: "fst (on_connect refusing_handler 1 t) \<noteq> None" for t :: "nat tcp_state"
    by (simp add: refusing_handler_def)
  show ?thesis
    using connect_race_underflows [OF refusing.polite_handler_axioms ok accepted_server_facts(2) opened
        fails _ refl, of 0 sample_conn] by simp
qed

text \<open>A connection that ends between its registration and its insertion is never closed: the
  handler finds nothing to remove, and the insertion that follows opens a connection whose end
  has been reported already.\<close>

theorem early_disconnect_lost:
  assumes "c \<notin> open_conns s"
  shows "conn_disconnect H c s = s \<and> c \<in> open_conns (accept_insert a c (conn_disconnect H c s))"
  using assms by (auto simp: conn_disconnect_def accept_insert_def open_conns_def hm_simps domIff)

theorem early_disconnect_lost_witness:
  "1 \<in> open_conns (accept_insert sample_conn 1 (conn_disconnect echo_handler 1 sample_server))"
proof -
  have "1 \<notin> open_conns sample_server"
    by (simp add: sample_server_def tcp_server_new_def start_def open_conns_def hm_get_empty Let_def case_prod_unfold)
  from early_disconnect_lost [OF this] show ?thesis
    by blast
qed

text \<open>The ids of connections, which start at 1, are their tokens: the connection whose id is the
  listener's token takes the listener's place in the event loop, and none is accepted any more.\<close>

theorem listener_token_taken:
  assumes "accept_register H a s = (Some c, s')" and "unat (next_conn_id s) = tok"
    and "handler_at s tok = Some Listener"
  shows "handler_at s' tok = Some (Connection c)"
  using assms
  by (auto simp: accept_register_def register_def as_outcome_def as_u64_def handler_at_def
      handler_entry_new_def hm_simps Let_def split: if_splits option.splits)

theorem listener_token_taken_witness:
  "handler_at (snd (accept_register echo_handler sample_conn (snd (start None 1 sample_server)))) 1
     = Some (Connection 1)"
proof -
  let ?s = "snd (start None 1 sample_server)"
  have "accept_register echo_handler sample_conn ?s
      = (Some 1, snd (accept_register echo_handler sample_conn ?s))" "unat (next_conn_id ?s) = 1"
    "handler_at ?s 1 = Some Listener"
    by (simp_all add: sample_simps handler_at_def)
  from listener_token_taken [OF this] show ?thesis .
qed

end
