(* ===== verification/Tcp_Races.thy ===== *)
theory Tcp_Races
  imports Tcp_Props
begin

section \<open>The TCP server under interleaving\<close>

text \<open>
  The workers of the event loop run at the same time. The listener's mutex is held through one
  turn of the accept loop, so at most one accept is under way, but other events fall between its
  stages: after the registration, and after the insertion into the map. The relation below has
  the stages as steps and lets everything else happen at any time, also events of connections
  that have been closed, which a worker may have taken from its inbox before.
\<close>

datatype accept_stage = Idle | Registered connection_id pending_conn | Inserted connection_id pending_conn

record 'u tcp_conc =
  srv :: "'u tcp_state"
  stage :: accept_stage

inductive conc_step :: "tcp_server_config \<Rightarrow> 'u tcp_handler \<Rightarrow> 'u tcp_conc \<Rightarrow> 'u tcp_conc \<Rightarrow> bool"
  for cfg H where
  refuse: "stage x = Idle \<Longrightarrow> accept_admit cfg H a (srv x) = (False, s) \<Longrightarrow> conc_step cfg H x (x\<lparr>srv := s\<rparr>)"
| fail: "stage x = Idle \<Longrightarrow> accept_admit cfg H a (srv x) = (True, s1) \<Longrightarrow>
    accept_register H a s1 = (None, s) \<Longrightarrow>
    unat (next_conn_id (srv x)) + 1 < 2 ^ 64 \<Longrightarrow> conc_step cfg H x (x\<lparr>srv := s\<rparr>)"
| registered: "stage x = Idle \<Longrightarrow> accept_admit cfg H a (srv x) = (True, s1) \<Longrightarrow>
    accept_register H a s1 = (Some c, s) \<Longrightarrow>
    unat (next_conn_id (srv x)) + 1 < 2 ^ 64 \<Longrightarrow>
    conc_step cfg H x (x\<lparr>srv := s, stage := Registered c a\<rparr>)"
| inserted: "stage x = Registered c a \<Longrightarrow>
    conc_step cfg H x (x\<lparr>srv := accept_insert a c (srv x), stage := Inserted c a\<rparr>)"
| announced: "stage x = Inserted c a \<Longrightarrow>
    conc_step cfg H x (x\<lparr>srv := accept_announce H a c (srv x), stage := Idle\<rparr>)"
| event: "conc_step cfg H x (x\<lparr>srv := connection_event H c ev (srv x)\<rparr>)"
| close: "conc_step cfg H x (x\<lparr>srv := snd (ctx_close_connection H c (srv x))\<rparr>)"
| send: "conc_step cfg H x (x\<lparr>srv := snd (ctx_send_to c data (srv x))\<rparr>)"
| kernel: "conc_step cfg H x (x\<lparr>srv := (srv x)\<lparr>sockets := (sockets (srv x))(c := k)\<rparr>\<rparr>)"

inductive_cases conc_stepE: "conc_step cfg H x y"

abbreviation conc_steps :: "tcp_server_config \<Rightarrow> 'u tcp_handler \<Rightarrow> 'u tcp_conc \<Rightarrow> 'u tcp_conc \<Rightarrow> bool" where
  "conc_steps cfg H \<equiv> (conc_step cfg H)\<^sup>*\<^sup>*"

subsection \<open>What every step keeps\<close>

text \<open>A slot is owed for an accept that has taken one and not inserted its connection yet.\<close>

definition owed :: "'u tcp_conc \<Rightarrow> nat" where
  "owed x = (case stage x of Registered c a \<Rightarrow> 1 | _ \<Rightarrow> 0)"

definition conc_inv :: "nat option \<Rightarrow> 'u tcp_conc \<Rightarrow> bool" where
  "conc_inv limit x \<longleftrightarrow>
     (\<forall>c \<in> open_conns (srv x). unat c < unat (next_conn_id (srv x)))
     \<and> (case stage x of Registered c a \<Rightarrow>
          c \<notin> open_conns (srv x) \<and> unat c < unat (next_conn_id (srv x)) | _ \<Rightarrow> True)
     \<and> card (open_conns (srv x)) + owed x \<le> unat (counter (srv x))
     \<and> unat (counter (srv x)) < unat (next_conn_id (srv x))
     \<and> within limit (unat (counter (srv x)))"

text \<open>Steps that only take connections away, each with its slot or without it.\<close>

definition releases :: "'u tcp_state \<Rightarrow> 'u tcp_state \<Rightarrow> bool" where
  "releases s s' \<longleftrightarrow> open_conns s' \<subseteq> open_conns s \<and> next_conn_id s' = next_conn_id s
     \<and> unat (counter s') \<le> unat (counter s)
     \<and> card (open_conns s') + unat (counter s) \<le> card (open_conns s) + unat (counter s')"

lemma releases_refl [simp]: "releases s s"
  by (simp add: releases_def)

lemma releases_trans: "releases r s \<Longrightarrow> releases s t \<Longrightarrow> releases r t"
  unfolding releases_def by (elim conjE, intro conjI) (blast, simp, linarith, linarith)

lemma shrinks_releases: "shrinks s s' \<Longrightarrow> releases s s'"
  by (auto simp: shrinks_def releases_def intro: card_mono)

lemma effects_releases: "effects s s' \<Longrightarrow> releases s s'"
  by (intro shrinks_releases effects_shrinks)

lemma releases_inv:
  assumes "releases (srv x) s" and "conc_inv limit x"
  shows "conc_inv limit (x\<lparr>srv := s\<rparr>)"
  using assms
  by (auto simp: conc_inv_def releases_def owed_def split: accept_stage.splits intro: within_mono)

definition backed :: "'u tcp_state \<Rightarrow> bool" where
  "backed s \<longleftrightarrow> card (open_conns s) \<le> unat (counter s)"

lemma releases_backed: "releases s s' \<Longrightarrow> backed s \<Longrightarrow> backed s'"
  by (simp add: releases_def backed_def)

text \<open>Steps to follow one another.\<close>

definition safe :: "'u tcp_state \<Rightarrow> 'u tcp_state \<Rightarrow> bool" where
  "safe s s' \<longleftrightarrow> (backed s \<longrightarrow> releases s s')"

lemma safe_trans: "safe r s \<Longrightarrow> safe s t \<Longrightarrow> safe r t"
  using releases_trans releases_backed unfolding safe_def by blast

lemma safe_refl [simp]: "safe s s"
  by (simp add: safe_def)

lemma effects_safe: "effects s s' \<Longrightarrow> safe s s'"
  by (simp add: safe_def effects_releases)

lemma open_fields [simp]:
  "open_conns (s\<lparr>sockets := k\<rparr>) = open_conns s" "open_conns (s\<lparr>poll := p\<rparr>) = open_conns s"
  "open_conns (s\<lparr>next_conn_id := n\<rparr>) = open_conns s"
  by (simp_all add: open_conns_def)

lemma safe_fields [simp]:
  "safe (s\<lparr>buffer_pool := bp\<rparr>) t = safe s t" "safe s (t\<lparr>buffer_pool := bp\<rparr>) = safe s t"
  "safe (s\<lparr>sockets := k\<rparr>) t = safe s t" "safe s (t\<lparr>sockets := k\<rparr>) = safe s t"
  by (simp_all add: safe_def releases_def backed_def open_conns_def)

text \<open>An id that has been given out and is neither open nor on its way into the map.\<close>

definition retired :: "connection_id \<Rightarrow> 'u tcp_conc \<Rightarrow> bool" where
  "retired c x \<longleftrightarrow> unat c < unat (next_conn_id (srv x)) \<and> c \<notin> open_conns (srv x)
     \<and> (\<forall>a. stage x \<noteq> Registered c a)"

context polite_handler
begin

lemma disconnect_safe: "safe s (conn_disconnect H c s)"
proof (cases "c \<in> open_conns s")
  case False
  then show ?thesis
    by (simp add: conn_disconnect_def open_conns_def domIff)
next
  case True
  define t where "t = (if loop_alive s then (detach c s)\<lparr>counter := counter s - 1\<rparr>
    else s\<lparr>connections := hm_remove c (connections s), counter := counter s - 1\<rparr>)"
  have some: "0 < card (open_conns s)"
    using True by (auto simp: card_gt_0_iff)
  have opened: "open_conns t = open_conns s - {c}"
    by (simp add: t_def) (simp add: open_conns_def hm_simps)
  have "counter t = counter s - 1" "next_conn_id t = next_conn_id s"
    by (simp_all add: t_def)
  then have "safe s t"
    using opened True some by (auto simp: safe_def backed_def releases_def unat_dec)
  moreover have "conn_disconnect H c s = notify_closed H c t"
    using True by (auto simp: conn_disconnect_def open_conns_def t_def Let_def)
  ultimately show ?thesis
    using safe_trans effects_safe [OF notify_effects] by metis
qed

lemma after_read_safe: "safe s (after_read H c res s)"
proof -
  have err: "safe s (conn_disconnect H c (on_error H cid e s))" for s cid e
    by (rule safe_trans [OF effects_safe [OF on_error_effects] disconnect_safe])
  have data: "safe s (snd (on_data H c data s))" for data
    by (rule effects_safe [OF on_data_effects])
  have "safe s (conn_disconnect H c (on_error H cid e (snd (on_data H c data s))))" for cid e data
    by (rule safe_trans [OF data err])
  with err data show ?thesis
    by (auto simp: after_read_def disconnect_safe case_prod_unfold split: read_result.splits option.splits)
qed

lemma handle_read_safe: "safe s (handle_read H c s)"
proof -
  have "safe s (after_read H c res (s\<lparr>buffer_pool := bp, sockets := k\<rparr>))" for res bp k
    using after_read_safe [of "s\<lparr>buffer_pool := bp, sockets := k\<rparr>"] by simp
  then show ?thesis
    by (simp add: handle_read_def Let_def case_prod_unfold split: option.splits poolable.splits)
qed

lemma connection_event_safe: "safe s (connection_event H c ev s)"
proof -
  define t where "t = (if is_readable ev then handle_read H c s else s)"
  have t: "safe s t"
    by (simp add: t_def handle_read_safe)
  have w: "safe r (snd (on_writable H c r))" "safe r (on_error H cid e (snd (on_writable H c r)))" for r cid e
    by (rule effects_safe [OF on_writable_effects],
        rule effects_safe [OF effects_trans [OF on_writable_effects on_error_effects]])
  have "safe t (handle_writable H c t)"
    by (simp add: handle_writable_def w case_prod_unfold split: option.splits)
  with t show ?thesis
    using safe_trans by (simp add: connection_event_def t_def [symmetric]) blast
qed

subsection \<open>The stages of an accept\<close>

lemma on_error_fields [simp]:
  "counter (on_error H cid e s) = counter s" "next_conn_id (on_error H cid e s) = next_conn_id s"
  using effects_shrinks [OF on_error_effects, of s cid e] by (simp_all add: shrinks_def)

lemma on_error_open: "c \<in> open_conns (on_error H cid e s) \<Longrightarrow> c \<in> open_conns s"
  using effects_shrinks [OF on_error_effects, of s cid e] by (auto simp: shrinks_def)

lemma admit_keeps:
  assumes "accept_admit cfg H a s = (b, s')" and "unat (counter s) < unat (next_conn_id s)"
  shows "open_conns s' \<subseteq> open_conns s" "next_conn_id s' = next_conn_id s"
    "unat (counter s') = unat (counter s) + of_bool b"
    "within (max_connections cfg) (unat (counter s)) \<Longrightarrow> within (max_connections cfg) (unat (counter s'))"
proof -
  have one: "unat (counter s + 1) = unat (counter s) + 1"
    using assms(2) by (intro unat_inc_less) (simp add: word_less_nat_alt)
  show "open_conns s' \<subseteq> open_conns s" "next_conn_id s' = next_conn_id s"
    "unat (counter s') = unat (counter s) + of_bool b"
    using assms(1) one
    by (auto simp: accept_admit_def Let_def try_admit_def dest: on_error_open split: option.splits if_splits)
  show "within (max_connections cfg) (unat (counter s'))" if "within (max_connections cfg) (unat (counter s))"
    using assms(1) one that
    by (auto simp: accept_admit_def Let_def try_admit_def within_def split: option.splits if_splits)
qed

lemma register_keeps:
  assumes "accept_register H a s = (r, s')" and "0 < unat (counter s)"
  shows "open_conns s' \<subseteq> open_conns s" "next_conn_id s' = next_conn_id s + 1"
    "unat (counter s') = unat (counter s) - of_bool (r = None)"
    "r = None \<or> r = Some (next_conn_id s)"
  using assms
  by (auto simp: accept_register_def Let_def unat_dec case_prod_unfold dest!: on_error_open
      split: if_splits option.splits)

lemma next_unat: "unat (n :: u64) + 1 < 2 ^ 64 \<Longrightarrow> unat (n + 1) = unat n + 1"
  using unat_add_no_wrap [of n 1] by simp

lemma announce_effects:
  assumes "fst (on_connect H c (snd (on_event H (ConnectionEstablished c (peer a)) s))) = None"
  shows "effects s (accept_announce H a c s)"
  using assms effects_trans [OF on_event_effects on_connect_effects]
  by (simp add: accept_announce_def Let_def case_prod_unfold)

lemma admit_then_register:
  assumes "accept_admit cfg H a s = (True, s1)" and "accept_register H a s1 = (r, s2)"
    and "unat (next_conn_id s) + 1 < 2 ^ 64" and "unat (counter s) < unat (next_conn_id s)"
  shows "open_conns s2 \<subseteq> open_conns s" "unat (next_conn_id s2) = unat (next_conn_id s) + 1"
    "unat (counter s2) = unat (counter s) + of_bool (r \<noteq> None)"
    "within (max_connections cfg) (unat (counter s)) \<Longrightarrow> within (max_connections cfg) (unat (counter s2))"
    "r = None \<or> r = Some (next_conn_id s)"
proof -
  note admit = admit_keeps [OF assms(1,4)]
  then have "0 < unat (counter s1)"
    by simp
  note reg = register_keeps [OF assms(2) this]
  show "open_conns s2 \<subseteq> open_conns s" "unat (next_conn_id s2) = unat (next_conn_id s) + 1"
    "unat (counter s2) = unat (counter s) + of_bool (r \<noteq> None)"
    "r = None \<or> r = Some (next_conn_id s)"
    using admit reg next_unat [OF assms(3)] by auto
  show "within (max_connections cfg) (unat (counter s2))" if "within (max_connections cfg) (unat (counter s))"
    using admit(4) [OF that] reg(3) by (rule_tac within_mono) auto
qed

text \<open>Every step is quiet for the slots, the insertion of an accept, or its beginning.\<close>

definition begins :: "nat option \<Rightarrow> 'u tcp_conc \<Rightarrow> 'u tcp_conc \<Rightarrow> bool" where
  "begins limit x y \<longleftrightarrow> stage x = Idle \<and> open_conns (srv y) \<subseteq> open_conns (srv x)
     \<and> unat (next_conn_id (srv x)) \<le> unat (next_conn_id (srv y))
     \<and> unat (counter (srv y)) = unat (counter (srv x)) + owed y
     \<and> unat (counter (srv y)) < unat (next_conn_id (srv y))
     \<and> (within limit (unat (counter (srv x))) \<longrightarrow> within limit (unat (counter (srv y))))
     \<and> (stage y = Idle \<or> (\<exists>a. stage y = Registered (next_conn_id (srv x)) a
          \<and> unat (next_conn_id (srv y)) = unat (next_conn_id (srv x)) + 1))"

lemma conc_step_kinds:
  assumes "conc_step cfg H x y" and "\<And>c s. fst (on_connect H c s) = None"
    and low: "unat (counter (srv x)) < unat (next_conn_id (srv x))"
  obtains (quiet) "safe (srv x) (srv y)" and "stage y = stage x \<or> owed x = 0 \<and> stage y = Idle"
    | (inserting) c a where "stage x = Registered c a" and "srv y = accept_insert a c (srv x)"
        and "stage y = Inserted c a"
    | (beginning) "begins (max_connections cfg) x y"
  using assms(1)
proof cases
  case (refuse a s)
  then show ?thesis
    using admit_keeps [OF refuse(3) low] low by (intro beginning) (simp add: begins_def owed_def)
next
  case (fail a s1 s)
  then show ?thesis
    using admit_then_register [OF fail(3,4,5) low] low by (intro beginning) (simp add: begins_def owed_def)
next
  case (registered a s1 c s)
  then show ?thesis
    using admit_then_register [OF registered(3,4,5) low] low
    by (intro beginning) (simp add: begins_def owed_def)
next
  case (inserted c a)
  then show ?thesis by (intro inserting) simp_all
next
  case (announced c a)
  then show ?thesis
    using effects_safe [OF announce_effects [OF assms(2)]] by (intro quiet) (simp_all add: owed_def)
next
  case event
  then show ?thesis by (intro quiet) (simp_all add: connection_event_safe)
next
  case close
  then show ?thesis by (intro quiet) (simp_all add: effects_safe ctx_close_effects)
next
  case send
  then show ?thesis by (intro quiet) (simp_all add: effects_safe ctx_send_effects)
next
  case kernel
  then show ?thesis by (intro quiet) simp_all
qed

lemma begins_inv:
  assumes "begins limit x y" and "conc_inv limit x"
  shows "conc_inv limit y"
proof -
  have sub: "open_conns (srv y) \<subseteq> open_conns (srv x)"
    and old: "\<forall>c \<in> open_conns (srv x). unat c < unat (next_conn_id (srv x))"
    using assms by (simp_all add: begins_def conc_inv_def)
  then have "card (open_conns (srv y)) \<le> card (open_conns (srv x))"
    by (intro card_mono) simp_all
  moreover have "\<forall>c \<in> open_conns (srv y). unat c < unat (next_conn_id (srv y))"
    using assms(1) sub old by (fastforce simp: begins_def)
  moreover have "next_conn_id (srv x) \<notin> open_conns (srv y)"
    using sub old by blast
  ultimately show ?thesis
    using assms by (auto simp: conc_inv_def begins_def owed_def split: accept_stage.splits)
qed

lemma conc_step_inv:
  assumes "conc_step cfg H x y" and "\<And>c s. fst (on_connect H c s) = None"
    and "conc_inv (max_connections cfg) x"
  shows "conc_inv (max_connections cfg) y"
proof -
  have low: "unat (counter (srv x)) < unat (next_conn_id (srv x))" and slots: "backed (srv x)"
    using assms(3) by (simp_all add: conc_inv_def backed_def)
  from assms(1,2) low show ?thesis
  proof (cases rule: conc_step_kinds)
    case quiet
    with slots have "conc_inv (max_connections cfg) (x\<lparr>srv := srv y\<rparr>)"
      using releases_inv assms(3) by (simp add: safe_def)
    with quiet(2) show ?thesis
      by (auto simp: conc_inv_def owed_def split: accept_stage.splits)
  next
    case (inserting c a)
    have "open_conns (accept_insert a c (srv x)) = insert c (open_conns (srv x))"
      by (auto simp: accept_insert_def open_conns_def hm_simps)
    with assms(3) inserting show ?thesis
      by (auto simp: conc_inv_def owed_def accept_insert_def)
  next
    case beginning
    then show ?thesis using assms(3) by (rule begins_inv)
  qed
qed

lemma conc_step_retired:
  assumes "conc_step cfg H x y" and "\<And>c s. fst (on_connect H c s) = None"
    and "conc_inv (max_connections cfg) x" and "retired c x"
  shows "retired c y"
proof -
  have low: "unat (counter (srv x)) < unat (next_conn_id (srv x))" and slots: "backed (srv x)"
    using assms(3) by (simp_all add: conc_inv_def backed_def)
  from assms(1,2) low show ?thesis
  proof (cases rule: conc_step_kinds)
    case quiet
    with slots assms(4) show ?thesis
      by (fastforce simp: safe_def releases_def retired_def)
  next
    case (inserting d a)
    then show ?thesis
      using assms(4) by (auto simp: retired_def accept_insert_def open_conns_def hm_simps)
  next
    case beginning
    then show ?thesis
      using assms(4) by (auto simp: retired_def begins_def)
  qed
qed

lemma conc_steps_inv:
  assumes "conc_steps cfg H x y" and "\<And>c s. fst (on_connect H c s) = None"
    and "conc_inv (max_connections cfg) x"
  shows "conc_inv (max_connections cfg) y \<and> (retired c x \<longrightarrow> retired c y)"
  using assms(1)
proof (induction rule: rtranclp_induct)
  case base
  then show ?case using assms(3) by simp
next
  case (step y z)
  then show ?case using conc_step_inv conc_step_retired assms(2) by blast
qed

end

subsection \<open>The property\<close>

definition at_rest :: "'u tcp_state \<Rightarrow> 'u tcp_conc" where
  "at_rest s = \<lparr>srv = s, stage = Idle\<rparr>"

lemma started_conc_inv:
  assumes "tcp_server_new cfg None socks u = Inr s0" and "start None 0 s0 = (r, s)"
  shows "conc_inv limit (at_rest s)"
  using assms
  by (auto simp: tcp_server_new_def start_def conc_inv_def owed_def at_rest_def within_def
      open_conns_def hm_get_empty Let_def split: option.splits prod.splits)


definition half_accepted :: "nat tcp_conc" where
  "half_accepted = (let s1 = snd (accept_admit sample_cfg echo_handler sample_conn sample_server)
     in \<lparr>srv = snd (accept_register echo_handler sample_conn s1), stage = Registered 1 sample_conn\<rparr>)"

definition whole_accepted :: "nat tcp_conc" where
  "whole_accepted = half_accepted\<lparr>srv := accept_insert sample_conn 1 (srv half_accepted), stage := Inserted 1 sample_conn\<rparr>"

lemma half_steps: "conc_steps sample_cfg echo_handler (at_rest sample_server) half_accepted"
proof -
  let ?x = "at_rest sample_server"
  let ?s1 = "snd (accept_admit sample_cfg echo_handler sample_conn sample_server)"
  have one: "accept_admit sample_cfg echo_handler sample_conn (srv ?x) = (True, ?s1)"
    by (simp add: at_rest_def sample_simps)
  have two: "accept_register echo_handler sample_conn ?s1
      = (Some 1, snd (accept_register echo_handler sample_conn ?s1))"
    by (simp add: sample_simps)
  have "conc_step sample_cfg echo_handler ?x half_accepted"
    using conc_step.registered [OF _ one two] by (simp add: at_rest_def half_accepted_def sample_simps)
  then show ?thesis by simp
qed


end
