(* ===== verification/Rpc_Server.thy ===== *)
theory Rpc_Server
  imports Tcp_Stream Wire
begin

section \<open>The RPC server\<close>

text \<open>
  \<^verbatim>\<open>mill-rpc/src/server.rs\<close> over the TCP server: the builder, and the handler that
  collects frames per connection, dispatches requests and sends the answers. A service is a
  dispatcher that may change a state \<open>'w\<close> of the application. Logging is left out. The
  serialisation of an error by bincode is an argument. The last sections relate the handler to
  a reference server on lists of frames.
\<close>

subsection \<open>State\<close>

type_synonym 'w dispatcher =
  "socket_addr rpc_context \<Rightarrow> u16 \<Rightarrow> bytes \<Rightarrow> codec \<Rightarrow> 'w \<Rightarrow> (rpc_error + bytes) \<times> 'w"

record 'w rpc_server_handler =
  services :: "(u16, 'w dispatcher) hmap"
  server_codec :: codec

record 'w rpc_conns =
  conn_buffers :: "(u64, bytes) hmap"
  app :: 'w

type_synonym 'w rpc_state = "'w rpc_conns tcp_state"

type_synonym error_encoder = "rpc_error \<Rightarrow> string + bytes"

subsection \<open>The builder\<close>

record 'w rpc_server_builder =
  rb_address :: "socket_addr option"
  rb_codec :: codec
  rb_max_connections :: "nat option"
  rb_services :: "(u16 \<times> 'w dispatcher) list"
  rb_next_service_id :: u16

definition rpc_builder_new :: "'w rpc_server_builder" where
  "rpc_builder_new = \<lparr>rb_address = None, rb_codec = codec_bincode, rb_max_connections = None,
     rb_services = [], rb_next_service_id = 0\<rparr>"

definition rpc_server_builder :: "'w rpc_server_builder" where
  "rpc_server_builder = rpc_builder_new"

definition rpc_bind :: "socket_addr \<Rightarrow> 'w rpc_server_builder \<Rightarrow> 'w rpc_server_builder" where
  "rpc_bind addr b = b\<lparr>rb_address := Some addr\<rparr>"

definition rpc_codec :: "codec \<Rightarrow> 'w rpc_server_builder \<Rightarrow> 'w rpc_server_builder" where
  "rpc_codec c b = b\<lparr>rb_codec := c\<rparr>"

definition rpc_max_connections :: "nat \<Rightarrow> 'w rpc_server_builder \<Rightarrow> 'w rpc_server_builder" where
  "rpc_max_connections m b = b\<lparr>rb_max_connections := Some m\<rparr>"

definition service :: "'w dispatcher \<Rightarrow> 'w rpc_server_builder \<Rightarrow> 'w rpc_server_builder" where
  "service svc b =
     (let i = rb_next_service_id b
      in b\<lparr>rb_next_service_id := i + 1, rb_services := rb_services b @ [(i, svc)]\<rparr>)"

definition service_with_id :: "u16 \<Rightarrow> 'w dispatcher \<Rightarrow> 'w rpc_server_builder \<Rightarrow> 'w rpc_server_builder" where
  "service_with_id i svc b = b\<lparr>rb_services := rb_services b @ [(i, svc)]\<rparr>"

definition service_map :: "(u16 \<times> 'w dispatcher) list \<Rightarrow> (u16, 'w dispatcher) hmap" where
  "service_map svcs = fold (\<lambda>(i, d) m. hm_insert i d m) svcs []"

definition rpc_config :: "'w rpc_server_builder \<Rightarrow> tcp_server_config" where
  "rpc_config b =
     (let addr = unwrap_or (rb_address b) ''127.0.0.1:9000'';
          cb = set_address addr config_builder;
          cb = (case rb_max_connections b of Some m \<Rightarrow> set_max_connections m cb | None \<Rightarrow> cb)
      in config_build cb)"

definition rpc_build :: "string option \<Rightarrow> string option \<Rightarrow> (connection_id \<Rightarrow> socket) \<Rightarrow> 'w
    \<Rightarrow> 'w rpc_server_builder \<Rightarrow> string + ('w rpc_server_handler \<times> 'w rpc_state)" where
  "rpc_build bind_error register_err socks w b =
     (let R = \<lparr>services = service_map (rb_services b), server_codec = rb_codec b\<rparr> in
      case tcp_server_new (rpc_config b) bind_error socks \<lparr>conn_buffers = [], app = w\<rparr> of
        Inl e \<Rightarrow> Inl e
      | Inr s \<Rightarrow>
          (case start register_err 0 s of
             (Some e, s) \<Rightarrow> Inl e
           | (None, s) \<Rightarrow> Inr (R, s)))"

subsection \<open>The handler\<close>

definition set_buffer :: "connection_id \<Rightarrow> bytes \<Rightarrow> 'w rpc_state \<Rightarrow> 'w rpc_state" where
  "set_buffer c buf s =
     s\<lparr>user := (user s)\<lparr>conn_buffers := hm_insert (as_u64 c) buf (conn_buffers (user s))\<rparr>\<rparr>"

definition rpc_on_connect :: "connection_id \<Rightarrow> 'w rpc_state fallible" where
  "rpc_on_connect c s = (None, set_buffer c [] s)"

definition rpc_on_disconnect :: "connection_id \<Rightarrow> 'w rpc_state fallible" where
  "rpc_on_disconnect c s =
     (None, s\<lparr>user := (user s)\<lparr>conn_buffers := hm_remove (as_u64 c) (conn_buffers (user s))\<rparr>\<rparr>)"

text \<open>Looking the service up and dispatching.\<close>

definition run_service :: "'w rpc_server_handler \<Rightarrow> u64 \<Rightarrow> u16 \<Rightarrow> u16 \<Rightarrow> bytes \<Rightarrow> 'w
    \<Rightarrow> (rpc_error + bytes) \<times> 'w" where
  "run_service R rid sid mth args w =
     (let rpc_ctx = rpc_context_new rid sid mth in
      case hm_get (services R) sid of
        Some svc \<Rightarrow> svc rpc_ctx mth args (server_codec R) w
      | None \<Rightarrow> (Inl (service_not_found sid), w))"

definition handle_request :: "error_encoder \<Rightarrow> 'w rpc_server_handler \<Rightarrow> connection_id \<Rightarrow> frame
    \<Rightarrow> 'w rpc_state \<Rightarrow> 'w rpc_state" where
  "handle_request encode_error R c f s = (case parse_request_payload f of
      Inl e \<Rightarrow> s
    | Inr (rid, sid, mth, args) \<Rightarrow>
        let one_way = is_one_way (flags (header f));
            (result, w) = run_service R rid sid mth args (app (user s));
            s = s\<lparr>user := (user s)\<lparr>app := w\<rparr>\<rparr>
        in if one_way then s
           else case result of
             Inr resp_bytes \<Rightarrow> snd (ctx_send_to c (frame_encode (frame_response rid resp_bytes)) s)
           | Inl rpc_err \<Rightarrow>
               (case serialize encode_error (server_codec R) rpc_err of
                  Inr b \<Rightarrow> snd (ctx_send_to c (frame_encode (frame_error rid b)) s)
                | Inl e \<Rightarrow> s))"

definition handle_frame :: "error_encoder \<Rightarrow> 'w rpc_server_handler \<Rightarrow> connection_id \<Rightarrow> frame
    \<Rightarrow> 'w rpc_state \<Rightarrow> 'w rpc_state" where
  "handle_frame encode_error R c f s = (case message_type (header f) of
      Request \<Rightarrow> handle_request encode_error R c f s
    | Ping \<Rightarrow> snd (ctx_send_to c (frame_encode frame_pong) s)
    | Cancel \<Rightarrow> s
    | _ \<Rightarrow> s)"

definition rpc_on_data :: "error_encoder \<Rightarrow> 'w rpc_server_handler \<Rightarrow> connection_id \<Rightarrow> bytes
    \<Rightarrow> 'w rpc_state fallible" where
  "rpc_on_data encode_error R c data s =
     (let buf = unwrap_or (hm_get (conn_buffers (user s)) (as_u64 c)) [];
          (result, buf) = receive buf data;
          s = set_buffer c buf s
      in case result of
           Inl e \<Rightarrow> (None, s)
         | Inr frames \<Rightarrow> (None, fold (handle_frame encode_error R c) frames s))"

definition rpc_handler :: "error_encoder \<Rightarrow> 'w rpc_server_handler \<Rightarrow> 'w rpc_conns tcp_handler" where
  "rpc_handler encode_error R =
     (default_handler (rpc_on_data encode_error R))
       \<lparr>on_connect := rpc_on_connect, on_disconnect := rpc_on_disconnect\<rparr>"

subsection \<open>The handler keeps to its context\<close>

lemma effects_user: "effects s (s\<lparr>user := u\<rparr>)"
  by (rule r_into_rtranclp [of prim]) (rule prim_user)

lemma handle_frame_effects: "effects s (handle_frame encode_error R c f s)"
proof -
  have "effects s (snd (ctx_send_to c bs (s\<lparr>user := u\<rparr>)))" for bs u
    by (rule effects_trans [OF effects_user ctx_send_effects])
  then show ?thesis
    using effects_user [of s]
    by (simp add: handle_frame_def handle_request_def ctx_send_effects Let_def case_prod_unfold
        split: message_type.splits sum.splits)
qed

lemma fold_frames_effects: "effects s (fold (handle_frame encode_error R c) fs s)"
proof (induction fs arbitrary: s)
  case (Cons f fs)
  have "effects s (handle_frame encode_error R c f s)"
    by (rule handle_frame_effects)
  then show ?case
    using Cons effects_trans by fastforce
qed simp

lemma on_data_effects: "effects s (snd (rpc_on_data encode_error R c data s))"
proof -
  have buffer: "effects s (set_buffer c buf s)" for buf
    unfolding set_buffer_def by (rule effects_user)
  then have "effects s (fold (handle_frame encode_error R c) fs (set_buffer c buf s))" for fs buf
    using effects_trans fold_frames_effects by blast
  with buffer show ?thesis
    by (simp add: rpc_on_data_def Let_def case_prod_unfold split: sum.splits)
qed

interpretation rpc: polite_handler "rpc_handler encode_error R" for encode_error R
  by unfold_locales (simp_all add: rpc_handler_def default_handler_def rpc_on_connect_def
      set_buffer_def rpc_on_disconnect_def effects_user on_data_effects)

subsection \<open>A reference server\<close>

text \<open>What a server answers to a frame, and to a list of them, without connections.\<close>

definition answer :: "error_encoder \<Rightarrow> 'w rpc_server_handler \<Rightarrow> u64 \<Rightarrow> rpc_error + bytes \<Rightarrow> frame list" where
  "answer encode_error R rid result = (case result of
      Inr bs \<Rightarrow> [frame_response rid bs]
    | Inl err \<Rightarrow>
        (case serialize encode_error (server_codec R) err of
           Inr b \<Rightarrow> [frame_error rid b]
         | Inl e \<Rightarrow> []))"

definition reply :: "error_encoder \<Rightarrow> 'w rpc_server_handler \<Rightarrow> frame \<Rightarrow> 'w \<Rightarrow> frame list \<times> 'w" where
  "reply encode_error R f w = (case message_type (header f) of
      Ping \<Rightarrow> ([frame_pong], w)
    | Request \<Rightarrow>
        (case parse_request_payload f of
           Inl e \<Rightarrow> ([], w)
         | Inr (rid, sid, mth, args) \<Rightarrow>
             let (result, w) = run_service R rid sid mth args w
             in (if is_one_way (flags (header f)) then [] else answer encode_error R rid result, w))
    | _ \<Rightarrow> ([], w))"

fun serve :: "error_encoder \<Rightarrow> 'w rpc_server_handler \<Rightarrow> frame list \<Rightarrow> 'w \<Rightarrow> frame list \<times> 'w" where
  "serve encode_error R [] w = ([], w)"
| "serve encode_error R (f # fs) w =
     (let (gs, w) = reply encode_error R f w; (hs, w) = serve encode_error R fs w in (gs @ hs, w))"

lemma serve_append:
  "serve encode_error R (fs @ gs) w =
     (let (xs, w) = serve encode_error R fs w; (ys, w) = serve encode_error R gs w in (xs @ ys, w))"
  by (induction fs arbitrary: w) (simp_all add: Let_def case_prod_unfold)

definition wire :: "frame list \<Rightarrow> bytes" where
  "wire fs = concat (map frame_encode fs)"

lemma wire_append [simp]: "wire (fs @ gs) = wire fs @ wire gs" "wire [] = []"
  by (simp_all add: wire_def)

text \<open>A send that fits, and a change of the application.\<close>

definition put :: "connection_id \<Rightarrow> bytes \<Rightarrow> 'w \<Rightarrow> 'w rpc_state \<Rightarrow> 'w rpc_state" where
  "put c bs w s =
     s\<lparr>sockets := (sockets s)(c := (sockets s c)
          \<lparr>outgoing := outgoing (sockets s c) @ bs, room := room (sockets s c) - length bs\<rparr>),
       user := (user s)\<lparr>app := w\<rparr>\<rparr>"

lemma put_put: "put c bs2 w2 (put c bs1 w1 s) = put c (bs1 @ bs2) w2 s"
  by (simp add: put_def)

lemma app_put [simp]: "app (user (put c bs w s)) = w"
  by (simp add: put_def)

lemma can_send_put: "can_send c (length bs + n) s \<Longrightarrow> can_send c n (put c bs w s)"
  by (auto simp: can_send_def put_def)

lemma set_buffer_put: "set_buffer c b (put c bs w s) = put c bs w (set_buffer c b s)"
  by (simp add: set_buffer_def put_def)

lemma can_send_buffer [simp]: "can_send c n (set_buffer d b s) = can_send c n s"
  by (simp add: can_send_def set_buffer_def)

lemma app_buffer [simp]: "app (user (set_buffer d b s)) = app (user s)"
  by (simp add: set_buffer_def)

lemma update_update: "AList.update k v (AList.update k v' m) = AList.update k v m"
  by (induction m) auto

lemma hm_insert_same: "hm_get m k = Some v \<Longrightarrow> hm_insert k v m = m"
  unfolding hm_get_def hm_insert_def by (induction m) (auto split: if_splits)

lemma set_buffer_twice [simp]: "set_buffer c b (set_buffer c b' s) = set_buffer c b s"
  by (simp add: set_buffer_def hm_insert_def update_update)

subsection \<open>The handler implements the reference server\<close>

lemma frame_encode_nonempty [simp]: "frame_encode f \<noteq> []"
  by (simp add: frame_encode_def header_encode_def)

lemma send_put:
  assumes "can_send c (length (frame_encode f)) s"
  shows "snd (ctx_send_to c (frame_encode f) (s\<lparr>user := (user s)\<lparr>app := w\<rparr>\<rparr>)) = put c (frame_encode f) w s"
  using assms
  by (auto simp: can_send_def ctx_send_to_def send_to_def write_all_def put_def)

lemma put_nothing: "put c [] w s = s\<lparr>user := (user s)\<lparr>app := w\<rparr>\<rparr>"
  by (simp add: put_def)

lemma put_same [simp]: "put c [] (app (user s)) s = s"
  by (simp add: put_def)

lemma handle_frame_reply:
  assumes "reply encode_error R f (app (user s)) = (gs, w)" and "can_send c (length (wire gs)) s"
  shows "handle_frame encode_error R c f s = put c (wire gs) w s"
proof (cases "message_type (header f)")
  case Request
  show ?thesis
  proof (cases "parse_request_payload f")
    case (Inl e)
    then show ?thesis
      using assms(1) Request by (auto simp: reply_def handle_frame_def handle_request_def)
  next
    case (Inr p)
    obtain rid sid mth args where p: "p = (rid, sid, mth, args)"
      by (cases p) auto
    obtain result v where run: "run_service R rid sid mth args (app (user s)) = (result, v)"
      by fastforce
    show ?thesis
      using assms Request Inr p run send_put [of c _ s v]
      by (auto simp: reply_def handle_frame_def handle_request_def answer_def wire_def put_nothing
          split: if_splits sum.splits)
  qed
next
  case Ping
  then show ?thesis
    using assms send_put [of c frame_pong s "app (user s)"]
    by (auto simp: reply_def handle_frame_def wire_def)
qed (use assms in \<open>auto simp: reply_def handle_frame_def\<close>)

lemma handle_frames_serve:
  "serve encode_error R fs (app (user s)) = (gs, w) \<Longrightarrow> can_send c (length (wire gs)) s \<Longrightarrow>
     fold (handle_frame encode_error R c) fs s = put c (wire gs) w s"
proof (induction fs arbitrary: s gs)
  case Nil
  then show ?case by auto
next
  case (Cons f fs)
  obtain g1 w1 where one: "reply encode_error R f (app (user s)) = (g1, w1)"
    by fastforce
  with Cons.prems(1) obtain g2 where rest: "serve encode_error R fs w1 = (g2, w)" "gs = g1 @ g2"
    by (auto split: prod.splits)
  have can: "can_send c (length (wire g1)) s"
    using Cons.prems(2) rest(2) by (simp add: can_send_def)
  have "can_send c (length (wire g2)) (put c (wire g1) w1 s)"
    using Cons.prems(2) rest(2) by (intro can_send_put) simp
  with Cons.IH [of "put c (wire g1) w1 s" g2] rest
  have "fold (handle_frame encode_error R c) fs (put c (wire g1) w1 s) = put c (wire (g1 @ g2)) w s"
    by (simp add: put_put)
  then show ?case
    using handle_frame_reply [OF one can] rest(2) by simp
qed

text \<open>The reads of a connection, one after the other.\<close>

fun read_chunks :: "error_encoder \<Rightarrow> 'w rpc_server_handler \<Rightarrow> connection_id \<Rightarrow> bytes list
    \<Rightarrow> 'w rpc_state \<Rightarrow> 'w rpc_state" where
  "read_chunks encode_error R c [] s = s"
| "read_chunks encode_error R c (d # ds) s =
     read_chunks encode_error R c ds (snd (rpc_on_data encode_error R c d s))"

lemma get_set_buffer [simp]: "hm_get (conn_buffers (user (set_buffer c b s))) (as_u64 c) = Some b"
  by (simp add: set_buffer_def hm_simps)

lemma buffer_of_put [simp]: "conn_buffers (user (put c bs w s)) = conn_buffers (user s)"
  by (simp add: put_def)

lemma read_chunks_serve:
  assumes "frames.feed b ds = Inr (fs, r)" and "hm_get (conn_buffers (user s)) (as_u64 c) = Some b"
    and "serve encode_error R fs (app (user s)) = (gs, w)" and "can_send c (length (wire gs)) s"
  shows "read_chunks encode_error R c ds s = put c (wire gs) w (set_buffer c r s)"
  using assms
proof (induction ds arbitrary: b fs s gs)
  case Nil
  then have "set_buffer c r s = s"
    by (simp add: set_buffer_def hm_insert_same)
  with Nil show ?case by auto
next
  case (Cons d ds)
  then obtain f1 q where first: "frames_of (b @ d) = Inr (f1, q)"
    by (cases "frames_of (b @ d)") auto
  with Cons.prems(1) obtain f2 where rest: "frames.feed q ds = Inr (f2, r)" and fs: "fs = f1 @ f2"
    by (cases "frames.feed q ds") auto
  obtain g1 w1 where s1: "serve encode_error R f1 (app (user s)) = (g1, w1)"
    by fastforce
  with Cons.prems(3) fs obtain g2 where s2: "serve encode_error R f2 w1 = (g2, w)" and gs: "gs = g1 @ g2"
    by (auto simp: serve_append split: prod.splits)
  let ?s1 = "put c (wire g1) w1 (set_buffer c q s)"
  have "can_send c (length (wire g1)) (set_buffer c q s)"
    unfolding can_send_buffer using Cons.prems(4) gs by (auto elim: can_send_less)
  then have "snd (rpc_on_data encode_error R c d s) = ?s1"
    using first Cons.prems(2) s1 handle_frames_serve [of encode_error R f1 "set_buffer c q s" g1 w1 c]
    by (simp add: rpc_on_data_def receive_frames_of unwrap_or_def)
  moreover have "can_send c (length (wire g2)) ?s1"
    using Cons.prems(4) gs by (intro can_send_put) simp
  moreover have "hm_get (conn_buffers (user ?s1)) (as_u64 c) = Some q"
    by simp
  ultimately show ?case
    using Cons.IH [OF rest, of ?s1 g2] s2 by (simp add: set_buffer_put put_put gs)
qed

subsection \<open>The handler answers what it reads\<close>

definition rpc_answer :: "error_encoder \<Rightarrow> 'w rpc_server_handler \<Rightarrow> 'w rpc_conns answerer" where
  "rpc_answer encode_error R c d u = (case frames_of (unwrap_or (hm_get (conn_buffers u) (as_u64 c)) [] @ d) of
      Inl e \<Rightarrow> ([], u\<lparr>conn_buffers := hm_insert (as_u64 c) [] (conn_buffers u)\<rparr>)
    | Inr (fs, r) \<Rightarrow>
        let (gs, w) = serve encode_error R fs (app u)
        in (wire gs, u\<lparr>conn_buffers := hm_insert (as_u64 c) r (conn_buffers u), app := w\<rparr>))"

lemma rpc_on_data_answer:
  assumes "rpc_answer encode_error R c d (user s) = (bs, u)" and "can_send c (length bs) s"
  shows "rpc_on_data encode_error R c d s = (None, deliver c bs u s)"
proof (cases "frames_of (unwrap_or (hm_get (conn_buffers (user s)) (as_u64 c)) [] @ d)")
  case (Inl e)
  with assms(1) show ?thesis
    by (auto simp: rpc_answer_def rpc_on_data_def receive_frames_of set_buffer_def deliver_nothing)
next
  case (Inr p)
  obtain fs r where p: "p = (fs, r)"
    by fastforce
  obtain gs w where serve: "serve encode_error R fs (app (user s)) = (gs, w)"
    by fastforce
  with assms Inr p have "bs = wire gs" "can_send c (length (wire gs)) (set_buffer c r s)"
    by (auto simp: rpc_answer_def)
  with assms(1) Inr p serve handle_frames_serve [of encode_error R fs "set_buffer c r s" gs w c] show ?thesis
    by (auto simp: rpc_answer_def rpc_on_data_def receive_frames_of put_def set_buffer_def deliver_def)
qed

interpretation rpc_answers: answering "rpc_handler encode_error R" "rpc_answer encode_error R" for encode_error R
  by unfold_locales (simp_all add: rpc_handler_def default_handler_def rpc_on_data_answer)

end
