(* ===== verification/Tcp_Client.thy ===== *)
theory Tcp_Client
  imports Tcp_Server
begin

section \<open>The TCP client\<close>

text \<open>
  \<open>TcpClient\<close> and \<open>TcpClientHandler\<close> of \<^verbatim>\<open>mill-net/src/tcp/mod.rs\<close>. The client
  shares an event loop with others, whose handlers are \<open>Foreign\<close>. Its context has no server, so
  what the context offers does nothing; the methods of the user's handler change the user's
  state only, which \<open>client_handler\<close> states.
\<close>

subsection \<open>State and operations\<close>

datatype loop_handler = Client | Foreign nat

record 'u client_state =
  cl_stream :: "socket option"
  cl_id :: connection_id
  cl_pool :: "unit object_pool"
  cl_has_loop :: bool
  cl_loop_alive :: bool
  cl_poll :: "loop_handler poll_handle"
  cl_user :: 'u

type_synonym 'u client_callbacks = "'u client_state network_handler"

definition client_connect :: "string option \<Rightarrow> socket \<Rightarrow> loop_handler poll_handle \<Rightarrow> 'u
    \<Rightarrow> string + 'u client_state" where
  "client_connect connect_error k p u = (case connect_error of
      Some e \<Rightarrow> Inl e
    | None \<Rightarrow> Inr \<lparr>cl_stream = Some k, cl_id = connection_id_new 1,
        cl_pool = object_pool_new 5 (Bytes (replicate 8192 0)),
        cl_has_loop = False, cl_loop_alive = True, cl_poll = p, cl_user = u\<rparr>)"

definition client_ctx_send_to :: "connection_id \<Rightarrow> bytes \<Rightarrow> 'u client_state fallible" where
  "client_ctx_send_to c data s = (None, s)"

definition client_start :: "'u client_callbacks \<Rightarrow> string option \<Rightarrow> token \<Rightarrow> 'u client_state fallible" where
  "client_start H register_err tok s =
     (let s = s\<lparr>cl_has_loop := True\<rparr> in
      case cl_stream s of
        None \<Rightarrow> (Some ''TCP stream is None'', s)
      | Some _ \<Rightarrow>
          let (res, p) = register (as_outcome register_err) tok
                \<lparr>wants_readable = True, wants_writable = True\<rparr> Client (cl_poll s);
              s = s\<lparr>cl_poll := p\<rparr>
          in case register_err of
               Some e \<Rightarrow> (Some e, s)
             | None \<Rightarrow> on_connect H (cl_id s) s)"

definition client_send :: "bytes \<Rightarrow> 'u client_state fallible" where
  "client_send data s = (case cl_stream s of
      Some k \<Rightarrow> let (res, k) = write_all data k in (res, s\<lparr>cl_stream := Some k\<rparr>)
    | None \<Rightarrow> (None, s))"

definition client_disconnect :: "'u client_callbacks \<Rightarrow> 'u client_state fallible" where
  "client_disconnect H s = on_disconnect H (cl_id s) (s\<lparr>cl_stream := None\<rparr>)"

subsection \<open>Events\<close>

definition handler_disconnect :: "'u client_callbacks \<Rightarrow> 'u client_state \<Rightarrow> 'u client_state" where
  "handler_disconnect H s =
     (let s = (case cl_stream s of
                 Some k \<Rightarrow>
                   if cl_loop_alive s
                   then s\<lparr>cl_poll := snd (deregister (as_outcome (deregister_error k))
                            (unat (as_u64 (cl_id s))) (cl_poll s))\<rparr>
                   else s
               | None \<Rightarrow> s);
          s = s\<lparr>cl_stream := None\<rparr>;
          (err, s) = on_disconnect H (cl_id s) s
      in case err of
           Some e \<Rightarrow> on_error H (Some (cl_id s)) (HandlerError (''on_disconnect: '' @ e)) s
         | None \<Rightarrow> s)"

definition client_after_read :: "'u client_callbacks \<Rightarrow> read_result \<Rightarrow> 'u client_state \<Rightarrow> 'u client_state" where
  "client_after_read H res s = (case res of
      Read data \<Rightarrow>
        if data = [] then
          handler_disconnect H (snd (on_event H (ConnectionClosed (cl_id s)) s))
        else (case on_data H (cl_id s) data s of
            (None, s) \<Rightarrow> s
          | (Some e, s) \<Rightarrow>
              handler_disconnect H (on_error H (Some (cl_id s)) (HandlerError (''on_data: '' @ e)) s))
    | Read_blocked \<Rightarrow> s
    | Read_failed e \<Rightarrow> handler_disconnect H (on_error H (Some (cl_id s)) (Io e) s))"

definition client_handle_read :: "'u client_callbacks \<Rightarrow> 'u client_state \<Rightarrow> 'u client_state" where
  "client_handle_read H s =
     (let (buffer, bp) = acquire (cl_pool s);
          s = s\<lparr>cl_pool := bp\<rparr>
      in case buffer of
           Some (Bytes b) \<Rightarrow>
             let s = (case cl_stream s of
                        None \<Rightarrow> s
                      | Some k \<Rightarrow>
                          let (res, k) = sock_read (length b) k;
                              s = s\<lparr>cl_stream := Some k\<rparr>
                          in client_after_read H res s)
             in s\<lparr>cl_pool := pooled_drop buffer (cl_pool s)\<rparr>
         | _ \<Rightarrow> s)"

definition client_event :: "'u client_callbacks \<Rightarrow> mio_event \<Rightarrow> 'u client_state \<Rightarrow> 'u client_state" where
  "client_event H ev s =
     (let s = (if is_readable ev then client_handle_read H s else s)
      in if is_writable ev then
           (case on_writable H (cl_id s) s of
              (None, s) \<Rightarrow> s
            | (Some e, s) \<Rightarrow> on_error H (Some (cl_id s)) (HandlerError (''on_writable: '' @ e)) s)
         else s)"

subsection \<open>Callbacks that keep to their own state\<close>

definition own_state :: "'u client_state \<Rightarrow> 'u client_state \<Rightarrow> bool" where
  "own_state s s' \<longleftrightarrow> s' = s\<lparr>cl_user := cl_user s'\<rparr>"

lemma own_state_trans: "own_state r s \<Longrightarrow> own_state s t \<Longrightarrow> own_state r t"
  by (cases r; cases s; cases t) (simp add: own_state_def)

locale client_handler =
  fixes H :: "'u client_callbacks"
  assumes on_event_own: "own_state s (snd (on_event H ev s))"
    and on_connect_own: "own_state s (snd (on_connect H c s))"
    and on_data_own: "own_state s (snd (on_data H c data s))"
    and on_disconnect_own: "own_state s (snd (on_disconnect H c s))"
    and on_writable_own: "own_state s (snd (on_writable H c s))"
    and on_error_own: "own_state s (on_error H cid err s)"
begin

lemma disconnect_result:
  assumes "cl_stream s = Some k" and "cl_loop_alive s" and "deregister_error k = None"
  shows "cl_stream (handler_disconnect H s) = None
    \<and> cl_poll (handler_disconnect H s) = \<lparr>registry = hm_remove (unat (cl_id s)) (registry (cl_poll s))\<rparr>"
proof -
  let ?s1 = "s\<lparr>cl_poll := (cl_poll s)\<lparr>registry := hm_remove (unat (cl_id s)) (registry (cl_poll s))\<rparr>,
    cl_stream := None\<rparr>"
  let ?s2 = "snd (on_disconnect H (cl_id s) ?s1)"
  have own: "own_state ?s1 ?s2" "own_state ?s1 (on_error H cid e ?s2)" for cid e
    using on_disconnect_own own_state_trans [OF on_disconnect_own on_error_own] by blast+
  have "handler_disconnect H s = ?s2 \<or> (\<exists>cid e. handler_disconnect H s = on_error H cid e ?s2)"
    using assms
    by (auto simp: handler_disconnect_def deregister_def as_outcome_def as_u64_def Let_def
        case_prod_unfold split: option.splits)
  then obtain t where "handler_disconnect H s = t" "own_state ?s1 t"
    using own by blast
  then show ?thesis
    by (cases t; cases "cl_poll s") (simp add: own_state_def)
qed

lemma end_of_stream:
  assumes "bytes_only (cl_pool s)" and "cl_stream s = Some k" and "read_error k = None"
    and "incoming k = []" and "at_eof k" and "deregister_error k = None" and "cl_loop_alive s"
  shows "cl_stream (client_handle_read H s) = None
    \<and> cl_poll (client_handle_read H s) = \<lparr>registry = hm_remove (unat (cl_id s)) (registry (cl_poll s))\<rparr>"
proof -
  obtain buffer bp where buf: "acquire (cl_pool s) = (buffer, bp)"
    by fastforce
  with acquire_bytes [OF assms(1) this]
  have b: "buffer = Some (Bytes (replicate IO_BUFFER_SIZE 0))"
    by simp
  let ?s1 = "s\<lparr>cl_pool := bp\<rparr>"
  let ?s2 = "snd (on_event H (ConnectionClosed (cl_id s)) ?s1)"
  have same: "s\<lparr>cl_pool := bp, cl_stream := Some k\<rparr> = ?s1"
    using assms(2) by (cases s) simp
  have own: "own_state ?s1 ?s2"
    by (rule on_event_own)
  have "cl_stream ?s2 = Some k" "cl_loop_alive ?s2" "cl_id ?s2 = cl_id s" "cl_poll ?s2 = cl_poll s"
    using own assms(2,7) by (cases ?s2; simp add: own_state_def)+
  from disconnect_result [OF this(1,2) assms(6)] this(3,4)
  have "cl_stream (handler_disconnect H ?s2) = None
    \<and> cl_poll (handler_disconnect H ?s2) = \<lparr>registry = hm_remove (unat (cl_id s)) (registry (cl_poll s))\<rparr>"
    by simp
  then show ?thesis
    using buf b assms(2-5)
    by (simp add: client_handle_read_def sock_read_def client_after_read_def same Let_def)
qed

end


definition silent_client :: "'u client_callbacks" where
  "silent_client = default_handler (\<lambda>_ _ s. (None, s))"

interpretation silent: client_handler silent_client
  by unfold_locales (simp_all add: silent_client_def default_handler_def own_state_def)

text \<open>A client on the event loop of a server whose first connection has token 1.\<close>

definition shared_loop :: "loop_handler poll_handle" where
  "shared_loop = \<lparr>registry = hm_insert 1
     (handler_entry_new (Foreign 7) \<lparr>wants_readable = True, wants_writable = True\<rparr>) []\<rparr>"

definition ended_socket :: socket where
  "ended_socket = \<lparr>incoming = [], at_eof = True, read_error = None, outgoing = [],
     room = 65536, write_error = None, deregister_error = None\<rparr>"

definition sample_client :: "unit client_state" where
  "sample_client = (case client_connect None ended_socket shared_loop () of
     Inr s \<Rightarrow> snd (client_start silent_client None 2 s))"


end
