(* ===== verification/Rust_Text.thy ===== *)
theory Rust_Text
  imports Prelude
begin

section \<open>Text\<close>

text \<open>
  What the sources use of Rust's strings. A text is a list of Unicode scalar values; \<open>utf8\<close> is how
  \<open>String\<close> holds it, and \<open>lossy_text\<close> is \<open>String::from_utf8_lossy\<close>, which keeps well-formed
  sequences and turns the others into U+FFFD. The functions on \<open>str\<close> are those of the standard
  library; lower-casing beyond ASCII needs the tables of Unicode and is an argument where it is used.
\<close>

subsection \<open>Lossy decoding of UTF-8\<close>

text \<open>The length of the sequence at the front and whether it is well-formed.\<close>

definition between :: "u8 \<Rightarrow> u8 \<Rightarrow> u8 \<Rightarrow> bool" where
  "between lo hi b \<longleftrightarrow> lo \<le> b \<and> b \<le> hi"

fun continuation :: "nat \<Rightarrow> bytes \<Rightarrow> nat" where
  "continuation 0 bs = 0"
| "continuation (Suc n) [] = 0"
| "continuation (Suc n) (b # bs) = (if between 0x80 0xBF b then Suc (continuation n bs) else 0)"

definition second_byte :: "u8 \<Rightarrow> u8 \<Rightarrow> bool" where
  "second_byte a b \<longleftrightarrow> (if a = 0xE0 then between 0xA0 0xBF b else if a = 0xED then between 0x80 0x9F b
     else if a = 0xF0 then between 0x90 0xBF b else if a = 0xF4 then between 0x80 0x8F b
     else between 0x80 0xBF b)"

definition utf8_step :: "bytes \<Rightarrow> nat \<times> bool" where
  "utf8_step bs =
     (let a = hd bs; rest = tl bs;
          n = (if between 0xC2 0xDF a then 1 else if between 0xE0 0xEF a then 2
               else if between 0xF0 0xF4 a then 3 else 0)
      in if a < 0x80 then (1, True)
         else if n = 0 \<or> rest = [] \<or> \<not> second_byte a (hd rest) then (1, False)
         else let k = 1 + continuation (n - 1) (tl rest) in (1 + k, k = n))"

subsection \<open>Scalar values\<close>

type_synonym str = "nat list"

definition scalar :: "nat \<Rightarrow> bool" where
  "scalar c \<longleftrightarrow> c < 0xD800 \<or> 0xE000 \<le> c \<and> c \<le> 0x10FFFF"

definition byte :: "nat \<Rightarrow> u8" where
  "byte n = of_nat n"

definition utf8_char :: "nat \<Rightarrow> bytes" where
  "utf8_char c =
     (if c < 0x80 then [byte c]
      else if c < 0x800 then [byte (0xC0 + c div 64), byte (0x80 + c mod 64)]
      else if c < 0x10000 then
        [byte (0xE0 + c div 4096), byte (0x80 + c div 64 mod 64), byte (0x80 + c mod 64)]
      else [byte (0xF0 + c div 262144), byte (0x80 + c div 4096 mod 64),
        byte (0x80 + c div 64 mod 64), byte (0x80 + c mod 64)])"

definition utf8 :: "str \<Rightarrow> bytes" where
  "utf8 t = concat (map utf8_char t)"

fun code_point :: "nat list \<Rightarrow> nat" where
  "code_point [a] = a"
| "code_point [a, b] = (a - 0xC0) * 64 + (b - 0x80)"
| "code_point [a, b, c] = (a - 0xE0) * 4096 + (b - 0x80) * 64 + (c - 0x80)"
| "code_point [a, b, c, d] = (a - 0xF0) * 262144 + (b - 0x80) * 4096 + (c - 0x80) * 64 + (d - 0x80)"
| "code_point _ = 0xFFFD"

function lossy_text :: "bytes \<Rightarrow> str" where
  "lossy_text bs =
     (if bs = [] then []
      else let (n, ok) = utf8_step bs
           in (if ok then code_point (map unat (take n bs)) else 0xFFFD) # lossy_text (drop (max 1 n) bs))"
  by pat_completeness auto
termination
  by (relation "measure length") auto

declare lossy_text.simps [simp del]

text \<open>The bytes of a string that was decoded.\<close>

definition from_utf8_lossy :: "bytes \<Rightarrow> string" where
  "from_utf8_lossy bs = map (\<lambda>b. char_of (unat b)) (utf8 (lossy_text bs))"

text \<open>A literal of the source, which is ASCII.\<close>

definition lit :: "string \<Rightarrow> str" where
  "lit s = map of_char s"

lemma lit_inject: "lit s = lit t \<longleftrightarrow> s = t"
  by (simp add: lit_def inj_map_eq_map inj_of_char)

lemma utf8_append [simp]: "utf8 (s @ t) = utf8 s @ utf8 t" "utf8 [] = []"
  by (simp_all add: utf8_def)

subsection \<open>Decoding what was encoded\<close>

lemma unat_byte: "n < 256 \<Longrightarrow> unat (byte n) = n"
  by (simp add: byte_def unat_of_nat take_bit_nat_eq_self)

lemma byte_eq_iff: "n < 256 \<Longrightarrow> byte n = x \<longleftrightarrow> n = unat x"
  by (metis unat_byte word_unat_eq_iff)

lemma between_byte:
  "n < 256 \<Longrightarrow> between lo hi (byte n) \<longleftrightarrow> unat lo \<le> n \<and> n \<le> unat hi"
  "n < 256 \<Longrightarrow> byte n < x \<longleftrightarrow> n < unat x"
  by (simp_all add: between_def word_le_nat_alt word_less_nat_alt unat_byte)

lemmas byte_views = between_byte byte_eq_iff unat_byte

lemma cont_byte [simp]:
  "between 0x80 0xBF (byte (0x80 + n mod 64))" "unat (byte (0x80 + n mod 64)) = 0x80 + n mod 64"
proof -
  have "n mod 64 < 64" by simp
  then show "between 0x80 0xBF (byte (0x80 + n mod 64))" "unat (byte (0x80 + n mod 64)) = 0x80 + n mod 64"
    by (simp_all add: byte_views)
qed

lemma sextets:
  fixes c :: nat
  shows "c div 64 * 64 + c mod 64 = c"
    and "c div 4096 * 4096 + c div 64 mod 64 * 64 + c mod 64 = c"
    and "c div 262144 * 262144 + c div 4096 mod 64 * 4096 + c div 64 mod 64 * 64 + c mod 64 = c"
proof -
  have "c div 4096 = c div 64 div 64" "c div 262144 = c div 4096 div 64"
    by (simp_all add: div_mult2_eq [symmetric])
  with div_mult_mod_eq [of c 64] div_mult_mod_eq [of "c div 64" 64] div_mult_mod_eq [of "c div 4096" 64]
  show "c div 64 * 64 + c mod 64 = c" "c div 4096 * 4096 + c div 64 mod 64 * 64 + c mod 64 = c"
      "c div 262144 * 262144 + c div 4096 mod 64 * 4096 + c div 64 mod 64 * 64 + c mod 64 = c"
    by linarith+
qed

lemma mod_below: "n < k * 64 + m \<Longrightarrow> n div 64 = k \<Longrightarrow> n mod 64 < m" for n :: nat
  using div_mult_mod_eq [of n 64] by linarith

lemma continuation_two:
  "between 0x80 0xBF a \<Longrightarrow> between 0x80 0xBF b \<Longrightarrow> continuation 2 (a # b # bs) = Suc (Suc 0)"
  by (simp add: numeral_2_eq_2)

lemma utf8_step_char:
  assumes "scalar c"
  shows "utf8_step (utf8_char c @ bs) = (length (utf8_char c), True)
    \<and> code_point (map unat (utf8_char c)) = c"
proof -
  consider (one) "c < 0x80" | (two) "0x80 \<le> c" "c < 0x800" | (three) "0x800 \<le> c" "c < 0x10000"
    | (four) "0x10000 \<le> c" "c \<le> 0x10FFFF"
    using assms by (fastforce simp: scalar_def)
  then show ?thesis
  proof cases
    case one
    then show ?thesis
      by (simp add: utf8_char_def utf8_step_def byte_views)
  next
    case two
    then have lead: "c div 64 < 32" "2 \<le> c div 64"
      by simp_all
    then have "0xC0 + c div 64 < 256"
      by simp
    with two lead show ?thesis
      by (simp add: utf8_char_def utf8_step_def second_byte_def byte_views Let_def)
  next
    case three
    have lead: "c div 4096 < 16"
      using three by simp
    have "c div 64 mod 64 < 32" if "c div 4096 = 13"
    proof (rule mod_below)
      have "c < 0xD800"
        using that assms three by (auto simp: scalar_def)
      then show "c div 64 < 13 * 64 + 32"
        by simp
      show "c div 64 div 64 = 13"
        using that by (simp add: div_mult2_eq)
    qed
    moreover have "32 \<le> c div 64 mod 64" if "c div 4096 = 0"
      using that three by auto
    ultimately have second: "c div 4096 = 0 \<Longrightarrow> 32 \<le> c div 64 mod 64"
        "c div 4096 = 13 \<Longrightarrow> c div 64 mod 64 < 32"
      by blast+
    have "second_byte (byte (0xE0 + c div 4096)) (byte (0x80 + c div 64 mod 64))"
      using lead second by (auto simp: second_byte_def byte_views)
    then show ?thesis
      using three lead sextets(2) [of c] by (simp add: utf8_char_def utf8_step_def byte_views Let_def)
  next
    case four
    have lead: "c div 262144 < 5"
      using four by simp
    have second: "c div 262144 = 0 \<Longrightarrow> 16 \<le> c div 4096 mod 64" "c div 262144 = 4 \<Longrightarrow> c div 4096 mod 64 < 16"
      using four mod_below [of "c div 4096" 4 16] by (auto simp: div_mult2_eq [symmetric])
    have "second_byte (byte (0xF0 + c div 262144)) (byte (0x80 + c div 4096 mod 64))"
      using lead second by (auto simp: second_byte_def byte_views)
    then show ?thesis
      using four lead sextets(3) [of c] by (simp add: utf8_char_def utf8_step_def byte_views continuation_two Let_def)
  qed
qed

lemma utf8_char_nonempty [simp]: "utf8_char c \<noteq> []"
  by (simp add: utf8_char_def)

text \<open>What was encoded is decoded as it was, whatever bytes follow.\<close>

lemma lossy_text_utf8:
  "list_all scalar t \<Longrightarrow> lossy_text (utf8 t @ bs) = t @ lossy_text bs"
proof (induction t)
  case (Cons c t)
  let ?rest = "utf8 t @ bs"
  have "0 < length (utf8_char c)"
    by simp
  then have "max 1 (length (utf8_char c)) = length (utf8_char c)"
    by linarith
  then have "lossy_text (utf8_char c @ ?rest) = c # lossy_text ?rest"
    using utf8_step_char [of c ?rest] Cons.prems by (subst lossy_text.simps) simp
  with Cons show ?case
    by (simp add: utf8_def)
qed simp

subsection \<open>Operations on str\<close>

definition white_space :: "nat \<Rightarrow> bool" where
  "white_space c \<longleftrightarrow> 9 \<le> c \<and> c \<le> 13 \<or> c = 0x20 \<or> c = 0x85 \<or> c = 0xA0 \<or> c = 0x1680
     \<or> 0x2000 \<le> c \<and> c \<le> 0x200A \<or> c = 0x2028 \<or> c = 0x2029 \<or> c = 0x202F \<or> c = 0x205F \<or> c = 0x3000"

fun split_by :: "('a \<Rightarrow> bool) \<Rightarrow> 'a list \<Rightarrow> 'a list list" where
  "split_by p [] = [[]]"
| "split_by p (x # xs) =
     (if p x then [] # split_by p xs
      else case split_by p xs of q # qs \<Rightarrow> (x # q) # qs | [] \<Rightarrow> [[x]])"

definition split_whitespace :: "str \<Rightarrow> str list" where
  "split_whitespace s = filter (\<lambda>w. w \<noteq> []) (split_by white_space s)"

definition strip_cr :: "str \<Rightarrow> str" where
  "strip_cr l = (if l \<noteq> [] \<and> last l = 13 then butlast l else l)"

text \<open>Only a line that ends with a line feed loses its carriage return.\<close>

definition str_lines :: "str \<Rightarrow> str list" where
  "str_lines s =
     (let ps = split_by (\<lambda>c. c = 10) s
      in map strip_cr (butlast ps) @ (if last ps = [] then [] else [last ps]))"

definition split_once :: "nat \<Rightarrow> str \<Rightarrow> (str \<times> str) option" where
  "split_once x s =
     (let k = takeWhile (\<lambda>c. c \<noteq> x) s
      in if length k < length s then Some (k, drop (Suc (length k)) s) else None)"

definition trim :: "str \<Rightarrow> str" where
  "trim s = rev (dropWhile white_space (rev (dropWhile white_space s)))"

lemma split_by_nonempty [simp]: "split_by p xs \<noteq> []"
  by (induction xs) (auto split: list.splits)

lemma split_by_none: "list_all (\<lambda>x. \<not> p x) xs \<Longrightarrow> split_by p xs = [xs]"
  by (induction xs) auto

lemma split_by_append:
  "list_all (\<lambda>x. \<not> p x) xs \<Longrightarrow> p y \<Longrightarrow> split_by p (xs @ y # ys) = xs # split_by p ys"
  by (induction xs) auto

text \<open>A line ended by a carriage return and a line feed.\<close>

lemma str_lines_crlf:
  assumes "list_all (\<lambda>c. c \<noteq> 10) l"
  shows "str_lines (l @ 13 # 10 # s) = l # str_lines s"
proof -
  have "split_by (\<lambda>c. c = 10) ((l @ [13]) @ 10 # s) = (l @ [13]) # split_by (\<lambda>c. c = 10) s"
    using assms by (intro split_by_append) simp_all
  then show ?thesis
    by (simp add: str_lines_def strip_cr_def Let_def)
qed

lemma split_words:
  assumes "list_all (\<lambda>c. \<not> white_space c) w" and "w \<noteq> []" and "white_space c"
  shows "split_whitespace (w @ c # s) = w # split_whitespace s"
  using assms by (simp add: split_whitespace_def split_by_append)

lemma split_last_word:
  "list_all (\<lambda>c. \<not> white_space c) w \<Longrightarrow> w \<noteq> [] \<Longrightarrow> split_whitespace w = [w]"
  by (simp add: split_whitespace_def split_by_none)

lemma split_once_here:
  assumes "list_all (\<lambda>c. c \<noteq> x) k"
  shows "split_once x (k @ x # v) = Some (k, v)"
proof -
  have "takeWhile (\<lambda>c. c \<noteq> x) (k @ x # v) = k"
    using assms by (auto simp: list_all_iff takeWhile_append)
  then show ?thesis
    by (simp add: split_once_def)
qed

end
