(* ===== verification/Rpc_Client.thy ===== *)
theory Rpc_Client
  imports Tcp_Client Wire Rust_Text
begin

section \<open>The RPC client\<close>

text \<open>
  \<^verbatim>\<open>mill-rpc/src/client.rs\<close> over the TCP client: the calls and the handler that completes
  them. A call holds the lock of the pending calls except while it waits; what other threads do
  to the shared state before it takes the lock, and during each wait, is a list of operations,
  and each wait says when it was started and whether it timed out. bincode's decoding of an
  error is an argument. Logging is left out.
\<close>

subsection \<open>State\<close>

record pending_request =
  completed :: bool
  result :: "(rpc_error + bytes) option"

record client_shared =
  pending :: "(u64, pending_request) hmap"
  recv_buf :: bytes

record rpc_client =
  tcp_client :: "client_shared client_state"
  next_request_id :: u64
  call_timeout :: u64

abbreviation shared :: "rpc_client \<Rightarrow> client_shared" where
  "shared c \<equiv> cl_user (tcp_client c)"

definition set_shared :: "client_shared \<Rightarrow> rpc_client \<Rightarrow> rpc_client" where
  "set_shared sh c = c\<lparr>tcp_client := (tcp_client c)\<lparr>cl_user := sh\<rparr>\<rparr>"

subsection \<open>The handler\<close>

type_synonym error_decoder = "bytes \<Rightarrow> string + rpc_error"

definition complete :: "u64 \<Rightarrow> rpc_error + bytes \<Rightarrow> client_shared \<Rightarrow> client_shared" where
  "complete rid r sh = (case hm_get (pending sh) rid of
      Some req \<Rightarrow> sh\<lparr>pending := hm_insert rid (req\<lparr>completed := True, result := Some r\<rparr>) (pending sh)\<rparr>
    | None \<Rightarrow> sh)"

definition client_handle_frame :: "error_decoder \<Rightarrow> frame \<Rightarrow> client_shared \<Rightarrow> client_shared" where
  "client_handle_frame decode_error f sh = (case message_type (header f) of
      Response \<Rightarrow>
        (case parse_response_payload f of
           Inl e \<Rightarrow> sh
         | Inr (rid, data) \<Rightarrow> complete rid (Inr data) sh)
    | Error \<Rightarrow>
        (case parse_response_payload f of
           Inl e \<Rightarrow> sh
         | Inr (rid, err_data) \<Rightarrow>
             let rpc_err = (case decode_error err_data of
                   Inr e \<Rightarrow> e
                 | Inl _ \<Rightarrow> internal (from_utf8_lossy err_data))
             in complete rid (Inl rpc_err) sh)
    | Pong \<Rightarrow> sh
    | _ \<Rightarrow> sh)"

definition client_on_data :: "error_decoder \<Rightarrow> bytes \<Rightarrow> client_shared \<Rightarrow> client_shared" where
  "client_on_data decode_error data sh =
     (let (res, buf) = receive (recv_buf sh) data;
          sh = sh\<lparr>recv_buf := buf\<rparr>
      in case res of
           Inl e \<Rightarrow> sh
         | Inr frames \<Rightarrow> fold (client_handle_frame decode_error) frames sh)"

definition rpc_client_handler :: "error_decoder \<Rightarrow> client_shared client_callbacks" where
  "rpc_client_handler decode_error =
     default_handler (\<lambda>c data s. (None, s\<lparr>cl_user := client_on_data decode_error data (cl_user s)\<rparr>))"

interpretation rpc_client: client_handler "rpc_client_handler decode_error" for decode_error
  by unfold_locales (simp_all add: rpc_client_handler_def default_handler_def own_state_def)

subsection \<open>Connecting\<close>

definition CLIENT_TOKEN :: token where
  "CLIENT_TOKEN = 2 ^ 64 - 1 - 1"

definition rpc_connect :: "error_decoder \<Rightarrow> string option \<Rightarrow> string option \<Rightarrow> socket
    \<Rightarrow> loop_handler poll_handle \<Rightarrow> rpc_error + rpc_client" where
  "rpc_connect decode_error connect_error register_err k p =
     (let sh = \<lparr>pending = [], recv_buf = []\<rparr> in
      case client_connect connect_error k p sh of
        Inl e \<Rightarrow> Inl (unavailable (''Connect failed: '' @ e))
      | Inr tcp \<Rightarrow>
          (case client_start (rpc_client_handler decode_error) register_err CLIENT_TOKEN tcp of
             (Some e, tcp) \<Rightarrow> Inl (unavailable (''Client start failed: '' @ e))
           | (None, tcp) \<Rightarrow>
               Inr \<lparr>tcp_client = tcp, next_request_id = 1, call_timeout = 30 * 1000\<rparr>))"

definition set_timeout :: "duration \<Rightarrow> rpc_client \<Rightarrow> rpc_client" where
  "set_timeout d c = c\<lparr>call_timeout := as_millis_u64 d\<rparr>"

definition timeout :: "rpc_client \<Rightarrow> duration" where
  "timeout c = from_millis (call_timeout c)"

subsection \<open>Calling\<close>

text \<open>What other threads do to the shared state: the handler gets data, and other calls add and
  remove their entries.\<close>

datatype shared_op = Data bytes | Add_pending u64 | Remove_pending u64

definition new_pending :: pending_request where
  "new_pending = \<lparr>completed = False, result = None\<rparr>"

definition add_pending :: "u64 \<Rightarrow> client_shared \<Rightarrow> client_shared" where
  "add_pending rid sh = sh\<lparr>pending := hm_insert rid new_pending (pending sh)\<rparr>"

definition remove_pending :: "u64 \<Rightarrow> client_shared \<Rightarrow> client_shared" where
  "remove_pending rid sh = sh\<lparr>pending := hm_remove rid (pending sh)\<rparr>"

fun shared_step :: "error_decoder \<Rightarrow> shared_op \<Rightarrow> client_shared \<Rightarrow> client_shared" where
  "shared_step decode_error (Data data) sh = client_on_data decode_error data sh"
| "shared_step decode_error (Add_pending rid) sh = add_pending rid sh"
| "shared_step decode_error (Remove_pending rid) sh = remove_pending rid sh"

abbreviation shared_steps :: "error_decoder \<Rightarrow> shared_op list \<Rightarrow> client_shared \<Rightarrow> client_shared" where
  "shared_steps decode_error xs sh \<equiv> fold (shared_step decode_error) xs sh"

record wait =
  wait_from :: instant
  meanwhile :: "shared_op list"
  timed_out :: bool

datatype call_end = Returned "rpc_error + bytes" | Unwrap_panic | Waiting

definition timeout_error :: "u64 \<Rightarrow> u64 \<Rightarrow> rpc_error" where
  "timeout_error rid ms = deadline_exceeded
     (''Request '' @ show_dec (unat rid) @ '' timed out after '' @ show_dec (unat ms))"

definition finished :: "pending_request \<Rightarrow> call_end" where
  "finished req = (case result req of Some r \<Rightarrow> Returned r | None \<Rightarrow> Unwrap_panic)"

fun wait_loop :: "error_decoder \<Rightarrow> u64 \<Rightarrow> u64 \<Rightarrow> instant \<Rightarrow> wait list \<Rightarrow> client_shared
    \<Rightarrow> call_end \<times> client_shared" where
  "wait_loop decode_error rid ms deadline [] sh = (case hm_get (pending sh) rid of
      None \<Rightarrow> (Returned (Inl (internal ''Pending request disappeared'')), sh)
    | Some req \<Rightarrow> if completed req then (finished req, remove_pending rid sh) else (Waiting, sh))"
| "wait_loop decode_error rid ms deadline (w # ws) sh = (case hm_get (pending sh) rid of
      None \<Rightarrow> (Returned (Inl (internal ''Pending request disappeared'')), sh)
    | Some req \<Rightarrow>
        if completed req then (finished req, remove_pending rid sh)
        else let remaining = deadline - wait_from w in
        if remaining = 0 then (Returned (Inl (timeout_error rid ms)), remove_pending rid sh)
        else let sh = shared_steps decode_error (meanwhile w) sh in
        if timed_out w then (Returned (Inl (timeout_error rid ms)), remove_pending rid sh)
        else wait_loop decode_error rid ms deadline ws sh)"

text \<open>\<open>early\<close> happens before the call takes the lock for its loop, at the time \<open>now\<close>.\<close>

definition call_raw :: "error_decoder \<Rightarrow> shared_op list \<Rightarrow> instant \<Rightarrow> wait list \<Rightarrow> u16 \<Rightarrow> u16 \<Rightarrow> bytes
    \<Rightarrow> rpc_client \<Rightarrow> call_end \<times> rpc_client" where
  "call_raw decode_error early now ws sid mth body c =
     (let rid = next_request_id c;
          c = c\<lparr>next_request_id := rid + 1\<rparr>;
          c = set_shared (add_pending rid (shared c)) c;
          f = frame_request rid sid mth body False;
          (err, tcp) = client_send (frame_encode f) (tcp_client c);
          c = c\<lparr>tcp_client := tcp\<rparr>
      in case err of
           Some e \<Rightarrow>
             (Returned (Inl (unavailable (''Send failed: '' @ e))),
              set_shared (remove_pending rid (shared c)) c)
         | None \<Rightarrow>
             let c = set_shared (shared_steps decode_error early (shared c)) c;
                 deadline = now + timeout c;
                 (res, sh) = wait_loop decode_error rid (call_timeout c) deadline ws (shared c)
             in (res, set_shared sh c))"

definition call_oneway :: "u16 \<Rightarrow> u16 \<Rightarrow> bytes \<Rightarrow> rpc_client \<Rightarrow> (rpc_error + unit) \<times> rpc_client" where
  "call_oneway sid mth body c =
     (let rid = next_request_id c;
          c = c\<lparr>next_request_id := rid + 1\<rparr>;
          f = frame_request rid sid mth body True;
          (err, tcp) = client_send (frame_encode f) (tcp_client c);
          c = c\<lparr>tcp_client := tcp\<rparr>
      in (case err of
            Some e \<Rightarrow> Inl (unavailable (''Send failed: '' @ e))
          | None \<Rightarrow> Inr (), c))"

subsection \<open>Who waits for what\<close>

lemma complete_get:
  "hm_get (pending (complete rid r sh)) j = (if j = rid
     then map_option (\<lambda>req. req\<lparr>completed := True, result := Some r\<rparr>) (hm_get (pending sh) rid)
     else hm_get (pending sh) j)"
  by (auto simp: complete_def hm_simps split: option.splits)

lemma complete_buf [simp]: "recv_buf (complete rid r sh) = recv_buf sh"
  by (simp add: complete_def split: option.splits)

lemma complete_dom: "dom (hm_get (pending (complete rid r sh))) = dom (hm_get (pending sh))"
  by (auto simp: complete_get split: if_splits)

text \<open>What a frame tells which call.\<close>

definition verdict :: "error_decoder \<Rightarrow> frame \<Rightarrow> (u64 \<times> (rpc_error + bytes)) option" where
  "verdict decode_error f = (case message_type (header f) of
      Response \<Rightarrow>
        (case parse_response_payload f of Inl e \<Rightarrow> None | Inr (rid, data) \<Rightarrow> Some (rid, Inr data))
    | Error \<Rightarrow>
        (case parse_response_payload f of
           Inl e \<Rightarrow> None
         | Inr (rid, err_data) \<Rightarrow>
             Some (rid, Inl (case decode_error err_data of
               Inr e \<Rightarrow> e | Inl _ \<Rightarrow> internal (from_utf8_lossy err_data))))
    | _ \<Rightarrow> None)"

lemma client_handle_frame_verdict:
  "client_handle_frame decode_error f sh = (case verdict decode_error f of
     Some (rid, r) \<Rightarrow> complete rid r sh | None \<Rightarrow> sh)"
  by (simp add: client_handle_frame_def verdict_def Let_def case_prod_unfold
      split: message_type.splits sum.splits option.splits)

lemma fold_frames_dom:
  "dom (hm_get (pending (fold (client_handle_frame decode_error) fs sh))) = dom (hm_get (pending sh))
   \<and> recv_buf (fold (client_handle_frame decode_error) fs sh) = recv_buf sh"
proof (induction fs arbitrary: sh)
  case (Cons f fs)
  have "dom (hm_get (pending (client_handle_frame decode_error f sh))) = dom (hm_get (pending sh))
      \<and> recv_buf (client_handle_frame decode_error f sh) = recv_buf sh"
    by (simp add: client_handle_frame_verdict complete_dom split: option.splits)
  with Cons [of "client_handle_frame decode_error f sh"] show ?case by simp
qed simp

lemma on_data_dom:
  "dom (hm_get (pending (client_on_data decode_error data sh))) = dom (hm_get (pending sh))"
  using fold_frames_dom
  by (simp add: client_on_data_def Let_def case_prod_unfold split: sum.splits)

text \<open>A completed call has a result, so the call never panics on it.\<close>

definition results_ok :: "client_shared \<Rightarrow> bool" where
  "results_ok sh \<longleftrightarrow> (\<forall>rid req. hm_get (pending sh) rid = Some req \<longrightarrow> completed req \<longrightarrow> result req \<noteq> None)"

lemma results_ok_complete: "results_ok sh \<Longrightarrow> results_ok (complete rid r sh)"
  by (auto simp: results_ok_def complete_get split: if_splits)

lemma results_ok_frames: "results_ok sh \<Longrightarrow> results_ok (fold (client_handle_frame decode_error) fs sh)"
proof (induction fs arbitrary: sh)
  case (Cons f fs)
  have "results_ok (client_handle_frame decode_error f sh)"
    using Cons.prems by (auto simp: client_handle_frame_verdict results_ok_complete split: option.splits)
  with Cons.IH show ?case by simp
qed simp

lemma results_ok_step: "results_ok sh \<Longrightarrow> results_ok (shared_step decode_error x sh)"
proof (cases x)
  case (Data data)
  have "results_ok (sh\<lparr>recv_buf := b\<rparr>) = results_ok sh" for b
    by (simp add: results_ok_def)
  then show "results_ok sh \<Longrightarrow> ?thesis"
    using results_ok_frames Data
    by (simp add: client_on_data_def Let_def case_prod_unfold split: sum.splits)
qed (auto simp: results_ok_def add_pending_def remove_pending_def new_pending_def hm_simps)

lemma results_ok_steps: "results_ok sh \<Longrightarrow> results_ok (shared_steps decode_error xs sh)"
  by (induction xs arbitrary: sh) (simp_all add: results_ok_step)

lemma finished_ok:
  "results_ok sh \<Longrightarrow> hm_get (pending sh) rid = Some req \<Longrightarrow> completed req \<Longrightarrow> finished req \<noteq> Unwrap_panic"
  by (auto simp: results_ok_def finished_def split: option.splits)

lemma finished_not_waiting: "finished req \<noteq> Waiting"
  by (simp add: finished_def split: option.splits)

text \<open>A wait that ends a call: it is started after the deadline, or it times out.\<close>

definition last_wait :: "instant \<Rightarrow> wait \<Rightarrow> bool" where
  "last_wait deadline w \<longleftrightarrow> deadline \<le> wait_from w \<or> timed_out w"

lemma removed [simp]: "hm_get (pending (remove_pending rid sh)) rid = None"
  by (simp add: remove_pending_def hm_simps)

lemma wait_loop_end:
  assumes "results_ok sh" and "wait_loop decode_error rid ms deadline ws sh = (res, sh')"
  shows "res \<noteq> Unwrap_panic \<and> (list_ex (last_wait deadline) ws \<longrightarrow> res \<noteq> Waiting)
    \<and> (res \<noteq> Waiting \<longrightarrow> hm_get (pending sh') rid = None)"
  using assms
proof (induction ws arbitrary: sh)
  case Nil
  then show ?case
    using finished_ok [of sh rid] finished_not_waiting
    by (auto split: option.splits if_splits)
next
  case (Cons w ws)
  have "results_ok (shared_steps decode_error (meanwhile w) sh)"
    by (rule results_ok_steps) fact
  with Cons.IH Cons.prems finished_ok [of sh rid] finished_not_waiting show ?case
    by (auto simp: Let_def last_wait_def split: option.splits if_splits)
qed

text \<open>C27: a call never panics and never outlives its deadline: it has returned once a wait was
  started after the deadline or timed out. Whenever it returns, by a response, an error, a
  failed send or the timeout, its entry is gone from the pending calls.\<close>

theorem call_ends_clean:
  assumes "results_ok (shared c)"
    and "call_raw decode_error early now ws sid mth body c = (res, c')"
  shows "res \<noteq> Unwrap_panic
    \<and> (list_ex (last_wait (now + timeout c)) ws \<longrightarrow> res \<noteq> Waiting)
    \<and> (res \<noteq> Waiting \<longrightarrow> hm_get (pending (shared c')) (next_request_id c) = None)"
proof -
  let ?rid = "next_request_id c"
  let ?c1 = "set_shared (add_pending ?rid (shared c)) (c\<lparr>next_request_id := ?rid + 1\<rparr>)"
  obtain err tcp where send: "client_send (frame_encode (frame_request ?rid sid mth body False))
      (tcp_client ?c1) = (err, tcp)"
    by fastforce
  have ok: "results_ok (add_pending ?rid (shared c))"
    using assms(1) by (auto simp: results_ok_def add_pending_def new_pending_def hm_simps)
  have user: "cl_user tcp = add_pending ?rid (shared c)"
    using send by (auto simp: client_send_def set_shared_def split: option.splits prod.splits)
  show ?thesis
  proof (cases err)
    case (Some e)
    then show ?thesis
      using assms(2) send by (auto simp: call_raw_def set_shared_def user Let_def)
  next
    case None
    obtain r sh where loop: "wait_loop decode_error ?rid (call_timeout c) (now + timeout c) ws
        (shared_steps decode_error early (cl_user tcp)) = (r, sh)"
      by fastforce
    have "res = r \<and> shared c' = sh"
      using assms(2) send None loop by (auto simp: call_raw_def set_shared_def timeout_def Let_def)
    with wait_loop_end [OF _ loop] results_ok_steps ok user show ?thesis
      by auto
  qed
qed

end
