(* ===== verification/Rpc_System.thy ===== *)
theory Rpc_System
  imports Rpc_Server Rpc_Client
begin

section \<open>Client and server together\<close>

text \<open>
  Properties of the RPC server against its reference, of the calls of a client, and of both
  together: a call's bytes go through the server's connection, in any pieces, and its answer
  back to the call that waits for it.
\<close>

subsection \<open>The server\<close>

text \<open>C28: a connection of the RPC server implements the reference server: whatever pieces the
  bytes arrive in, it sends exactly the reference's answers to the complete frames, in order,
  leaves the application in the reference's state and keeps the incomplete rest.\<close>

theorem server_refines_reference:
  assumes "parse_frames (concat chunks) = Inr (fs, n)"
    and "hm_get (conn_buffers (user s)) (as_u64 c) = Some []"
    and "serve encode_error R fs (app (user s)) = (gs, w)" and "can_send c (length (wire gs)) s"
    and "s' = read_chunks encode_error R c chunks s"
  shows "outgoing (sockets s' c) = outgoing (sockets s c) @ wire gs \<and> app (user s') = w
    \<and> hm_get (conn_buffers (user s')) (as_u64 c) = Some (drop n (concat chunks))
    \<and> (\<forall>d. d \<noteq> c \<longrightarrow> sockets s' d = sockets s d)"
proof -
  have "frames_of (concat chunks) = Inr (fs, drop n (concat chunks))"
    using assms(1) by (simp add: parse_frames_Inr)
  then have "frames.feed [] chunks = Inr (fs, drop n (concat chunks))"
    by (rule frames.feed_good)
  from read_chunks_serve [OF this assms(2-4)] assms(5) show ?thesis
    by (simp add: put_def) (simp add: set_buffer_def hm_simps)
qed

definition no_encoder :: error_encoder where
  "no_encoder e = Inl ''unsupported''"

definition doubling :: "nat dispatcher" where
  "doubling ctx m args cd w = (Inr (args @ args), w + 1)"

definition sample_rpc :: "nat rpc_server_handler" where
  "sample_rpc = \<lparr>services = hm_insert 0 doubling [], server_codec = codec_bincode\<rparr>"

definition sample_socket :: socket where
  "sample_socket = \<lparr>incoming = [], at_eof = False, read_error = None, outgoing = [],
     room = 65536, write_error = None, deregister_error = None\<rparr>"

text \<open>A server with one connection open.\<close>

definition rpc_state0 :: "nat rpc_state" where
  "rpc_state0 = \<lparr>connections = hm_insert 1 \<lparr>conn_token = 1, conn_peer = ''p''\<rparr> [], counter = 1,
     next_conn_id = 2, buffer_pool = object_pool_new 20 (Bytes []), has_server = True,
     has_loop = True, loop_alive = True, poll = poll_handle_new, sockets = (\<lambda>_. sample_socket),
     backlog = [], user = \<lparr>conn_buffers = hm_insert 1 [] [], app = 0\<rparr>\<rparr>"

lemma rpc_state0_facts [simp]:
  "hm_get (conn_buffers (user rpc_state0)) (as_u64 1) = Some []" "app (user rpc_state0) = 0"
  "can_send 1 n rpc_state0 \<longleftrightarrow> n \<le> 65536" "outgoing (sockets rpc_state0 1) = []"
  by (auto simp: rpc_state0_def hm_simps as_u64_def can_send_def sample_socket_def)

lemma frame_types [simp]:
  "message_type (header (frame_request rid sid mth args one_way)) = Request"
  "message_type (header (frame_response rid data)) = Response"
  "message_type (header (frame_error rid data)) = Error"
  by (simp_all add: frame_request_def frame_response_def frame_error_def Let_def)

lemma sample_reply:
  "reply encode_error sample_rpc (frame_request rid 0 m args False) w
     = ([frame_response rid (args @ args)], w + 1)"
  by (simp add: reply_def parse_request_payload_request request_flags run_service_def sample_rpc_def
      hm_simps doubling_def answer_def)

lemma parse_two:
  "12 + length a \<le> 16777216 \<Longrightarrow> frames_of (frame_encode (frame_request r i m a b)) = Inr ([frame_request r i m a b], [])"
  using frames_of_complete [of "[frame_request r i m a b]" "[]"] wf_frame_request [of a r i m b]
  by (simp add: next_frame_def HEADER_SIZE_def)

theorem server_refines_reference_witness:
  "outgoing (sockets (read_chunks no_encoder sample_rpc 1
      [frame_encode (frame_request 5 0 0 [7] False)] rpc_state0) 1) = frame_encode (frame_response 5 [7, 7])"
proof -
  let ?f = "frame_request 5 0 0 [7] False"
  have "parse_frames (concat [frame_encode ?f]) = Inr ([?f], length (frame_encode ?f))"
    using parse_two [of "[7]" 5 0 0 False] by (simp add: parse_frames_Inr)
  moreover have "serve no_encoder sample_rpc [?f] (app (user rpc_state0)) = ([frame_response 5 [7, 7]], 1)"
    by (simp add: sample_reply)
  moreover have "can_send 1 (length (wire [frame_response 5 [7, 7]])) rpc_state0"
    by (simp add: wire_def frame_encode_def HEADER_SIZE_def frame_response_def Let_def le64.width_to_le)
  ultimately show ?thesis
    using server_refines_reference [OF _ rpc_state0_facts(1) _ _ refl] by (fastforce simp: wire_def)
qed

text \<open>Requests as the client's stubs make them, and what running them one by one returns to
  those that wait for an answer.\<close>

type_synonym request = "u64 \<times> u16 \<times> u16 \<times> bytes \<times> bool"

fun request_frame :: "request \<Rightarrow> frame" where
  "request_frame (rid, sid, mth, args, one_way) = frame_request rid sid mth args one_way"

fun outcomes :: "'w rpc_server_handler \<Rightarrow> request list \<Rightarrow> 'w \<Rightarrow> (u64 \<times> (rpc_error + bytes)) list" where
  "outcomes R [] w = []"
| "outcomes R ((rid, sid, mth, args, one_way) # rs) w =
     (let (res, w) = run_service R rid sid mth args w
      in (if one_way then [] else [(rid, res)]) @ outcomes R rs w)"

definition faithful_codec :: "error_encoder \<Rightarrow> error_decoder \<Rightarrow> bool" where
  "faithful_codec encode_error decode_error \<longleftrightarrow>
     (\<forall>e. \<exists>b. encode_error e = Inr b \<and> decode_error b = Inr e)"

lemma faithful_codecD: "faithful_codec enc dec \<Longrightarrow> \<exists>b. enc e = Inr b \<and> dec b = Inr e"
  by (simp add: faithful_codec_def)

lemma serialize_cases: "serialize enc cd e = (case enc e of Inl m \<Rightarrow> Inl (codec_error (''serialize: '' @ m)) | Inr b \<Rightarrow> Inr b)"
  by (cases "codec_type cd") (simp add: serialize_def)

lemma verdict_response [simp]:
  "verdict decode_error (frame_response rid data) = Some (rid, Inr data)"
  "decode_error b = Inr e \<Longrightarrow> verdict decode_error (frame_error rid b) = Some (rid, Inl e)"
  by (simp_all add: verdict_def parse_response_payload_response)

lemma verdict_answer:
  assumes "faithful_codec encode_error decode_error"
  shows "\<exists>g. answer encode_error R rid res = [g] \<and> verdict decode_error g = Some (rid, res)"
proof (cases res)
  case (Inl e)
  obtain b where "encode_error e = Inr b" "decode_error b = Inr e"
    using faithful_codecD [OF assms] by blast
  with Inl show ?thesis
    by (simp add: answer_def serialize_cases)
qed (simp add: answer_def)

lemma reply_request:
  "reply encode_error R (frame_request rid sid mth args one_way) w =
     (let (res, w) = run_service R rid sid mth args w
      in (if one_way then [] else answer encode_error R rid res, w))"
  by (simp add: reply_def parse_request_payload_request request_flags)


text \<open>An encoding of errors for the witnesses: the status and the characters.\<close>

definition statuses :: "rpc_status list" where
  "statuses = [Ok, Cancelled, InvalidArgument, NotFound, AlreadyExists, PermissionDenied,
     Unauthenticated, ResourceExhausted, Internal, Unavailable, DeadlineExceeded]"

primrec status_index :: "rpc_status \<Rightarrow> nat" where
  "status_index Ok = 0" | "status_index Cancelled = 1" | "status_index InvalidArgument = 2"
| "status_index NotFound = 3" | "status_index AlreadyExists = 4" | "status_index PermissionDenied = 5"
| "status_index Unauthenticated = 6" | "status_index ResourceExhausted = 7"
| "status_index Internal = 8" | "status_index Unavailable = 9" | "status_index DeadlineExceeded = 10"

definition sample_encoder :: error_encoder where
  "sample_encoder e = Inr (of_nat (status_index (status e)) # map (\<lambda>ch. of_nat (of_char ch)) (message e))"

definition sample_decoder :: error_decoder where
  "sample_decoder bs = Inr \<lparr>status = statuses ! unat (hd bs), message = map (\<lambda>b. char_of (unat b)) (tl bs)\<rparr>"

lemma status_index [simp]: "statuses ! unat (of_nat (status_index st) :: u8) = st"
  by (cases st) (simp_all add: statuses_def)

lemma char_byte [simp]: "char_of (unat (of_nat (of_char ch) :: u8)) = (ch :: char)"
proof -
  have "(of_char ch :: nat) < 256"
    using mod_less_divisor [of 256 "of_char ch :: nat"] by simp
  then have "unat (of_nat (of_char ch) :: u8) = of_char ch"
    by (simp add: unat_of_nat take_bit_nat_eq_self)
  then show ?thesis
    by simp
qed

lemma sample_faithful: "faithful_codec sample_encoder sample_decoder"
  by (simp add: faithful_codec_def sample_encoder_def sample_decoder_def comp_def)


subsection \<open>A call through both\<close>

lemma feed_append:
  "frames.feed b (xs @ ys) = (case frames.feed b xs of
     Inl e \<Rightarrow> Inl e
   | Inr (fs, r) \<Rightarrow> map_sum id (\<lambda>(gs, r'). (fs @ gs, r')) (frames.feed r ys))"
proof (induction xs arbitrary: b)
  case Nil
  then show ?case by (cases "frames.feed b ys") auto
next
  case (Cons x xs)
  then show ?case
    by (cases "frames_of (b @ x)") (auto simp: map_sum_case split: sum.splits prod.splits)
qed

lemma data_steps:
  "frames.feed (recv_buf sh) es = Inr (fs, r) \<Longrightarrow>
     shared_steps decode_error (map Data es) sh
       = (fold (client_handle_frame decode_error) fs sh)\<lparr>recv_buf := r\<rparr>"
proof (induction es arbitrary: sh fs)
  case Nil
  then show ?case by auto
next
  case (Cons e es)
  then obtain f1 q where first: "frames_of (recv_buf sh @ e) = Inr (f1, q)"
    by (cases "frames_of (recv_buf sh @ e)") auto
  with Cons.prems obtain f2 where rest: "frames.feed q es = Inr (f2, r)" and fs: "fs = f1 @ f2"
    by (cases "frames.feed q es") auto
  have keep: "fold (client_handle_frame decode_error) gs (t\<lparr>recv_buf := b\<rparr>)
      = (fold (client_handle_frame decode_error) gs t)\<lparr>recv_buf := b\<rparr>" for gs t b
  proof (induction gs arbitrary: t)
    case (Cons g gs)
    have "client_handle_frame decode_error g (t\<lparr>recv_buf := b\<rparr>)
        = (client_handle_frame decode_error g t)\<lparr>recv_buf := b\<rparr>"
      by (simp add: client_handle_frame_verdict complete_def split: option.splits)
    with Cons show ?case by simp
  qed simp
  have "client_on_data decode_error e sh = (fold (client_handle_frame decode_error) f1 sh)\<lparr>recv_buf := q\<rparr>"
    using first by (simp add: client_on_data_def receive_frames_of keep)
  then show ?case
    using Cons.IH [of "client_on_data decode_error e sh" f2] rest fs by (simp add: keep)
qed

lemma wait_loop_completed:
  assumes "hm_get (pending sh) rid = Some req" and "completed req" and "result req = Some res"
  shows "fst (wait_loop decode_error rid ms deadline ws sh) = Returned res"
  using assms by (cases ws) (simp_all add: finished_def)

lemma wait_loop_step:
  assumes "hm_get (pending sh) rid = Some req" and "\<not> completed req"
    and "wait_from w < deadline" and "\<not> timed_out w"
  shows "wait_loop decode_error rid ms deadline (w # ws) sh
    = wait_loop decode_error rid ms deadline ws (shared_steps decode_error (meanwhile w) sh)"
  using assms by (simp add: Let_def)

lemma complete_pending:
  assumes "hm_get (pending sh) rid = Some req"
  shows "hm_get (pending (complete rid res sh)) rid = Some (req\<lparr>completed := True, result := Some res\<rparr>)"
  using assms by (simp add: complete_get)

text \<open>The bytes the client puts on the wire for a call, and the call as far as its wait loop.\<close>

lemma call_raw_sent:
  assumes "cl_stream (tcp_client c) = Some k" and "write_error k = None"
    and "length (frame_encode (frame_request (next_request_id c) sid mth body False)) \<le> room k"
  shows "fst (call_raw decode_error early now ws sid mth body c)
      = fst (wait_loop decode_error (next_request_id c) (call_timeout c) (now + timeout c) ws
          (shared_steps decode_error early (add_pending (next_request_id c) (shared c))))
    \<and> map_option outgoing (cl_stream (tcp_client (snd (call_raw decode_error early now ws sid mth body c))))
      = Some (outgoing k @ frame_encode (frame_request (next_request_id c) sid mth body False))"
  using assms
  by (simp add: call_raw_def client_send_def write_all_def set_shared_def timeout_def Let_def
      case_prod_unfold)

text \<open>The answer fits the wire, and so does the request.\<close>

definition fits :: "error_encoder \<Rightarrow> bytes \<Rightarrow> rpc_error + bytes \<Rightarrow> bool" where
  "fits encode_error body res \<longleftrightarrow> 12 + length body \<le> 16777216
     \<and> (case res of
          Inr bs \<Rightarrow> 8 + length bs \<le> 16777216
        | Inl e \<Rightarrow> (case encode_error e of Inr b \<Rightarrow> 8 + length b \<le> 16777216 | Inl _ \<Rightarrow> False))"

lemma answer_wf:
  assumes "fits encode_error body res" and "answer encode_error R rid res = [g]"
  shows "wf_frame g"
  using assms wf_frame_response
  by (auto simp: fits_def answer_def serialize_cases split: sum.splits)

lemma frames_feed_one:
  assumes "wf_frame f" and "concat ds = frame_encode f"
  shows "frames.feed [] ds = Inr ([f], [])"
proof -
  have "frames_of (frame_encode f @ []) = Inr ([f], [])"
    using frames_of_complete [of "[f]" "[]"] assms(1) by (simp add: next_frame_def HEADER_SIZE_def)
  then show ?thesis
    using assms(2) by (intro frames.feed_good) simp
qed

text \<open>The client's half: the answer's bytes, before the wait or during it, complete the call.\<close>

lemma answer_reaches_call:
  assumes "frames.feed [] (es1 @ es2) = Inr ([g], [])" and "verdict decode_error g = Some (rid, res)"
    and "recv_buf sh = []" and "hm_get (pending sh) rid = Some new_pending"
    and "meanwhile w = map Data es2" and "wait_from w < deadline" and "\<not> timed_out w"
  shows "fst (wait_loop decode_error rid ms deadline (w # ws)
      (shared_steps decode_error (map Data es1) sh)) = Returned res"
proof -
  obtain f1 b1 where one: "frames.feed [] es1 = Inr (f1, b1)"
    using assms(1) by (cases "frames.feed [] es1") (auto simp: feed_append)
  with assms(1) obtain f2 where two: "frames.feed b1 es2 = Inr (f2, [])" "f1 @ f2 = [g]"
    by (cases "frames.feed b1 es2") (auto simp: feed_append)
  note one_sh = data_steps [of sh es1 f1 b1 decode_error, unfolded assms(3), OF one]
  show ?thesis
  proof (cases "f1 = []")
    case True
    let ?sh1 = "sh\<lparr>recv_buf := b1\<rparr>"
    have f2: "f2 = [g]" and sh1: "shared_steps decode_error (map Data es1) sh = ?sh1"
      using True two(2) one_sh by simp_all
    have sh2: "shared_steps decode_error (meanwhile w) ?sh1 = (complete rid res ?sh1)\<lparr>recv_buf := []\<rparr>"
      using data_steps [of ?sh1 es2 f2 "[]" decode_error] two(1)
      by (simp add: assms(5) f2 client_handle_frame_verdict assms(2))
    have answered: "hm_get (pending ((complete rid res ?sh1)\<lparr>recv_buf := []\<rparr>)) rid
        = Some (new_pending\<lparr>completed := True, result := Some res\<rparr>)"
      using complete_pending [of ?sh1] assms(4) by simp
    have "wait_loop decode_error rid ms deadline (w # ws) ?sh1
        = wait_loop decode_error rid ms deadline ws (shared_steps decode_error (meanwhile w) ?sh1)"
      using assms(4,6,7) by (intro wait_loop_step [where req = new_pending]) (simp_all add: new_pending_def)
    then show ?thesis
      using wait_loop_completed [OF answered] by (simp only: sh1 sh2) simp
  next
    case False
    then have "f1 = [g]"
      using two(2) by (cases f1) auto
    then have "shared_steps decode_error (map Data es1) sh = (complete rid res sh)\<lparr>recv_buf := b1\<rparr>"
      using one_sh by (simp add: client_handle_frame_verdict assms(2))
    then have "hm_get (pending (shared_steps decode_error (map Data es1) sh)) rid
        = Some (new_pending\<lparr>completed := True, result := Some res\<rparr>)"
      using complete_pending [OF assms(4)] by simp
    then show ?thesis
      by (rule wait_loop_completed) simp_all
  qed
qed


definition sample_call :: rpc_client where
  "sample_call = \<lparr>tcp_client = \<lparr>cl_stream = Some sample_socket, cl_id = 1,
       cl_pool = object_pool_new 5 (Bytes []), cl_has_loop = True, cl_loop_alive = True,
       cl_poll = poll_handle_new, cl_user = \<lparr>pending = [], recv_buf = []\<rparr>\<rparr>,
     next_request_id = 1, call_timeout = 30000\<rparr>"

lemma length_small_frames:
  "length (frame_encode (frame_request rid sid mth body one_way)) = 21 + length body"
  "length (frame_encode (frame_response rid data)) = 17 + length data"
  by (simp_all add: frame_encode_def HEADER_SIZE_def frame_request_def frame_response_def Let_def
      le64.width_to_le le16.width_to_le)


theorem call_ends_clean_witness:
  "fst (call_raw sample_decoder [] 0 [\<lparr>wait_from = 0, meanwhile = [], timed_out = True\<rparr>] 0 0 [7] sample_call)
     \<noteq> Waiting"
proof -
  let ?ws = "[\<lparr>wait_from = 0, meanwhile = [], timed_out = True\<rparr>]"
  have "results_ok (shared sample_call)"
    by (simp add: sample_call_def results_ok_def)
  from call_ends_clean [OF this prod.collapse [symmetric], of sample_decoder "[]" 0 ?ws 0 0 "[7]"]
  show ?thesis
    by (simp add: last_wait_def)
qed

subsection \<open>What goes wrong\<close>

text \<open>A response that arrives during a wait that times out is thrown away: the call reports that
  its deadline passed, although its result is there.\<close>

theorem late_response_dropped:
  assumes "hm_get (pending sh) rid = Some new_pending" and "wait_from w < deadline" and "timed_out w"
    and "hm_get (pending (shared_steps decode_error (meanwhile w) sh)) rid
      = Some \<lparr>completed = True, result = Some res\<rparr>"
  shows "fst (wait_loop decode_error rid ms deadline (w # ws) sh) = Returned (Inl (timeout_error rid ms))"
  using assms by (simp add: new_pending_def Let_def)

theorem late_response_dropped_witness:
  "fst (wait_loop sample_decoder 1 30000 5 [\<lparr>wait_from = 0,
       meanwhile = [Data (frame_encode (frame_response 1 [7]))], timed_out = True\<rparr>]
     (add_pending 1 \<lparr>pending = [], recv_buf = []\<rparr>)) = Returned (Inl (timeout_error 1 30000))"
proof -
  let ?sh = "add_pending 1 \<lparr>pending = [], recv_buf = []\<rparr>"
  have new: "hm_get (pending ?sh) 1 = Some new_pending"
    by (simp add: add_pending_def hm_simps)
  have "frames.feed (recv_buf ?sh) [frame_encode (frame_response 1 [7])] = Inr ([frame_response 1 [7]], [])"
    using frames_feed_one [of "frame_response 1 [7]" "[frame_encode (frame_response 1 [7])]"]
      wf_frame_response(1) [of "[7]" 1]
    by (simp add: add_pending_def)
  from data_steps [OF this, of sample_decoder]
  have "shared_steps sample_decoder (map Data [frame_encode (frame_response 1 [7])]) ?sh
      = (complete 1 (Inr [7]) ?sh)\<lparr>recv_buf := []\<rparr>"
    by (simp only: fold_simps client_handle_frame_verdict verdict_response option.case prod.case)
  then have "hm_get (pending (shared_steps sample_decoder [Data (frame_encode (frame_response 1 [7]))] ?sh)) 1
      = Some \<lparr>completed = True, result = Some (Inr [7])\<rparr>"
    using complete_pending [OF new] by (simp add: new_pending_def)
  from late_response_dropped [OF new _ _, of "\<lparr>wait_from = 0,
      meanwhile = [Data (frame_encode (frame_response 1 [7]))], timed_out = True\<rparr>"] this
  show ?thesis by simp
qed

text \<open>A call on a client whose connection has ended sends nothing, is told that the send worked,
  and waits for its whole timeout.\<close>

theorem call_after_disconnect_waits:
  assumes "cl_stream (tcp_client c) = None"
  shows "fst (call_raw decode_error [] now [] sid mth body c) = Waiting
    \<and> cl_stream (tcp_client (snd (call_raw decode_error [] now [] sid mth body c))) = None"
  using assms
  by (simp add: call_raw_def client_send_def set_shared_def add_pending_def new_pending_def hm_simps Let_def)

theorem call_after_disconnect_waits_witness:
  "fst (call_raw sample_decoder [] 0 [] 0 0 [7]
     (sample_call\<lparr>tcp_client := (tcp_client sample_call)\<lparr>cl_stream := None\<rparr>\<rparr>)) = Waiting"
  by (rule call_after_disconnect_waits [THEN conjunct1]) simp

text \<open>Every RPC client registers under the same token: a second client on an event loop takes
  the place of the first, whose responses are then handed to the second.\<close>

theorem second_client_takes_token:
  assumes "rpc_connect decode_error None None k p = Inr c"
  shows "hm_get (registry (cl_poll (tcp_client c))) CLIENT_TOKEN
    = Some (handler_entry_new Client \<lparr>wants_readable = True, wants_writable = True\<rparr>)"
  using assms
  by (auto simp: rpc_connect_def client_connect_def client_start_def register_def as_outcome_def
      rpc_client_handler_def default_handler_def hm_simps Let_def)

theorem second_client_takes_token_witness:
  "hm_get (registry (cl_poll (tcp_client (case rpc_connect sample_decoder None None sample_socket
       \<lparr>registry = hm_insert CLIENT_TOKEN (handler_entry_new (Foreign 1)
          \<lparr>wants_readable = True, wants_writable = True\<rparr>) []\<rparr> of Inr c \<Rightarrow> c)))) CLIENT_TOKEN
     = Some (handler_entry_new Client \<lparr>wants_readable = True, wants_writable = True\<rparr>)"
proof -
  let ?p = "\<lparr>registry = hm_insert CLIENT_TOKEN (handler_entry_new (Foreign 1)
      \<lparr>wants_readable = True, wants_writable = True\<rparr>) []\<rparr>"
  obtain c where "rpc_connect sample_decoder None None sample_socket ?p = Inr c"
    by (simp add: rpc_connect_def client_connect_def client_start_def register_def as_outcome_def
        rpc_client_handler_def default_handler_def Let_def)
  from second_client_takes_token [OF this] this show ?thesis
    by simp
qed

end
