(* ===== verification/Rpc_Macro.thy ===== *)
theory Rpc_Macro
  imports Rpc_System
begin

section \<open>The service macro\<close>

text \<open>
  \<^verbatim>\<open>mill-rpc/mill-rpc-macros/src/lib.rs\<close>: the checks the macro makes of what it is
  given, the module it generates, and what the generated dispatcher and client do. The Rust
  syntax is parsed by syn: the input is its result, with types as text. The generated code is
  data, one record per item that the macro quotes; \<open>dispatch\<close> and \<open>stub_request\<close>,
  \<open>stub_response\<close> run it. Names are ASCII. bincode is an argument: \<open>enc\<close> of a struct, by its
  name and the values of its fields, and \<open>dec\<close> at a struct's name.
\<close>

subsection \<open>Names\<close>

definition is_upper :: "char \<Rightarrow> bool" where
  "is_upper ch \<longleftrightarrow> 65 \<le> (of_char ch :: nat) \<and> (of_char ch :: nat) \<le> 90"

definition is_lower :: "char \<Rightarrow> bool" where
  "is_lower ch \<longleftrightarrow> 97 \<le> (of_char ch :: nat) \<and> (of_char ch :: nat) \<le> 122"

definition lower :: "char \<Rightarrow> char" where
  "lower ch = (if is_upper ch then char_of ((of_char ch :: nat) + 32) else ch)"

definition upper :: "char \<Rightarrow> char" where
  "upper ch = (if is_lower ch then char_of ((of_char ch :: nat) - 32) else ch)"

definition to_uppercase :: "string \<Rightarrow> string" where
  "to_uppercase s = map upper s"

fun snake_from :: "nat \<Rightarrow> string \<Rightarrow> string" where
  "snake_from i [] = []"
| "snake_from i (ch # s) =
     (if is_upper ch then (if 0 < i then ''_'' else []) @ [lower ch] else [ch]) @ snake_from (i + 1) s"

definition to_snake_case :: "string \<Rightarrow> string" where
  "to_snake_case s = snake_from 0 s"

fun split_on :: "'a \<Rightarrow> 'a list \<Rightarrow> 'a list list" where
  "split_on x [] = [[]]"
| "split_on x (y # ys) =
     (if y = x then [] # split_on x ys
      else case split_on x ys of p # ps \<Rightarrow> (y # p) # ps | [] \<Rightarrow> [[y]])"

definition capitalize :: "string \<Rightarrow> string" where
  "capitalize part = (case part of [] \<Rightarrow> [] | c # chars \<Rightarrow> upper c # chars)"

definition to_pascal_case :: "string \<Rightarrow> string" where
  "to_pascal_case s = concat (map capitalize (split_on (CHR ''_'') s))"

subsection \<open>The input\<close>

datatype generate_mode = Both | Server_only | Client_only

type_synonym arg = "string \<times> string"

record method_def =
  md_name :: string
  md_args :: "arg list"
  md_return :: string

record service_def =
  sd_mode :: generate_mode
  sd_name :: string
  sd_methods :: "method_def list"

datatype fn_pat = Pat_ident string | Pat_other

datatype fn_arg = Typed fn_pat string | Receiver

record trait_fn =
  fn_name :: string
  fn_inputs :: "fn_arg list"
  fn_output :: "string option"

record service_input =
  in_attribute :: "string option"
  in_keyword :: string
  in_name :: string
  in_methods :: "trait_fn list"

fun parse_args :: "fn_arg list \<Rightarrow> string + arg list" where
  "parse_args [] = Inr []"
| "parse_args (Typed (Pat_ident n) ty # rest) = map_sum id (\<lambda>args. (n, ty) # args) (parse_args rest)"
| "parse_args (Typed Pat_other ty # rest) = Inl ''Expected a simple identifier for argument name''"
| "parse_args (Receiver # rest) = Inl ''Service methods should not have `self` parameter''"

fun parse_methods :: "trait_fn list \<Rightarrow> string + method_def list" where
  "parse_methods [] = Inr []"
| "parse_methods (f # fs) = (case parse_args (fn_inputs f) of
      Inl e \<Rightarrow> Inl e
    | Inr args \<Rightarrow>
        map_sum id (\<lambda>ms. \<lparr>md_name = fn_name f, md_args = args,
            md_return = (case fn_output f of None \<Rightarrow> ''()'' | Some ty \<Rightarrow> ty)\<rparr> # ms)
          (parse_methods fs))"

definition parse_mode :: "string option \<Rightarrow> string + generate_mode" where
  "parse_mode attr = (case attr of
      None \<Rightarrow> Inr Both
    | Some a \<Rightarrow>
        if a = ''server'' then Inr Server_only
        else if a = ''client'' then Inr Client_only
        else Inl (''Unknown attribute `'' @ a @ ''`, expected `server` or `client`''))"

definition parse_service :: "service_input \<Rightarrow> string + service_def" where
  "parse_service inp = (case parse_mode (in_attribute inp) of
      Inl e \<Rightarrow> Inl e
    | Inr mode \<Rightarrow>
        if in_keyword inp \<noteq> ''service'' then Inl ''Expected `service`''
        else map_sum id (\<lambda>ms. \<lparr>sd_mode = mode, sd_name = in_name inp, sd_methods = ms\<rparr>)
          (parse_methods (in_methods inp)))"

subsection \<open>The generated module\<close>

datatype struct_body = Unit_struct | Fields "arg list" | Tuple string

record struct_def =
  st_name :: string
  st_body :: struct_body

record trait_method =
  tm_name :: string
  tm_params :: "arg list"
  tm_return :: string

record dispatch_arm =
  arm_const :: string
  arm_request :: string
  arm_method :: string
  arm_fields :: "string list"
  arm_response :: string

record client_method =
  cm_name :: string
  cm_params :: "arg list"
  cm_return :: string
  cm_request :: string
  cm_fields :: "string list"
  cm_const :: string
  cm_response :: string

record service_module =
  mod_ident :: string
  SERVICE_NAME :: string
  METHOD_COUNT :: u16
  module_consts :: "(string \<times> u16) list"
  module_types :: "struct_def list"
  module_server :: "(trait_method list \<times> dispatch_arm list) option"
  module_client :: "client_method list option"

definition const_name :: "method_def \<Rightarrow> string" where
  "const_name m = to_uppercase (md_name m)"

definition req_name :: "method_def \<Rightarrow> string" where
  "req_name m = to_pascal_case (md_name m) @ ''Request''"

definition resp_name :: "method_def \<Rightarrow> string" where
  "resp_name m = to_pascal_case (md_name m) @ ''Response''"

definition method_consts :: "method_def list \<Rightarrow> (string \<times> u16) list" where
  "method_consts ms = map (\<lambda>(idx, m). (const_name m, of_nat idx)) (enumerate 0 ms)"

definition type_defs :: "method_def list \<Rightarrow> struct_def list" where
  "type_defs ms = concat (map (\<lambda>m.
     [\<lparr>st_name = req_name m, st_body = (if md_args m = [] then Unit_struct else Fields (md_args m))\<rparr>,
      \<lparr>st_name = resp_name m, st_body = Tuple (md_return m)\<rparr>]) ms)"

definition trait_methods :: "method_def list \<Rightarrow> trait_method list" where
  "trait_methods ms = map (\<lambda>m. \<lparr>tm_name = md_name m,
     tm_params = (''ctx'', ''RpcContext'') # md_args m, tm_return = md_return m\<rparr>) ms"

definition dispatch_arms :: "method_def list \<Rightarrow> dispatch_arm list" where
  "dispatch_arms ms = map (\<lambda>m. \<lparr>arm_const = const_name m, arm_request = req_name m,
     arm_method = md_name m, arm_fields = map fst (md_args m),
     arm_response = resp_name m\<rparr>) ms"

definition client_methods :: "method_def list \<Rightarrow> client_method list" where
  "client_methods ms = map (\<lambda>m. \<lparr>cm_name = md_name m, cm_params = md_args m,
     cm_return = md_return m, cm_request = req_name m,
     cm_fields = map fst (md_args m),
     cm_const = const_name m, cm_response = resp_name m\<rparr>) ms"

definition generate_service_module :: "service_def \<Rightarrow> service_module" where
  "generate_service_module d =
     (let ms = sd_methods d;
          gen_server = (sd_mode d \<noteq> Client_only);
          gen_client = (sd_mode d \<noteq> Server_only)
      in \<lparr>mod_ident = to_snake_case (sd_name d), SERVICE_NAME = sd_name d,
          METHOD_COUNT = of_nat (length ms), module_consts = method_consts ms,
          module_types = type_defs ms,
          module_server = (if gen_server then Some (trait_methods ms, dispatch_arms ms) else None),
          module_client = (if gen_client then Some (client_methods ms) else None)\<rparr>)"

definition service_macro :: "service_input \<Rightarrow> string + service_module" where
  "service_macro inp = map_sum id generate_service_module (parse_service inp)"

subsection \<open>What the compiler accepts\<close>

text \<open>Rust refuses two constants, two types or two methods of one name, and two parameters of a
  function of one name; \<open>new\<close> is a function of the generated client already.\<close>

definition compiles :: "service_module \<Rightarrow> bool" where
  "compiles m \<longleftrightarrow> distinct (map fst (module_consts m)) \<and> distinct (map st_name (module_types m))
     \<and> (case module_server m of None \<Rightarrow> True | Some (tms, arms) \<Rightarrow>
          distinct (map tm_name tms) \<and> list_all (\<lambda>t. distinct (map fst (tm_params t))) tms)
     \<and> (case module_client m of None \<Rightarrow> True | Some cms \<Rightarrow>
          distinct (''new'' # map cm_name cms) \<and> list_all (\<lambda>c. distinct (map fst (cm_params c))) cms)"

subsection \<open>Running the generated code\<close>

type_synonym 'v struct_encoder = "string \<times> 'v list \<Rightarrow> string + bytes"
type_synonym 'v struct_decoder = "string \<Rightarrow> bytes \<Rightarrow> string + 'v list"

text \<open>An implementation of the \<open>Service\<close> trait, by the name of the method.\<close>

type_synonym ('v, 'w) service_impl = "string \<Rightarrow> socket_addr rpc_context \<Rightarrow> 'v list \<Rightarrow> 'w \<Rightarrow> 'v \<times> 'w"

definition struct_fields :: "service_module \<Rightarrow> string \<Rightarrow> string list" where
  "struct_fields m n = (case find (\<lambda>st. st_name st = n) (module_types m) of
      Some st \<Rightarrow>
        (case st_body st of Unit_struct \<Rightarrow> [] | Fields fs \<Rightarrow> map fst fs | Tuple ty \<Rightarrow> [''0''])
    | None \<Rightarrow> [])"

definition field_values :: "string list \<Rightarrow> 'v list \<Rightarrow> string list \<Rightarrow> 'v list" where
  "field_values names vals wanted = map (\<lambda>n. the (map_of (zip names vals) n)) wanted"

definition dispatch :: "'v struct_encoder \<Rightarrow> 'v struct_decoder \<Rightarrow> service_module
    \<Rightarrow> ('v, 'w) service_impl \<Rightarrow> 'w dispatcher" where
  "dispatch enc dec m svc ctx method args cd w =
     (case module_server m of
        None \<Rightarrow> (Inl (method_not_found method), w)
      | Some (tms, arms) \<Rightarrow>
          (case find (\<lambda>arm. map_of (module_consts m) (arm_const arm) = Some method) arms of
             None \<Rightarrow> (Inl (method_not_found method), w)
           | Some arm \<Rightarrow>
               (case deserialize (dec (arm_request arm)) cd args of
                  Inl e \<Rightarrow> (Inl e, w)
                | Inr vals \<Rightarrow>
                    let req = field_values (struct_fields m (arm_request arm)) vals (arm_fields arm);
                        (res, w) = svc (arm_method arm) ctx req w
                    in (serialize enc cd (arm_response arm, [res]), w))))"

text \<open>A method of the generated client: what it hands to the transport, the id of the method and
  the payload, and what it makes of the transport's answer.\<close>

definition stub_request :: "'v struct_encoder \<Rightarrow> service_module \<Rightarrow> codec \<Rightarrow> client_method \<Rightarrow> 'v list
    \<Rightarrow> rpc_error + (u16 \<times> bytes)" where
  "stub_request enc m cd cm vals =
     (let req = (cm_request cm, field_values (map fst (cm_params cm)) vals (cm_fields cm)) in
      case serialize enc cd req of
        Inl e \<Rightarrow> Inl e
      | Inr bs \<Rightarrow> Inr (the (map_of (module_consts m) (cm_const cm)), bs))"

definition stub_response :: "'v struct_decoder \<Rightarrow> codec \<Rightarrow> client_method \<Rightarrow> rpc_error + bytes
    \<Rightarrow> rpc_error + 'v" where
  "stub_response dec cd cm resp = (case resp of
      Inl e \<Rightarrow> Inl e
    | Inr bs \<Rightarrow>
        (case deserialize (dec (cm_response cm)) cd bs of
           Inl e \<Rightarrow> Inl e
         | Inr vals \<Rightarrow> Inr (hd vals)))"

text \<open>The method whole, with the RPC client as its transport: \<open>sid\<close> is the id the client was
  made with, \<open>early\<close>, \<open>now\<close> and \<open>ws\<close> are those of the transport's call.\<close>

datatype 'v stub_end = Stub_returned "rpc_error + 'v" | Stub_panic | Stub_waiting

definition stub_call :: "'v struct_encoder \<Rightarrow> 'v struct_decoder \<Rightarrow> service_module \<Rightarrow> codec \<Rightarrow> u16
    \<Rightarrow> error_decoder \<Rightarrow> shared_op list \<Rightarrow> instant \<Rightarrow> wait list \<Rightarrow> client_method \<Rightarrow> 'v list \<Rightarrow> rpc_client
    \<Rightarrow> 'v stub_end \<times> rpc_client" where
  "stub_call enc dec m cd sid decode_error early now ws cm vals c =
     (case stub_request enc m cd cm vals of
        Inl e \<Rightarrow> (Stub_returned (Inl e), c)
      | Inr (mth, bs) \<Rightarrow>
          let (r, c) = call_raw decode_error early now ws sid mth bs c
          in (case r of
                Returned resp \<Rightarrow> Stub_returned (stub_response dec cd cm resp)
              | Unwrap_panic \<Rightarrow> Stub_panic
              | Waiting \<Rightarrow> Stub_waiting, c))"

subsection \<open>Stubs and dispatcher\<close>

lemma find_by_key:
  assumes "distinct (map f xs)" and "x \<in> set xs"
  shows "find (\<lambda>y. f y = f x) xs = Some x"
  using assms by (induction xs) auto

lemma field_values_all:
  assumes "distinct names" and "length vals = length names"
  shows "field_values names vals names = vals"
proof (rule nth_equalityI)
  fix i assume "i < length (field_values names vals names)"
  then have i: "i < length names"
    by (simp add: field_values_def)
  then have "map_of (zip names vals) (names ! i) = Some (vals ! i)"
    using assms by (simp add: map_of_zip_nth)
  with i show "field_values names vals names ! i = vals ! i"
    by (simp add: field_values_def)
qed (simp add: field_values_def assms)

lemma length_method_consts [simp]: "length (method_consts ms) = length ms"
  by (simp add: method_consts_def)

lemma nth_method_consts: "i < length ms \<Longrightarrow> method_consts ms ! i = (const_name (ms ! i), of_nat i)"
  by (simp add: method_consts_def nth_enumerate_eq)

lemma const_value:
  assumes "distinct (map fst (method_consts ms))" and "i < length ms"
  shows "map_of (method_consts ms) (const_name (ms ! i)) = Some (of_nat i)"
proof -
  have "(const_name (ms ! i), of_nat i) \<in> set (method_consts ms)"
    using assms(2) nth_method_consts [of i ms] nth_mem [of i "method_consts ms"] by simp
  then show ?thesis
    using assms(1) by simp
qed

lemma of_nat_u16_eq: "i < 65536 \<Longrightarrow> j < 65536 \<Longrightarrow> (of_nat i :: u16) = of_nat j \<longleftrightarrow> i = j"
  by (simp add: word_unat_eq_iff unat_of_nat take_bit_nat_eq_self)

lemma find_index:
  assumes "i < length xs" and "\<And>j. j < length xs \<Longrightarrow> P (xs ! j) \<longleftrightarrow> j = i"
  shows "find P xs = Some (xs ! i)"
  using assms by (auto simp: find_Some_iff)

lemma arm_found:
  assumes "distinct (map fst (method_consts ms))" and "length ms \<le> 65536" and "i < length ms"
  shows "find (\<lambda>arm. map_of (method_consts ms) (arm_const arm) = Some (of_nat i)) (dispatch_arms ms)
    = Some (dispatch_arms ms ! i)"
proof (rule find_index)
  show "i < length (dispatch_arms ms)"
    using assms(3) by (simp add: dispatch_arms_def)
next
  fix j assume "j < length (dispatch_arms ms)"
  then have "j < length ms"
    by (simp add: dispatch_arms_def)
  then show "map_of (method_consts ms) (arm_const (dispatch_arms ms ! j)) = Some (of_nat i) \<longleftrightarrow> j = i"
    using const_value [OF assms(1), of j] assms(2,3)
    by (simp add: dispatch_arms_def of_nat_u16_eq)
qed

lemma request_fields:
  assumes "distinct (map st_name (type_defs ms))" and "i < length ms"
    and "module_types m = type_defs ms"
  shows "struct_fields m (req_name (ms ! i)) = map fst (md_args (ms ! i))"
proof -
  let ?st = "\<lparr>st_name = req_name (ms ! i),
     st_body = (if md_args (ms ! i) = [] then Unit_struct else Fields (md_args (ms ! i)))\<rparr>"
  have "?st \<in> set (type_defs ms)"
    using nth_mem [OF assms(2)] unfolding type_defs_def by force
  from find_by_key [OF assms(1) this] show ?thesis
    by (simp add: struct_fields_def assms(3))
qed

definition generates :: "generate_mode list \<Rightarrow> service_def \<Rightarrow> service_module \<Rightarrow> bool" where
  "generates modes d m \<longleftrightarrow> sd_mode d \<in> set modes \<and> m = generate_service_module d \<and> compiles m"

definition lossless :: "'v struct_encoder \<Rightarrow> 'v struct_decoder \<Rightarrow> bool" where
  "lossless enc dec \<longleftrightarrow> (\<forall>n vals b. enc (n, vals) = Inr b \<longrightarrow> dec n b = Inr vals)"

lemma deserialize_lossless:
  "lossless enc dec \<Longrightarrow> enc (n, vals) = Inr b \<Longrightarrow> deserialize (dec n) cd b = Inr vals"
  by (cases "codec_type cd") (simp add: lossless_def deserialize_def)

lemma serialize_Inr: "serialize enc cd x = Inr b \<longleftrightarrow> enc x = Inr b"
  by (cases "codec_type cd") (simp add: serialize_def split: sum.splits)

text \<open>What the dispatcher makes of a request of method \<open>i\<close>.\<close>

lemma dispatch_method:
  assumes "generates [Both, Server_only] d m" and "length (sd_methods d) \<le> 65536"
    and "i < length (sd_methods d)" and "lossless enc dec"
    and "length vals = length (md_args (sd_methods d ! i))"
    and "enc (req_name (sd_methods d ! i), vals) = Inr args"
    and "svc (md_name (sd_methods d ! i)) ctx vals w = (res, w')"
  shows "dispatch enc dec m svc ctx (of_nat i) args cd w
    = (serialize enc cd (resp_name (sd_methods d ! i), [res]), w')"
proof -
  let ?ms = "sd_methods d"
  have m: "module_consts m = method_consts ?ms" "module_types m = type_defs ?ms"
      "module_server m = Some (trait_methods ?ms, dispatch_arms ?ms)" "compiles m"
    using assms(1) by (auto simp: generates_def generate_service_module_def Let_def)
  then have names: "distinct (map fst (method_consts ?ms))" "distinct (map st_name (type_defs ?ms))"
      "list_all (\<lambda>t. distinct (map fst (tm_params t))) (trait_methods ?ms)"
    by (simp_all add: compiles_def)
  have "\<lparr>tm_name = md_name (?ms ! i), tm_params = (''ctx'', ''RpcContext'') # md_args (?ms ! i),
      tm_return = md_return (?ms ! i)\<rparr> \<in> set (trait_methods ?ms)"
    using nth_mem [OF assms(3)] by (auto simp: trait_methods_def)
  with names(3) have args: "distinct (map fst (md_args (?ms ! i)))"
    by (fastforce simp: list_all_iff)
  have arm: "dispatch_arms ?ms ! i = \<lparr>arm_const = const_name (?ms ! i), arm_request = req_name (?ms ! i),
      arm_method = md_name (?ms ! i), arm_fields = map fst (md_args (?ms ! i)),
      arm_response = resp_name (?ms ! i)\<rparr>"
    using assms(3) by (simp add: dispatch_arms_def)
  have "field_values (struct_fields m (req_name (?ms ! i))) vals (map fst (md_args (?ms ! i))) = vals"
    using request_fields [OF names(2) assms(3) m(2)] args assms(5) by (simp add: field_values_all)
  then show ?thesis
    using arm_found [OF names(1) assms(2,3)] deserialize_lossless [OF assms(4,6)] assms(7)
    by (simp add: dispatch_def m arm)
qed

text \<open>What the stub of method \<open>i\<close> sends.\<close>

lemma stub_method:
  assumes "generates [Both, Client_only] d m" and "i < length (sd_methods d)"
    and "module_client m = Some cms"
  defines "mt \<equiv> sd_methods d ! i"
  shows "cms ! i = \<lparr>cm_name = md_name mt, cm_params = md_args mt, cm_return = md_return mt,
      cm_request = req_name mt, cm_fields = map fst (md_args mt), cm_const = const_name mt,
      cm_response = resp_name mt\<rparr>"
    and "length vals = length (md_args mt) \<Longrightarrow> stub_request enc m cd (cms ! i) vals
      = map_sum id (Pair (of_nat i)) (serialize enc cd (req_name mt, vals))"
proof -
  let ?ms = "sd_methods d"
  have m: "module_consts m = method_consts ?ms" "cms = client_methods ?ms" "compiles m"
    using assms(1,3) by (auto simp: generates_def generate_service_module_def Let_def)
  then have names: "distinct (map fst (method_consts ?ms))"
      "list_all (\<lambda>c. distinct (map fst (cm_params c))) (client_methods ?ms)"
    using assms(3) by (simp_all add: compiles_def)
  show cm: "cms ! i = \<lparr>cm_name = md_name mt, cm_params = md_args mt, cm_return = md_return mt,
      cm_request = req_name mt, cm_fields = map fst (md_args mt), cm_const = const_name mt,
      cm_response = resp_name mt\<rparr>"
    using assms(2) by (simp add: m(2) mt_def client_methods_def)
  have "distinct (map fst (md_args mt))"
    using names(2) nth_mem [OF assms(2)] by (auto simp: mt_def client_methods_def list_all_iff)
  moreover assume "length vals = length (md_args mt)"
  ultimately have "field_values (map fst (md_args mt)) vals (map fst (md_args mt)) = vals"
    by (simp add: field_values_all)
  then show "stub_request enc m cd (cms ! i) vals
      = map_sum id (Pair (of_nat i)) (serialize enc cd (req_name mt, vals))"
    using const_value [OF names(1) assms(2)]
    by (simp add: stub_request_def cm m(1) mt_def split: sum.splits)
qed

text \<open>C33: client and server generated from the same methods, together or each on its own side,
  agree: what the stub of a method sends names that method, is decoded as the type it was
  encoded from, calls that method of the implementation with the stub's arguments, and what
  comes back is decoded as the method's own response, so the stub returns what the method
  returned; only a response that cannot be serialised is an error.\<close>

theorem stub_meets_dispatcher:
  assumes "generates [Both, Server_only] d m" and "generates [Both, Client_only] d' m'"
    and "sd_methods d' = sd_methods d" and "length (sd_methods d) \<le> 65536"
    and "i < length (sd_methods d)" and "lossless enc dec"
    and "module_client m' = Some cms" and "length vals = length (cm_params (cms ! i))"
    and "stub_request enc m' cd (cms ! i) vals = Inr (mth, args)"
    and "svc (cm_name (cms ! i)) ctx vals w = (res, w')"
  shows "mth = of_nat i \<and> snd (dispatch enc dec m svc ctx mth args cd w) = w'
    \<and> stub_response dec cd (cms ! i) (fst (dispatch enc dec m svc ctx mth args cd w))
      = (case enc (cm_response (cms ! i), [res]) of
           Inr _ \<Rightarrow> Inr res | Inl e \<Rightarrow> Inl (codec_error (''serialize: '' @ e)))"
proof -
  let ?mt = "sd_methods d ! i"
  note stub = stub_method [OF assms(2) _ assms(7), of i, unfolded assms(3), OF assms(5)]
  have sent: "mth = of_nat i" "enc (req_name ?mt, vals) = Inr args"
    using assms(8,9) stub(2) [of vals enc cd]
    by (auto simp: stub(1) serialize_Inr split: sum.splits)
      (cases "serialize enc cd (req_name ?mt, vals)"; simp add: serialize_Inr)+
  have "dispatch enc dec m svc ctx (of_nat i) args cd w
      = (serialize enc cd (resp_name ?mt, [res]), w')"
    using assms(8,10) stub(1) by (intro dispatch_method [OF assms(1,4,5,6) _ sent(2)]) simp_all
  then show ?thesis
    using sent(1) deserialize_lossless [OF assms(6)]
    by (auto simp: stub(1) stub_response_def serialize_cases split: sum.splits)
qed

definition byte_encoder :: "u8 struct_encoder" where
  "byte_encoder x = Inr (snd x)"

definition byte_decoder :: "u8 struct_decoder" where
  "byte_decoder n bs = Inr bs"

definition calculator :: service_def where
  "calculator = \<lparr>sd_mode = Both, sd_name = ''Calculator'', sd_methods =
     [\<lparr>md_name = ''add'', md_args = [(''a'', ''u8''), (''b'', ''u8'')], md_return = ''u8''\<rparr>,
      \<lparr>md_name = ''sub_one'', md_args = [(''a'', ''u8'')], md_return = ''u8''\<rparr>]\<rparr>"

definition calculator_impl :: "(u8, nat) service_impl" where
  "calculator_impl n ctx vals w =
     (if n = ''add'' then vals ! 0 + vals ! 1 else vals ! 0 - 1, w + 1)"

lemma sample_names:
  "to_uppercase ''add'' = ''ADD''" "to_uppercase ''sub_one'' = ''SUB_ONE''"
  "to_pascal_case ''add'' = ''Add''" "to_pascal_case ''sub_one'' = ''SubOne''"
  by (simp_all add: to_uppercase_def to_pascal_case_def capitalize_def upper_def is_lower_def char_of_eq_iff)

lemmas module_defs = generate_service_module_def method_consts_def type_defs_def trait_methods_def
  dispatch_arms_def client_methods_def const_name_def req_name_def resp_name_def

lemma calculator_compiles: "compiles (generate_service_module calculator)"
  by (simp add: compiles_def module_defs calculator_def sample_names Let_def)

lemma calculator_generated:
  "generates [Both, Server_only] calculator (generate_service_module calculator)"
  "generates [Both, Client_only] calculator (generate_service_module calculator)"
  "module_client (generate_service_module calculator) = Some (client_methods (sd_methods calculator))"
  by (simp_all add: generates_def calculator_compiles)
    (simp_all add: generate_service_module_def calculator_def Let_def)

abbreviation add_stub :: client_method where
  "add_stub \<equiv> client_methods (sd_methods calculator) ! 0"

lemma calculator_sizes:
  "length (sd_methods calculator) \<le> 65536" "0 < length (sd_methods calculator)"
  "length [40, 2 :: u8] = length (cm_params add_stub)"
  by (simp_all add: calculator_def client_methods_def)

lemma byte_lossless: "lossless byte_encoder byte_decoder"
  by (simp add: lossless_def byte_encoder_def byte_decoder_def)

lemma add_runs: "calculator_impl (cm_name add_stub) ctx [40, 2] 0 = (42, 1)"
  by (simp add: calculator_impl_def client_methods_def calculator_def)

lemma add_request:
  "stub_request byte_encoder (generate_service_module calculator) cd add_stub [40, 2] = Inr (0, [40, 2])"
proof -
  have "length [40, 2 :: u8] = length (md_args (sd_methods calculator ! 0))"
    by (simp add: calculator_def)
  from stub_method(2) [OF calculator_generated(2) calculator_sizes(2) calculator_generated(3) this]
  show ?thesis
    by (simp add: serialize_cases byte_encoder_def)
qed

theorem stub_meets_dispatcher_witness:
  "stub_response byte_decoder codec_bincode add_stub
     (fst (dispatch byte_encoder byte_decoder (generate_service_module calculator) calculator_impl
        (rpc_context_new 1 0 0) 0 [40, 2] codec_bincode 0)) = Inr 42"
  using stub_meets_dispatcher [where svc = calculator_impl and vals = "[40, 2]" and i = 0,
      OF calculator_generated(1,2) refl calculator_sizes(1,2) byte_lossless
        calculator_generated(3) calculator_sizes(3) add_request add_runs]
  by (simp add: byte_encoder_def)

subsection \<open>Names of modules\<close>

lemma lower_upper:
  assumes up: "is_upper ch"
  shows "upper (lower ch) = ch \<and> lower ch \<noteq> CHR ''_''"
proof -
  let ?n = "of_char ch :: nat"
  have n: "65 \<le> ?n" "?n \<le> 90"
    using up by (simp_all add: is_upper_def)
  then have low: "of_char (lower ch) = ?n + 32"
    using up by (simp add: lower_def of_char_of)
  moreover have "of_char (CHR ''_'') = (95 :: nat)"
    by simp
  ultimately show ?thesis
    using n by (auto simp: upper_def is_lower_def)
qed

lemma capitalize_Cons [simp]: "capitalize (c # cs) = upper c # cs"
  by (simp add: capitalize_def)

lemma split_on_nonempty: "split_on x ys \<noteq> []"
  by (induction ys) (auto split: list.splits)

lemma snake_tail:
  "CHR ''_'' \<notin> set s \<Longrightarrow> hd (split_on (CHR ''_'') (snake_from (Suc i) s))
     @ concat (map capitalize (tl (split_on (CHR ''_'') (snake_from (Suc i) s)))) = s"
proof (induction s arbitrary: i)
  case Nil
  then show ?case by simp
next
  case (Cons ch s)
  obtain p ps where sp: "split_on (CHR ''_'') (snake_from (Suc (Suc i)) s) = p # ps"
    by (metis split_on_nonempty list.exhaust)
  with Cons.IH [of "Suc i"] Cons.prems have s: "p @ concat (map capitalize ps) = s"
    by simp
  show ?case
  proof (cases "is_upper ch")
    case True
    then show ?thesis
      using lower_upper [OF True] sp s by (simp add: capitalize_Cons)
  next
    case False
    then show ?thesis
      using Cons.prems sp s by auto
  qed
qed

text \<open>A service's module name determines its name: for a name that starts with a capital and has
  no underscore, the Pascal case of the snake case is the name again, so two services never
  share a module.\<close>

theorem snake_case_inverse:
  assumes "is_upper ch" and "CHR ''_'' \<notin> set (ch # s)"
  shows "to_pascal_case (to_snake_case (ch # s)) = ch # s"
proof -
  obtain p ps where sp: "split_on (CHR ''_'') (snake_from (Suc 0) s) = p # ps"
    by (metis split_on_nonempty list.exhaust)
  with snake_tail [of s 0] assms(2) have "p @ concat (map capitalize ps) = s"
    by simp
  with assms(1) lower_upper [OF assms(1)] sp show ?thesis
    by (simp add: to_snake_case_def to_pascal_case_def capitalize_def)
qed

theorem snake_case_inverse_witness:
  "to_pascal_case (to_snake_case ''KvStore'') = ''KvStore''"
  by (rule snake_case_inverse) (simp_all add: is_upper_def)

end
