(* ===== verification/Rpc_Stack.thy ===== *)
theory Rpc_Stack
  imports Rpc_Macro Tcp_Props
begin

section \<open>The RPC server under the event loop\<close>

text \<open>
  The RPC server is one of the handlers of \<open>Tcp_Stream\<close>: what it answers to a chunk is
  \<open>rpc_answer\<close>. The first section is its refinement under sockets, registry, poll and buffers;
  the second follows the frames of one connection through a run; the last puts the generated stub
  and dispatcher on both ends.
\<close>

subsection \<open>Refinement\<close>

text \<open>C31: the RPC server under the event loop implements the machine without sockets, registry and
  buffers. Whatever bytes arrive at its connections in whatever order and pieces, and however the
  poller reports them, each connection is sent exactly what the machine sends, the application and
  the incomplete frames are the machine's and the same bytes stay unread, as long as the send
  buffers take the answers.\<close>

theorem rpc_over_tcp:
  assumes "working C cap s" and "\<forall>op \<in> set ops. about op \<in> C"
    and "\<forall>c \<in> C. length (sent (stream_run (rpc_answer encode_error R) ops (stream_of s)) c) \<le> cap c"
    and "s' = net_run cfg (rpc_handler encode_error R) ops s"
    and "a = stream_run (rpc_answer encode_error R) ops (stream_of s)"
  shows "outgoing (sockets s' c) = sent a c \<and> user s' = owned a \<and> incoming (sockets s' c) = queued a c"
proof -
  have "stream_of s' = a"
    using rpc_answers.run_refines [OF assms(1-3)] assms(4,5) by simp
  then show ?thesis
    by (auto simp: stream_of_def)
qed

subsection \<open>The frames of a connection\<close>

lemma frames_of_rest: "frames_of bs = Inr (fs, r) \<Longrightarrow> frames_of r = Inr ([], r)"
  by (simp add: frames_of_iff)

lemma frames_of_split:
  assumes "frames_of (b @ q @ rest) = Inr (fs, r)"
  obtains f1 r1 f2 where "frames_of (b @ take n q) = Inr (f1, r1)"
    and "frames_of (r1 @ drop n q @ rest) = Inr (f2, r)" and "fs = f1 @ f2"
proof -
  have "frames_of ((b @ take n q) @ drop n q @ rest) = Inr (fs, r)"
    using assms by (simp add: append_assoc [symmetric] del: append_assoc) simp
  then show ?thesis
    unfolding frames_of_append [of "b @ take n q"]
    by (cases "frames_of (b @ take n q)"; cases "frames_of (snd (projr (frames_of (b @ take n q))) @ drop n q @ rest)")
      (auto intro: that)
qed

definition kept :: "connection_id \<Rightarrow> 'w rpc_conns \<Rightarrow> bytes" where
  "kept c u = unwrap_or (hm_get (conn_buffers u) (as_u64 c)) []"

lemma kept_insert [simp]:
  "kept c (u\<lparr>conn_buffers := hm_insert (as_u64 c) r m, app := w\<rparr>) = r"
  by (simp add: kept_def hm_simps unwrap_or_def)

lemma rpc_answer_good:
  "frames_of (kept c u @ d) = Inr (fs, r) \<Longrightarrow> serve encode_error R fs (app u) = (gs, w) \<Longrightarrow>
     rpc_answer encode_error R c d u
       = (wire gs, u\<lparr>conn_buffers := hm_insert (as_u64 c) r (conn_buffers u), app := w\<rparr>)"
  by (simp add: rpc_answer_def kept_def)

text \<open>When all that arrived for a connection has been read, its frames have been served as one list.\<close>

lemma rpc_stream:
  assumes "\<forall>op \<in> set ops. about op = c" and "frames_of (kept c (owned a)) = Inr ([], kept c (owned a))"
    and "frames_of (kept c (owned a) @ queued a c @ arrived ops) = Inr (fs, r)"
    and "queued (stream_run (rpc_answer encode_error R) ops a) c = []"
    and "serve encode_error R fs (app (owned a)) = (gs, w)"
  shows "sent (stream_run (rpc_answer encode_error R) ops a) c = sent a c @ wire gs
    \<and> app (owned (stream_run (rpc_answer encode_error R) ops a)) = w
    \<and> kept c (owned (stream_run (rpc_answer encode_error R) ops a)) = r"
  using assms
proof (induction ops arbitrary: a fs gs)
  case Nil
  then show ?case
    by (auto simp: stream_run_def)
next
  case (Cons op ops)
  let ?f = "rpc_answer encode_error R"
  show ?case
  proof (cases op)
    case (Arrives d bs)
    with Cons.prems Cons.IH [of "stream_step ?f op a" fs gs] show ?thesis
      by (simp add: stream_run_def)
  next
    case (Polled d readable writable)
    show ?thesis
    proof (cases "readable \<and> queued a c \<noteq> []")
      case False
      with Polled Cons.prems Cons.IH [of a fs gs] show ?thesis
        by (auto simp: stream_run_def)
    next
      case True
      let ?q = "queued a c"
      obtain f1 r1 f2 where one: "frames_of (kept c (owned a) @ take IO_BUFFER_SIZE ?q) = Inr (f1, r1)"
        and two: "frames_of (r1 @ drop IO_BUFFER_SIZE ?q @ arrived ops) = Inr (f2, r)" "fs = f1 @ f2"
        using Cons.prems(3) Polled
        by (auto intro: frames_of_split [of "kept c (owned a)" ?q "arrived ops" fs r IO_BUFFER_SIZE])
      obtain g1 w1 g2 where serve: "serve encode_error R f1 (app (owned a)) = (g1, w1)"
          "serve encode_error R f2 w1 = (g2, w)" "gs = g1 @ g2"
        using Cons.prems(5) two(2) by (auto simp: serve_append split: prod.splits)
      let ?u = "(owned a)\<lparr>conn_buffers := hm_insert (as_u64 c) r1 (conn_buffers (owned a)), app := w1\<rparr>"
      let ?a = "a\<lparr>queued := (queued a)(c := drop IO_BUFFER_SIZE ?q), sent := (sent a)(c := sent a c @ wire g1),
        owned := ?u\<rparr>"
      have step: "stream_step ?f op a = ?a"
        using Polled True Cons.prems(1) rpc_answer_good [OF one serve(1)] by (simp add: stream_read_def)
      with Cons.prems(1,4) two(1) serve(2) frames_of_rest [OF one] Cons.IH [of ?a f2 g2] serve(3) show ?thesis
        by (simp add: stream_run_def)
    qed
  qed
qed

text \<open>A request that comes in two pieces.\<close>

definition stack_state0 :: "nat rpc_state" where
  "stack_state0 = rpc_state0\<lparr>poll := \<lparr>registry = hm_insert 1 \<lparr>handler = Connection 1,
     entry_interest = \<lparr>wants_readable = True, wants_writable = True\<rparr>\<rparr> []\<rparr>\<rparr>"

definition two_pieces :: "bytes \<Rightarrow> net_op list" where
  "two_pieces bs = [Arrives 1 (take 4 bs), Polled 1 True False, Arrives 1 (drop 4 bs), Polled 1 True True]"

lemma two_pieces_ops: "arrived (two_pieces bs) = bs" "\<forall>op \<in> set (two_pieces bs). about op = 1"
  by (simp_all add: two_pieces_def)

lemma two_pieces_read:
  "queued a 1 = [] \<Longrightarrow> length bs \<le> 8192 \<Longrightarrow> queued (stream_run f (two_pieces bs) a) 1 = []"
  by (simp add: stream_run_def two_pieces_def stream_read_def IO_BUFFER_SIZE_def Let_def case_prod_unfold)

lemma stack_state0_working: "working {1} (\<lambda>_. 65536) stack_state0"
  by (simp add: working_def stack_state0_def rpc_state0_def sample_socket_def bytes_only_def
      object_pool_new_def hm_simps as_u64_def)

lemma stack_state0_facts:
  "queued (stream_of stack_state0) 1 = []" "sent (stream_of stack_state0) 1 = []"
  "owned (stream_of stack_state0) = user stack_state0"
  "incoming (sockets stack_state0 1) = []" "outgoing (sockets stack_state0 1) = []"
  "hm_get (conn_buffers (user stack_state0)) (as_u64 1) = Some []" "app (user stack_state0) = 0"
  "kept 1 (user stack_state0) = []"
  by (simp_all add: stream_of_def stack_state0_def rpc_state0_def sample_socket_def hm_simps as_u64_def
      kept_def unwrap_or_def)

lemma no_frames: "frames_of [] = Inr ([], [])"
  by (rule frames_of_cases) (simp add: next_frame_def HEADER_SIZE_def)

theorem rpc_over_tcp_witness:
  "outgoing (sockets (net_run (config_build config_builder) (rpc_handler no_encoder sample_rpc)
      (two_pieces (frame_encode (frame_request 5 0 0 [7] False))) stack_state0) 1)
    = frame_encode (frame_response 5 [7, 7])"
proof -
  let ?e = "frame_encode (frame_request 5 0 0 [7] False)"
  let ?run = "stream_run (rpc_answer no_encoder sample_rpc) (two_pieces ?e) (stream_of stack_state0)"
  have "queued ?run 1 = []"
    by (rule two_pieces_read) (simp_all add: stack_state0_facts length_small_frames)
  then have "sent ?run 1 = frame_encode (frame_response 5 [7, 7])"
    using rpc_stream [where c = 1 and ops = "two_pieces ?e" and a = "stream_of stack_state0" and r = "[]"
        and fs = "[frame_request 5 0 0 [7] False]" and encode_error = no_encoder and R = sample_rpc] parse_two
    by (simp add: two_pieces_ops stack_state0_facts no_frames sample_reply wire_def)
  moreover from this have "\<forall>c \<in> {1}. length (sent ?run c) \<le> 65536"
    by (simp add: length_small_frames)
  ultimately show ?thesis
    using rpc_over_tcp [OF stack_state0_working _ _ refl refl, of "two_pieces ?e" no_encoder sample_rpc
        "config_build config_builder" 1]
      two_pieces_ops(2) by simp
qed

subsection \<open>A typed call\<close>

text \<open>A request that arrives in any pieces, polled in any way until it has been read, is run and
  its answer is all that is sent.\<close>

lemma request_served:
  assumes "working {d} cap s" and "\<forall>op \<in> set ops. about op = d"
    and "incoming (sockets s d) = []" and "hm_get (conn_buffers (user s)) (as_u64 d) = Some []"
    and "arrived ops = frame_encode q" and "wf_frame q"
    and "reply encode_error R q (app (user s)) = ([g], w)"
    and "length (outgoing (sockets s d)) + length (frame_encode g) \<le> cap d"
    and "s' = net_run cfg (rpc_handler encode_error R) ops s"
    and "queued (stream_run (rpc_answer encode_error R) ops (stream_of s)) d = []"
  shows "outgoing (sockets s' d) = outgoing (sockets s d) @ frame_encode g \<and> app (user s') = w"
proof -
  let ?a = "stream_of s" and ?run = "stream_run (rpc_answer encode_error R) ops (stream_of s)"
  have a: "queued ?a d = []" "kept d (owned ?a) = []" "owned ?a = user s" "sent ?a d = outgoing (sockets s d)"
    using assms(3,4) by (simp_all add: stream_of_def kept_def unwrap_or_def)
  have "frames_of (frame_encode q) = Inr ([q], [])"
    using frames_of_complete [of "[q]" "[]"] assms(6) by (simp add: next_frame_def HEADER_SIZE_def)
  with rpc_stream [OF assms(2) _ _ assms(10), of "[q]" "[]" "[g]" w] assms(5,7)
  have run: "sent ?run d = sent ?a d @ frame_encode g" "app (owned ?run) = w"
    by (simp_all add: a a(2) [unfolded a(3)] no_frames wire_def)
  then have "\<forall>c \<in> {d}. length (sent ?run c) \<le> cap c"
    using assms(8) by (simp add: a(4))
  with assms(1,2) have "stream_of s' = ?run"
    using rpc_answers.run_refines [of "{d}" cap s ops encode_error R cfg] assms(9) by auto
  then have "sent (stream_of s') d = sent ?a d @ frame_encode g" and "app (owned (stream_of s')) = w"
    using run by simp_all
  then show ?thesis
    by (simp add: stream_of_def)
qed

text \<open>C34: a method of the generated client, called over the whole stack, returns what the method of
  the service's implementation returns for the same arguments, and the implementation runs once.
  The client is a TCP connection to a server whose event loop polls the other end; the module is
  generated on each side from the same methods and the service is registered under the id the
  client was made with. The request's bytes arrive in any pieces and are polled in any way until
  the server has read them, the answer's come back in any pieces, some before the call waits and
  the rest during a wait that does not time out.\<close>

theorem stub_call_runs_method:
  assumes "generates [Both, Server_only] sd m" and "generates [Both, Client_only] sd' m'"
    and "sd_methods sd' = sd_methods sd" and "length (sd_methods sd) \<le> 65536" and "i < length (sd_methods sd)"
    and "lossless enc dec" and "module_client m' = Some cms" and "length vals = length (cm_params (cms ! i))"
    and "enc (cm_request (cms ! i), vals) = Inr body" and "12 + length body \<le> 16777216"
    and "enc (cm_response (cms ! i), [res]) = Inr resp" and "8 + length resp \<le> 16777216"
    and "hm_get (services R) sid = Some (dispatch enc dec m svc)"
    and "svc (cm_name (cms ! i)) (rpc_context_new (next_request_id c) sid (of_nat i)) vals (app (user s)) = (res, w)"
    and "cl_stream (tcp_client c) = Some k" and "recv_buf (shared c) = []" and "write_error k = None"
    and "21 + length body \<le> room k"
    and "working {d} cap s" and "incoming (sockets s d) = []"
    and "hm_get (conn_buffers (user s)) (as_u64 d) = Some []"
    and "length (outgoing (sockets s d)) + 17 + length resp \<le> cap d"
    and "stub_call enc dec m' cd sid decode_error (map Data es1) now (x # xs) (cms ! i) vals c = (r, c')"
    and "cl_stream (tcp_client c') = Some k'" and "outgoing k' = outgoing k @ arrived ops"
    and "\<forall>op \<in> set ops. about op = d" and "queued (stream_run (rpc_answer encode_error R) ops (stream_of s)) d = []"
    and "s' = net_run cfg (rpc_handler encode_error R) ops s"
    and "outgoing (sockets s' d) = outgoing (sockets s d) @ concat (es1 @ es2)"
    and "meanwhile x = map Data es2" and "wait_from x < now + timeout c" and "\<not> timed_out x"
  shows "r = Stub_returned (Inr res) \<and> app (user s') = w"
proof -
  let ?mt = "sd_methods sd ! i" and ?rid = "next_request_id c"
  let ?q = "frame_request ?rid sid (of_nat i) body False" and ?g = "frame_response ?rid resp"
  note stub = stub_method [OF assms(2) _ assms(7), of i, unfolded assms(3), OF assms(5)]
  have enc: "enc (req_name ?mt, vals) = Inr body" "enc (resp_name ?mt, [res]) = Inr resp"
    and vals: "length vals = length (md_args ?mt)"
    using assms(8,9,11) by (simp_all add: stub(1))
  have request: "stub_request enc m' cd (cms ! i) vals = Inr (of_nat i, body)"
    using stub(2) [OF vals, of enc cd] enc(1) by (simp add: serialize_cases)
  have "dispatch enc dec m svc ctx (of_nat i) body (server_codec R) (app (user s)) = (Inr resp, w)"
    if "ctx = rpc_context_new ?rid sid (of_nat i)" for ctx
    using dispatch_method [OF assms(1,4,5,6) vals enc(1), of svc ctx "app (user s)" res w "server_codec R"]
      assms(14) that by (simp add: stub(1) serialize_cases enc(2))
  then have reply: "reply encode_error R ?q (app (user s)) = ([?g], w)"
    using assms(13) by (simp add: reply_request run_service_def answer_def)
  have wf: "wf_frame ?q" "wf_frame ?g"
    using assms(10,12) by (simp_all add: wf_frame_request wf_frame_response)
  have size: "length (frame_encode ?q) = 21 + length body" "length (frame_encode ?g) = 17 + length resp"
    by (rule length_small_frames)+
  obtain e c2 where call: "call_raw decode_error (map Data es1) now (x # xs) sid (of_nat i) body c = (e, c2)"
    by fastforce
  then have c2: "c' = c2" and r: "r = (case e of Returned resp \<Rightarrow> Stub_returned (stub_response dec cd (cms ! i) resp)
      | Unwrap_panic \<Rightarrow> Stub_panic | Waiting \<Rightarrow> Stub_waiting)"
    using assms(23) request by (simp_all add: stub_call_def)
  note sent = call_raw_sent [OF assms(15,17), of sid "of_nat i" body decode_error "map Data es1" now "x # xs",
      unfolded call, simplified]
  have "arrived ops = frame_encode ?q"
    using sent size(1) assms(18,24,25) c2 by simp
  from request_served [OF assms(19,26,20,21) this wf(1) reply _ assms(28,27)] assms(22) size(2)
  have out: "outgoing (sockets s' d) = outgoing (sockets s d) @ frame_encode ?g" and state: "app (user s') = w"
    by simp_all
  then have answer: "frames.feed [] (es1 @ es2) = Inr ([?g], [])"
    using wf(2) assms(29) by (intro frames_feed_one) simp_all
  have "hm_get (pending (add_pending ?rid (shared c))) ?rid = Some new_pending"
      "recv_buf (add_pending ?rid (shared c)) = []"
    using assms(16) by (simp_all add: add_pending_def hm_simps)
  then have "fst (wait_loop decode_error ?rid (call_timeout c) (now + timeout c) (x # xs)
      (shared_steps decode_error (map Data es1) (add_pending ?rid (shared c)))) = Returned (Inr resp)"
    using answer assms(30-32) by (intro answer_reaches_call [of es1 es2 ?g]) simp_all
  then have "e = Returned (Inr resp)"
    using sent size(1) assms(18) by simp
  then show ?thesis
    using r state deserialize_lossless [OF assms(6) enc(2)] by (simp add: stub_response_def stub(1))
qed

definition calculator_rpc :: "nat rpc_server_handler" where
  "calculator_rpc = \<lparr>services = hm_insert 0
     (dispatch byte_encoder byte_decoder (generate_service_module calculator) calculator_impl) [],
     server_codec = codec_bincode\<rparr>"

lemma sample_call_facts:
  "next_request_id sample_call = 1" "cl_stream (tcp_client sample_call) = Some sample_socket"
  "recv_buf (shared sample_call) = []" "timeout sample_call = 30000000000"
  "write_error sample_socket = None" "room sample_socket = 65536" "outgoing sample_socket = []"
  by (simp_all add: sample_call_def sample_socket_def timeout_def from_millis_def)

lemma add_reply:
  "reply encode_error calculator_rpc (frame_request 1 0 0 [40, 2] False) 0 = ([frame_response 1 [42]], 1)"
proof -
  have "dispatch byte_encoder byte_decoder (generate_service_module calculator) calculator_impl
      ctx (of_nat 0) [40, 2] cd 0 = (Inr [42], 1)" for ctx :: "socket_addr rpc_context" and cd
    using dispatch_method [OF calculator_generated(1) calculator_sizes(1,2) byte_lossless, of "[40, 2]" "[40, 2]"
        calculator_impl ctx 0 42 1 cd] calculator_sizes(3) add_runs [of ctx]
    by (simp add: byte_encoder_def serialize_cases client_methods_def calculator_def)
  then show ?thesis
    by (simp add: reply_request run_service_def calculator_rpc_def hm_simps answer_def)
qed

theorem stub_call_runs_method_witness:
  "fst (stub_call byte_encoder byte_decoder (generate_service_module calculator) codec_bincode 0 sample_decoder
      (map Data [take 5 (frame_encode (frame_response 1 [42]))]) 0
      [\<lparr>wait_from = 0, meanwhile = map Data [drop 5 (frame_encode (frame_response 1 [42]))], timed_out = False\<rparr>]
      add_stub [40, 2] sample_call) = Stub_returned (Inr 42)"
proof -
  let ?m = "generate_service_module calculator" and ?g = "frame_encode (frame_response 1 [42])"
  let ?q = "frame_request 1 0 0 [40, 2] False" and ?cfg = "config_build config_builder"
  let ?ops = "two_pieces (frame_encode ?q)" and ?es1 = "[take 5 ?g]" and ?es2 = "[drop 5 ?g]"
  let ?x = "\<lparr>wait_from = 0, meanwhile = map Data ?es2, timed_out = False\<rparr>"
  let ?s' = "net_run ?cfg (rpc_handler no_encoder calculator_rpc) ?ops stack_state0"
  obtain r c' where run: "stub_call byte_encoder byte_decoder ?m codec_bincode 0 sample_decoder
      (map Data ?es1) 0 (?x # []) add_stub [40, 2] sample_call = (r, c')"
    by fastforce
  have size: "length ?g = 18"
    by (simp add: length_small_frames)
  have wf: "wf_frame ?q"
    by (simp add: wf_frame_request)
  note ops = two_pieces_ops [of "frame_encode ?q"]
  have polled: "queued (stream_run (rpc_answer no_encoder calculator_rpc) ?ops (stream_of stack_state0)) 1 = []"
    by (rule two_pieces_read) (simp_all add: stack_state0_facts length_small_frames)
  have out: "outgoing (sockets ?s' 1) = outgoing (sockets stack_state0 1) @ concat (?es1 @ ?es2)"
    using request_served [OF stack_state0_working ops(2) stack_state0_facts(4,6) ops(1) wf _ _ refl polled]
    by (simp add: stack_state0_facts add_reply size)
  obtain k' where k': "cl_stream (tcp_client c') = Some k'" "outgoing k' = outgoing sample_socket @ arrived ?ops"
    using call_raw_sent [OF sample_call_facts(2,5), of 0 0 "[40, 2]" sample_decoder "map Data ?es1" 0 "[?x]"] run
    by (auto simp: stub_call_def add_request sample_call_facts length_small_frames ops(1) case_prod_unfold)
  have enc: "byte_encoder (cm_request add_stub, [40, 2]) = Inr [40, 2]"
      "byte_encoder (cm_response add_stub, [42]) = Inr [42]"
    by (simp_all add: byte_encoder_def)
  have service: "hm_get (services calculator_rpc) 0
      = Some (dispatch byte_encoder byte_decoder ?m calculator_impl)"
    by (simp add: calculator_rpc_def hm_simps)
  have "r = Stub_returned (Inr 42) \<and> app (user ?s') = 1"
    by (rule stub_call_runs_method [OF calculator_generated(1,2) refl calculator_sizes(1,2) byte_lossless
      calculator_generated(3) calculator_sizes(3) enc(1) _ enc(2) _ service _ sample_call_facts(2,3,5) _
      stack_state0_working stack_state0_facts(4,6) _ run k' ops(2) polled refl out])
      (simp_all add: add_runs sample_call_facts stack_state0_facts)
  with run show ?thesis
    by simp
qed

end
