(* ===== verification/Rpc_Services.thy ===== *)
theory Rpc_Services
  imports Rpc_Stack Rust_Text "HOL-Library.Sublist"
begin

section \<open>Services\<close>

text \<open>
  \<^verbatim>\<open>mill-rpc/examples\<close>: the services that the example servers offer, as the service macro
  gets them, and their implementations: a key-value store, a counter, arithmetic and strings. The
  values of all their types are one datatype; a method is called with the values of its own types,
  so the last case of an implementation is never reached. Printing is left out.
\<close>

datatype val = VStr str | VU64 u64 | VU32 u32 | VBool bool | VOpt "str option" | VStrs "str list"

definition rpc_fn :: "string \<Rightarrow> (string \<times> string) list \<Rightarrow> string \<Rightarrow> trait_fn" where
  "rpc_fn n args ret = \<lparr>fn_name = n, fn_inputs = map (\<lambda>(a, ty). Typed (Pat_ident a) ty) args, fn_output = Some ret\<rparr>"

subsection \<open>The key-value store\<close>

definition kv_input :: service_input where
  "kv_input = \<lparr>in_attribute = Some ''server'', in_keyword = ''service'', in_name = ''KeyValue'', in_methods =
     [rpc_fn ''get'' [(''key'', ''String'')] ''Option<String>'',
      rpc_fn ''set'' [(''key'', ''String''), (''value'', ''String'')] ''Option<String>'',
      rpc_fn ''delete'' [(''key'', ''String'')] ''bool'',
      rpc_fn ''keys'' [] ''Vec<String>'',
      rpc_fn ''len'' [] ''u64'',
      rpc_fn ''is_empty'' [] ''bool'',
      rpc_fn ''clear'' [] ''u64'']\<rparr>"

definition kv_client_input :: service_input where
  "kv_client_input = kv_input\<lparr>in_attribute := Some ''client''\<rparr>"

type_synonym kv_store = "(str, str) hmap"

definition kv_new :: kv_store where
  "kv_new = []"

definition kv_get :: "str \<Rightarrow> kv_store \<Rightarrow> str option \<times> kv_store" where
  "kv_get key data = (hm_get data key, data)"

definition kv_set :: "str \<Rightarrow> str \<Rightarrow> kv_store \<Rightarrow> str option \<times> kv_store" where
  "kv_set key v data = (let old = hm_get data key in (old, hm_insert key v data))"

definition kv_delete :: "str \<Rightarrow> kv_store \<Rightarrow> bool \<times> kv_store" where
  "kv_delete key data = (let existed = hm_get data key \<noteq> None in (existed, hm_remove key data))"

definition kv_keys :: "kv_store \<Rightarrow> str list \<times> kv_store" where
  "kv_keys data = (map fst data, data)"

definition kv_len :: "kv_store \<Rightarrow> u64 \<times> kv_store" where
  "kv_len data = (of_nat (length data), data)"

definition kv_is_empty :: "kv_store \<Rightarrow> bool \<times> kv_store" where
  "kv_is_empty data = (data = [], data)"

definition kv_clear :: "kv_store \<Rightarrow> u64 \<times> kv_store" where
  "kv_clear data = (let count = of_nat (length data) in (count, []))"

definition kv_impl :: "(val, kv_store) service_impl" where
  "kv_impl n ctx vals data = (case vals of
      [VStr key] \<Rightarrow>
        if n = ''get'' then apfst VOpt (kv_get key data) else apfst VBool (kv_delete key data)
    | [VStr key, VStr v] \<Rightarrow> apfst VOpt (kv_set key v data)
    | _ \<Rightarrow>
        if n = ''keys'' then apfst VStrs (kv_keys data)
        else if n = ''len'' then apfst VU64 (kv_len data)
        else if n = ''is_empty'' then apfst VBool (kv_is_empty data)
        else apfst VU64 (kv_clear data))"

text \<open>What the macro makes of the declarations on both sides.\<close>

definition kv_def :: "generate_mode \<Rightarrow> service_def" where
  "kv_def mode = \<lparr>sd_mode = mode, sd_name = ''KeyValue'', sd_methods =
     [\<lparr>md_name = ''get'', md_args = [(''key'', ''String'')], md_return = ''Option<String>''\<rparr>,
      \<lparr>md_name = ''set'', md_args = [(''key'', ''String''), (''value'', ''String'')], md_return = ''Option<String>''\<rparr>,
      \<lparr>md_name = ''delete'', md_args = [(''key'', ''String'')], md_return = ''bool''\<rparr>,
      \<lparr>md_name = ''keys'', md_args = [], md_return = ''Vec<String>''\<rparr>,
      \<lparr>md_name = ''len'', md_args = [], md_return = ''u64''\<rparr>,
      \<lparr>md_name = ''is_empty'', md_args = [], md_return = ''bool''\<rparr>,
      \<lparr>md_name = ''clear'', md_args = [], md_return = ''u64''\<rparr>]\<rparr>"

lemma kv_parsed:
  "service_macro kv_input = Inr (generate_service_module (kv_def Server_only))"
  "service_macro kv_client_input = Inr (generate_service_module (kv_def Client_only))"
  by (simp_all add: service_macro_def kv_input_def kv_client_input_def rpc_fn_def parse_service_def
      parse_mode_def kv_def_def)

lemma kv_names:
  "to_uppercase ''get'' = ''GET''" "to_uppercase ''set'' = ''SET''" "to_uppercase ''delete'' = ''DELETE''"
  "to_uppercase ''keys'' = ''KEYS''" "to_uppercase ''len'' = ''LEN''" "to_uppercase ''is_empty'' = ''IS_EMPTY''"
  "to_uppercase ''clear'' = ''CLEAR''"
  "to_pascal_case ''get'' = ''Get''" "to_pascal_case ''set'' = ''Set''" "to_pascal_case ''delete'' = ''Delete''"
  "to_pascal_case ''keys'' = ''Keys''" "to_pascal_case ''len'' = ''Len''"
  "to_pascal_case ''is_empty'' = ''IsEmpty''" "to_pascal_case ''clear'' = ''Clear''"
  by (simp_all add: to_uppercase_def to_pascal_case_def capitalize_def upper_def is_lower_def char_of_eq_iff)

lemma kv_compiles: "compiles (generate_service_module (kv_def mode))"
  by (cases mode) (simp_all add: compiles_def module_defs kv_def_def kv_names Let_def)

subsection \<open>The store as a map\<close>

datatype kv_op = Kv_get str | Kv_set str str | Kv_delete str | Kv_keys | Kv_len | Kv_is_empty | Kv_clear

text \<open>What a client of the store may see: the order of the keys is free.\<close>

inductive kv_spec :: "kv_op \<Rightarrow> (str \<rightharpoonup> str) \<Rightarrow> val \<Rightarrow> (str \<rightharpoonup> str) \<Rightarrow> bool" where
  get: "kv_spec (Kv_get k) m (VOpt (m k)) m"
| set: "kv_spec (Kv_set k v) m (VOpt (m k)) (m(k \<mapsto> v))"
| delete: "kv_spec (Kv_delete k) m (VBool (k \<in> dom m)) (m(k := None))"
| keys: "distinct ks \<Longrightarrow> set ks = dom m \<Longrightarrow> kv_spec Kv_keys m (VStrs ks) m"
| len: "kv_spec Kv_len m (VU64 (of_nat (card (dom m)))) m"
| is_empty: "kv_spec Kv_is_empty m (VBool (m = Map.empty)) m"
| clear: "kv_spec Kv_clear m (VU64 (of_nat (card (dom m)))) Map.empty"

text \<open>The method and the arguments of an operation, and the values of a whole session.\<close>

primrec kv_call :: "kv_op \<Rightarrow> nat \<times> val list" where
  "kv_call (Kv_get k) = (0, [VStr k])"
| "kv_call (Kv_set k v) = (1, [VStr k, VStr v])"
| "kv_call (Kv_delete k) = (2, [VStr k])"
| "kv_call Kv_keys = (3, [])"
| "kv_call Kv_len = (4, [])"
| "kv_call Kv_is_empty = (5, [])"
| "kv_call Kv_clear = (6, [])"

inductive kv_trace :: "kv_op list \<Rightarrow> (str \<rightharpoonup> str) \<Rightarrow> val list \<Rightarrow> (str \<rightharpoonup> str) \<Rightarrow> bool" where
  no_calls: "kv_trace [] m [] m"
| a_call: "kv_spec op m r m' \<Longrightarrow> kv_trace ops m' rs m'' \<Longrightarrow> kv_trace (op # ops) m (r # rs) m''"

inductive_simps kv_trace_simps: "kv_trace [] m rs m'" "kv_trace (op # ops) m rs m'"

lemma hm_empty_iff: "data = [] \<longleftrightarrow> hm_get data = Map.empty"
proof
  assume "hm_get data = Map.empty"
  then have "dom (map_of data) = {}"
    by (simp add: hm_get_def [abs_def])
  then show "data = []"
    by (simp add: dom_map_of_conv_image_fst)
qed (simp add: fun_eq_iff)

lemma hm_keys_distinct: "hm_wf data \<Longrightarrow> distinct (map fst data) \<and> set (map fst data) = dom (hm_get data)"
  by (simp add: hm_wf_def hm_get_def [abs_def] dom_map_of_conv_image_fst)

lemma hm_get_updates: "hm_get (hm_insert k v m) = (hm_get m)(k \<mapsto> v)" "hm_get (hm_remove k m) = (hm_get m)(k := None)"
  by (auto simp: hm_simps fun_eq_iff)

text \<open>One method of the implementation.\<close>

lemma kv_impl_spec:
  assumes "hm_wf data" and "kv_call op = (i, vals)"
    and "kv_impl (md_name (sd_methods (kv_def mode) ! i)) ctx vals data = (r, data')"
  shows "kv_spec op (hm_get data) r (hm_get data') \<and> hm_wf data'"
proof -
  note defs = kv_impl_def kv_def_def kv_get_def kv_set_def kv_delete_def kv_keys_def kv_len_def
    kv_is_empty_def kv_clear_def Let_def
  show ?thesis
  proof (cases op)
    case Kv_keys
    with assms kv_spec.keys [OF hm_keys_distinct [THEN conjunct1] hm_keys_distinct [THEN conjunct2]] show ?thesis
      by (auto simp: defs)
  next
    case Kv_is_empty
    with assms kv_spec.is_empty [of "hm_get data"] show ?thesis
      by (auto simp: defs hm_empty_iff)
  next
    case Kv_clear
    have "hm_get ([] :: kv_store) = Map.empty"
      by (simp add: fun_eq_iff)
    with Kv_clear assms kv_spec.clear [of "hm_get data"] show ?thesis
      by (auto simp: defs hm.size_card)
  next
    case (Kv_delete k)
    with assms kv_spec.delete [of k "hm_get data"] show ?thesis
      by (auto simp: defs hm_get_updates hm.wf_del dom_def)
  next
    case (Kv_set k v)
    with assms kv_spec.set [of k v "hm_get data"] show ?thesis
      by (auto simp: defs hm_get_updates hm.wf_put)
  next
    case (Kv_get k)
    with assms kv_spec.get [of k "hm_get data"] show ?thesis
      by (auto simp: defs)
  qed (use assms in \<open>auto simp: defs hm.size_card intro: kv_spec.intros\<close>)
qed

text \<open>A client that calls the store through its stub, the generated dispatcher and the
  implementation, one call after the other.\<close>

fun kv_session :: "val struct_encoder \<Rightarrow> val struct_decoder \<Rightarrow> codec \<Rightarrow> kv_op list \<Rightarrow> kv_store
    \<Rightarrow> (rpc_error + val) list \<times> kv_store" where
  "kv_session enc dec cd [] data = ([], data)"
| "kv_session enc dec cd (op # ops) data =
     (let (i, vals) = kv_call op;
          cm = client_methods (sd_methods (kv_def Client_only)) ! i;
          (res, data) = (case stub_request enc (generate_service_module (kv_def Client_only)) cd cm vals of
              Inl e \<Rightarrow> (Inl e, data)
            | Inr (mth, args) \<Rightarrow>
                let (resp, data) = dispatch enc dec (generate_service_module (kv_def Server_only)) kv_impl
                       (rpc_context_new 0 0 mth) mth args cd data
                in (stub_response dec cd cm resp, data));
          (rs, data) = kv_session enc dec cd ops data
      in (res # rs, data))"

lemma kv_generated:
  "generates [Both, Server_only] (kv_def Server_only) (generate_service_module (kv_def Server_only))"
  "generates [Both, Client_only] (kv_def Client_only) (generate_service_module (kv_def Client_only))"
  by (simp_all add: generates_def kv_compiles) (simp_all add: kv_def_def)

lemma kv_methods:
  "sd_methods (kv_def mode) = sd_methods (kv_def mode')"
  "length (sd_methods (kv_def mode)) = 7"
  "kv_call op = (i, vals) \<Longrightarrow> i < 7 \<and> length vals = length (md_args (sd_methods (kv_def mode) ! i))"
  by (simp_all add: kv_def_def) (cases op; auto)

text \<open>C35: for a client of the key-value server the store is a map: whatever calls it makes through the
  generated stub and dispatcher, each returns what the map returns and changes the store as the map
  changes, \<open>keys\<close> lists every key once, and no call fails.\<close>

theorem kv_store_is_map:
  assumes "lossless enc dec" and "\<And>x. \<exists>b. enc x = Inr b" and "hm_wf data"
    and "kv_session enc dec cd ops data = (results, data')"
  shows "\<exists>rs. results = map Inr rs \<and> kv_trace ops (hm_get data) rs (hm_get data')"
  using assms(3,4)
proof (induction ops arbitrary: data results)
  case Nil
  then show ?case by (auto intro: kv_trace.intros)
next
  case (Cons op ops)
  let ?m = "generate_service_module (kv_def Server_only)" and ?m' = "generate_service_module (kv_def Client_only)"
  let ?cms = "client_methods (sd_methods (kv_def Client_only))"
  obtain i vals where call: "kv_call op = (i, vals)"
    by fastforce
  let ?mt = "sd_methods (kv_def Client_only) ! i" and ?ctx = "rpc_context_new 0 0 (of_nat i)"
  note ms = kv_methods(1) [of Server_only Client_only] kv_methods(2) [of Client_only]
    kv_methods(3) [OF call, of Client_only]
  obtain args resp where enc: "enc (req_name ?mt, vals) = Inr args"
      "enc (resp_name ?mt, [fst (kv_impl (md_name ?mt) ?ctx vals data)]) = Inr resp"
    using assms(2) by blast
  have "module_client ?m' = Some ?cms"
    by (simp add: generate_service_module_def kv_def_def Let_def)
  note stub = stub_method [OF kv_generated(2) _ this, of i]
  have sent: "stub_request enc ?m' cd (?cms ! i) vals = Inr (of_nat i, args)"
    using stub(2) [of vals enc cd] ms enc(1) by (simp add: serialize_cases)
  obtain r data1 where run: "kv_impl (md_name ?mt) ?ctx vals data = (r, data1)"
    by fastforce
  have "dispatch enc dec ?m kv_impl ?ctx (of_nat i) args cd data = (Inr resp, data1)"
    using dispatch_method [OF kv_generated(1) _ _ assms(1), of i vals args kv_impl ?ctx data r data1 cd]
      ms enc run by (simp add: serialize_cases)
  moreover have "stub_response dec cd (?cms ! i) (Inr resp) = Inr r"
    using stub(1) ms enc(2) run deserialize_lossless [OF assms(1) enc(2)] by (simp add: stub_response_def)
  ultimately obtain rest where rest: "kv_session enc dec cd ops data1 = (rest, data')" "results = Inr r # rest"
    using Cons.prems(2) call sent by (auto split: prod.splits)
  have "kv_spec op (hm_get data) r (hm_get data1) \<and> hm_wf data1"
    by (rule kv_impl_spec [OF Cons.prems(1) call run])
  moreover from this Cons.IH [OF _ rest(1)]
  obtain rs where "rest = map Inr rs" "kv_trace ops (hm_get data1) rs (hm_get data')"
    by blast
  ultimately have "kv_trace (op # ops) (hm_get data) (r # rs) (hm_get data')" "results = map Inr (r # rs)"
    using rest(2) by (auto intro: kv_trace.intros)
  then show ?case
    by blast
qed

subsection \<open>A codec for the witnesses\<close>

definition put_nat :: "nat \<Rightarrow> bytes" where
  "put_nat n = replicate n 1 @ [0]"

definition get_nat :: "bytes \<Rightarrow> nat \<times> bytes" where
  "get_nat bs = (let k = takeWhile (\<lambda>b. b = 1) bs in (length k, drop (Suc (length k)) bs))"

fun get_many :: "(bytes \<Rightarrow> 'a \<times> bytes) \<Rightarrow> nat \<Rightarrow> bytes \<Rightarrow> 'a list \<times> bytes" where
  "get_many g 0 bs = ([], bs)"
| "get_many g (Suc n) bs = (let (x, bs) = g bs; (xs, bs) = get_many g n bs in (x # xs, bs))"

definition put_list :: "('a \<Rightarrow> bytes) \<Rightarrow> 'a list \<Rightarrow> bytes" where
  "put_list e xs = put_nat (length xs) @ concat (map e xs)"

definition get_list :: "(bytes \<Rightarrow> 'a \<times> bytes) \<Rightarrow> bytes \<Rightarrow> 'a list \<times> bytes" where
  "get_list g bs = (let (n, bs) = get_nat bs in get_many g n bs)"

lemma get_put_nat: "get_nat (put_nat n @ bs) = (n, bs)"
proof -
  have "takeWhile (\<lambda>b. b = 1) (replicate n 1 @ 0 # bs) = replicate n (1 :: u8)"
    by (induction n) auto
  then show ?thesis
    by (simp add: get_nat_def put_nat_def)
qed

lemma get_put_list:
  assumes "\<And>x r. g (e x @ r) = (x, r)"
  shows "get_list g (put_list e xs @ bs) = (xs, bs)"
proof -
  have "get_many g (length xs) (concat (map e xs) @ bs) = (xs, bs)"
    by (induction xs) (simp_all add: assms)
  then show ?thesis
    by (simp add: get_list_def put_list_def get_put_nat)
qed

abbreviation "put_str \<equiv> put_list put_nat"
abbreviation "get_str \<equiv> get_list get_nat"

lemma get_put_str: "get_str (put_str s @ bs) = (s, bs)"
  by (rule get_put_list) (rule get_put_nat)

fun put_val :: "val \<Rightarrow> bytes" where
  "put_val (VStr s) = put_nat 0 @ put_str s"
| "put_val (VU64 w) = put_nat 1 @ put_nat (unat w)"
| "put_val (VU32 w) = put_nat 2 @ put_nat (unat w)"
| "put_val (VBool b) = put_nat (if b then 3 else 4)"
| "put_val (VOpt None) = put_nat 5"
| "put_val (VOpt (Some s)) = put_nat 6 @ put_str s"
| "put_val (VStrs ss) = put_nat 7 @ put_list put_str ss"

definition get_val :: "bytes \<Rightarrow> val \<times> bytes" where
  "get_val bs =
     (let (tag, bs) = get_nat bs in
      if tag = 0 then apfst VStr (get_str bs)
      else if tag = 1 then apfst (VU64 \<circ> of_nat) (get_nat bs)
      else if tag = 2 then apfst (VU32 \<circ> of_nat) (get_nat bs)
      else if tag = 3 then (VBool True, bs)
      else if tag = 4 then (VBool False, bs)
      else if tag = 5 then (VOpt None, bs)
      else if tag = 6 then apfst (VOpt \<circ> Some) (get_str bs)
      else apfst VStrs (get_list get_str bs))"

lemma get_put_val: "get_val (put_val x @ bs) = (x, bs)"
  by (cases x rule: put_val.cases)
    (simp_all add: get_val_def get_put_nat get_put_str get_put_list [of get_str put_str, OF get_put_str])

definition val_encoder :: "val struct_encoder" where
  "val_encoder x = Inr (put_list put_val (snd x))"

definition val_decoder :: "val struct_decoder" where
  "val_decoder n bs = Inr (fst (get_list get_val bs))"

lemma val_lossless: "lossless val_encoder val_decoder"
  using get_put_list [of get_val put_val, OF get_put_val, of _ "[]"]
  by (auto simp: lossless_def val_encoder_def val_decoder_def)

theorem kv_store_is_map_witness:
  "\<exists>rs. fst (kv_session val_encoder val_decoder codec_bincode [Kv_set (lit ''k'') (lit ''v''), Kv_get (lit ''k''), Kv_len] kv_new)
     = map Inr rs \<and> rs = [VOpt None, VOpt (Some (lit ''v'')), VU64 1]"
proof -
  let ?ops = "[Kv_set (lit ''k'') (lit ''v''), Kv_get (lit ''k''), Kv_len]"
  obtain results data' where run: "kv_session val_encoder val_decoder codec_bincode ?ops kv_new = (results, data')"
    by fastforce
  have "hm_wf kv_new" "hm_get kv_new = Map.empty"
    by (simp_all add: kv_new_def fun_eq_iff)
  with kv_store_is_map [OF val_lossless _ _ run]
  obtain rs where "results = map Inr rs" "kv_trace ?ops Map.empty rs (hm_get data')"
    by (auto simp: val_encoder_def)
  then show ?thesis
    using run by (auto simp: kv_trace_simps kv_spec.simps)
qed

subsection \<open>Arithmetic\<close>

definition factorial :: "u64 \<Rightarrow> u64" where
  "factorial n = foldl (\<lambda>p i. p * of_nat i) 1 [1..<Suc (unat n)]"

fun fib_loop :: "nat \<Rightarrow> u64 \<times> u64 \<Rightarrow> u64 \<times> u64" where
  "fib_loop 0 (a, b) = (a, b)"
| "fib_loop (Suc k) (a, b) = (let tmp = a + b; a = b; b = tmp in fib_loop k (a, b))"

definition fibonacci :: "u32 \<Rightarrow> u64" where
  "fibonacci n =
     (if n = 0 then 0 else if n = 1 then 1
      else let (a, b) = fib_loop (length [2..<Suc (unat n)]) (0, 1) in b)"

partial_function (option) prime_loop :: "u64 \<Rightarrow> u64 \<Rightarrow> bool option" where
  "prime_loop n i =
     (if i * i \<le> n then if n mod i = 0 then Some False else prime_loop n (i + 2) else Some True)"

definition is_prime :: "u64 \<Rightarrow> bool option" where
  "is_prime n =
     (if n < 2 then Some False else if n < 4 then Some True
      else if n mod 2 = 0 then Some False else prime_loop n 3)"

function gcd_loop :: "u64 \<Rightarrow> u64 \<Rightarrow> u64" where
  "gcd_loop a b = (if b \<noteq> 0 then let tmp = b; b = a mod b; a = tmp in gcd_loop a b else a)"
  by pat_completeness auto
termination
  by (relation "measure (\<lambda>(a, b). unat b)") (auto simp: unat_mod_distrib word_unat_eq_iff)

declare gcd_loop.simps [simp del]

fun fib :: "nat \<Rightarrow> nat" where
  "fib 0 = 0"
| "fib (Suc 0) = 1"
| "fib (Suc (Suc n)) = fib (Suc n) + fib n"

definition prime_number :: "nat \<Rightarrow> bool" where
  "prime_number n \<longleftrightarrow> 2 \<le> n \<and> (\<forall>d. d dvd n \<longrightarrow> d = 1 \<or> d = n)"

lemma factorial_loop: "foldl (\<lambda>p i. p * of_nat i) 1 [1..<Suc n] = (of_nat (fact n) :: u64)"
  by (induction n) (simp_all add: algebra_simps)

lemma fib_loop_fib: "fib_loop k (of_nat (fib n), of_nat (fib (Suc n))) = (of_nat (fib (n + k)), of_nat (fib (Suc (n + k))))"
proof (induction k arbitrary: n)
  case (Suc k)
  have "fib_loop (Suc k) (of_nat (fib n), of_nat (fib (Suc n)))
      = fib_loop k (of_nat (fib (Suc n)), of_nat (fib (Suc (Suc n))))"
    by (simp add: add.commute)
  then show ?case
    using Suc [of "Suc n"] by simp
qed simp

lemma gcd_loop_gcd: "unat (gcd_loop a b) = gcd (unat a) (unat b)"
proof (induction a b rule: gcd_loop.induct)
  case (1 a b)
  show ?case
  proof (cases "b = 0")
    case False
    with 1 have "unat (gcd_loop a b) = gcd (unat b) (unat a mod unat b)"
      by (subst gcd_loop.simps) (simp add: unat_mod_distrib)
    then show ?thesis
      by (simp add: gcd_red_nat [of "unat a"])
  qed (subst gcd_loop.simps, simp)
qed

lemma prime_loop_unfold:
  "prime_loop n i = (if i * i \<le> n then if unat i dvd unat n then Some False else prime_loop n (i + 2) else Some True)"
proof -
  have "n mod i = 0 \<longleftrightarrow> unat i dvd unat n"
    by (simp only: word_unat_eq_iff unat_mod_distrib unsigned_0 dvd_eq_mod_eq_0)
  then show ?thesis
    by (subst prime_loop.simps) (simp only:)
qed

lemma prime_loop_ends:
  assumes "odd (unat n)" and "odd (unat i)" and "unat i \<le> unat n"
  shows "\<exists>b. prime_loop n i = Some b"
  using assms(2,3)
proof (induction "unat n - unat i" arbitrary: i rule: less_induct)
  case less
  show ?case
  proof (cases "i = n \<or> \<not> i * i \<le> n \<or> unat i dvd unat n")
    case True
    then show ?thesis
      by (subst prime_loop_unfold) auto
  next
    case False
    then have "unat i < unat n"
      using less.prems(2) by (simp add: word_unat_eq_iff)
    moreover have "unat i + 1 \<noteq> unat n"
      using less.prems(1) assms(1) by presburger
    ultimately have "unat i + 2 \<le> unat n"
      by simp
    moreover from this have "unat i + 2 < 18446744073709551616"
      by (rule le_less_trans) (rule unat_u64_less)
    ultimately have i2: "unat (i + 2) = unat i + 2" "unat i + 2 \<le> unat n"
      using unat_add_no_wrap [of i 2] by auto
    with less.hyps [of "i + 2"] less.prems False show ?thesis
      by (subst prime_loop_unfold) auto
  qed
qed

lemma small_factor:
  assumes "2 \<le> n" and "n < k * k" and "\<And>d. 2 \<le> d \<Longrightarrow> d < k \<Longrightarrow> \<not> d dvd n"
  shows "prime_number n"
  unfolding prime_number_def
proof (intro conjI allI impI)
  fix d assume "d dvd n"
  then obtain e where e: "n = d * e"
    by blast
  show "d = 1 \<or> d = n"
  proof (rule ccontr)
    assume d: "\<not> (d = 1 \<or> d = n)"
    with e assms(1) have "2 \<le> d" "2 \<le> e"
      by (cases d; cases e; auto)+
    with assms(3) [of d] assms(3) [of e] e have "k \<le> d" "k \<le> e"
      by (auto simp: not_less [symmetric])
    then have "k * k \<le> n"
      using e by (simp add: mult_le_mono)
    with assms(2) show False
      by simp
  qed
qed (use assms(1) in simp)

lemma prime_loop_correct:
  assumes "odd (unat n)" and "unat n < (2 ^ 32 - 1) * (2 ^ 32 - 1)"
    and "odd (unat i)" and "3 \<le> unat i" and "unat i \<le> 2 ^ 32 - 1" and "2 \<le> unat n"
    and "\<And>d. 2 \<le> d \<Longrightarrow> d < unat i \<Longrightarrow> \<not> d dvd unat n"
  shows "prime_loop n i = Some (prime_number (unat n))"
  using assms(3-5,7)
proof (induction "2 ^ 32 - unat i" arbitrary: i rule: less_induct)
  case less
  let ?k = "unat i"
  have "?k * ?k \<le> (2 ^ 32 - 1) * (2 ^ 32 - 1)"
    using less.prems(3) by (intro mult_le_mono)
  then have sq: "unat (i * i) = ?k * ?k"
    by (simp add: unat_word_ariths)
  show ?case
  proof (cases "?k * ?k \<le> unat n")
    case False
    with sq small_factor [OF assms(6), of ?k] less.prems(4) show ?thesis
      by (subst prime_loop_unfold) (simp add: word_le_nat_alt)
  next
    case True
    have "?k < 2 ^ 32 - 1"
    proof (rule ccontr)
      assume "\<not> ?k < 2 ^ 32 - 1"
      then have "(2 ^ 32 - 1) * (2 ^ 32 - 1) \<le> ?k * ?k"
        by (intro mult_le_mono) simp_all
      with True assms(2) show False
        by simp
    qed
    moreover have "?k \<noteq> 2 ^ 32 - 2"
      using less.prems(1) by auto
    ultimately have k: "?k + 2 \<le> 2 ^ 32 - 1" "unat (i + 2) = ?k + 2"
      by (simp_all add: unat_add_no_wrap)
    show ?thesis
    proof (cases "?k dvd unat n")
      case True
      have "?k < unat n"
        using \<open>?k * ?k \<le> unat n\<close> less.prems(2) by (cases ?k) auto
      with True less.prems(2) have "\<not> prime_number (unat n)"
        by (auto simp: prime_number_def)
      with True sq \<open>?k * ?k \<le> unat n\<close> show ?thesis
        by (subst prime_loop_unfold) (simp add: word_le_nat_alt)
    next
      case False
      have "\<not> d dvd unat n" if "2 \<le> d" "d < unat (i + 2)" for d
      proof -
        have "\<not> Suc ?k dvd unat n"
          using less.prems(1) assms(1) by (meson dvd_trans even_Suc)
        with that k(2) less.prems(4) False show ?thesis
          by (cases "d < ?k") (auto simp: less_Suc_eq)
      qed
      with less.hyps [of "i + 2"] k less.prems(1,2) have "prime_loop n (i + 2) = Some (prime_number (unat n))"
        by simp
      with False sq \<open>?k * ?k \<le> unat n\<close> show ?thesis
        by (subst prime_loop_unfold) (simp add: word_le_nat_alt)
    qed
  qed
qed

lemma is_prime_ends: "\<exists>b. is_prime n = Some b"
proof -
  have "\<exists>b. prime_loop n 3 = Some b" if "\<not> n < 4" "n mod 2 \<noteq> 0"
  proof (rule prime_loop_ends)
    show "odd (unat n)"
      using that(2) by (simp add: word_unat_eq_iff unat_mod_distrib even_iff_mod_2_eq_zero)
    show "unat (3 :: u64) \<le> unat n"
      using that(1) by (simp add: word_less_nat_alt)
  qed simp
  then show ?thesis
    unfolding is_prime_def by metis
qed

lemma prime_3: "prime_number 2" "prime_number 3"
  by (rule small_factor [of _ 2]; simp)+

text \<open>\<open>is_prime\<close> always ends, although its square wraps for large numbers, and up to the square of
  the largest odd 32-bit number, below which it does not wrap, it decides primality.\<close>

theorem is_prime_decides:
  "(\<exists>b. is_prime n = Some b)
    \<and> (unat n < (2 ^ 32 - 1) * (2 ^ 32 - 1) \<longrightarrow> is_prime n = Some (prime_number (unat n)))"
proof (intro conjI impI)
  assume bound: "unat n < (2 ^ 32 - 1) * (2 ^ 32 - 1)"
  consider "unat n < 2" | "unat n = 2" | "unat n = 3" | "4 \<le> unat n" "even (unat n)" | "4 \<le> unat n" "odd (unat n)"
    by linarith
  then show "is_prime n = Some (prime_number (unat n))"
  proof cases
    case 4
    then have "\<not> prime_number (unat n)"
      by (auto simp: prime_number_def)
    with 4 show ?thesis
      by (simp add: is_prime_def word_less_nat_alt word_unat_eq_iff unat_mod_distrib even_iff_mod_2_eq_zero)
  next
    case 5
    have "\<not> d dvd unat n" if "2 \<le> d" "d < unat (3 :: u64)" for d
    proof -
      have "d = 2"
        using that by simp
      with 5 show ?thesis
        by simp
    qed
    then have "prime_loop n 3 = Some (prime_number (unat n))"
      using 5 bound by (intro prime_loop_correct) simp_all
    with 5 show ?thesis
      by (simp add: is_prime_def word_less_nat_alt word_unat_eq_iff unat_mod_distrib even_iff_mod_2_eq_zero)
  qed (simp_all add: is_prime_def word_less_nat_alt prime_3, auto simp: prime_number_def)
qed (rule is_prime_ends)

theorem is_prime_decides_witness: "is_prime 7 = Some (prime_number 7)"
  using is_prime_decides [of 7] by simp

text \<open>Beyond the bound the square of the next candidate wraps and the loop goes on.\<close>

lemma prime_square_wraps: "(2 ^ 32 + 1) * (2 ^ 32 + 1) = (2 ^ 33 + 1 :: u64)"
  by simp

text \<open>The other methods compute their functions: \<open>gcd\<close> the greatest common divisor,
  \<open>factorial\<close> and \<open>fibonacci\<close> the factorial and the Fibonacci number modulo 2 to the 64, so
  exactly those numbers as long as they fit.\<close>

theorem arithmetic_modulo:
  "unat (gcd_loop a b) = gcd (unat a) (unat b) \<and> unat (factorial n) = fact (unat n) mod 2 ^ 64
    \<and> unat (fibonacci k) = fib (unat k) mod 2 ^ 64"
proof -
  have "fibonacci k = of_nat (fib (unat k))"
  proof -
    consider "unat k = 0" | "unat k = 1" | m where "unat k = Suc (Suc m)"
      using nat.exhaust One_nat_def by metis
    then show ?thesis
    proof cases
      case (3 m)
      have "length [2..<Suc (unat k)] = Suc m"
        by (simp only: length_upt 3)
      with 3 fib_loop_fib [of "Suc m" 0] show ?thesis
        by (simp add: fibonacci_def word_unat_eq_iff del: upt_Suc)
    qed (simp_all add: fibonacci_def word_unat_eq_iff)
  qed
  moreover have "factorial n = of_nat (fact (unat n))"
    unfolding factorial_def by (rule factorial_loop)
  ultimately show ?thesis
    by (simp add: gcd_loop_gcd unat_of_nat take_bit_eq_mod)
qed

subsection \<open>Strings\<close>

definition str_reverse :: "str \<Rightarrow> str" where
  "str_reverse s = rev s"

definition word_count :: "str \<Rightarrow> u32" where
  "word_count s = of_nat (length (split_whitespace s))"

definition str_contains :: "str \<Rightarrow> str \<Rightarrow> bool" where
  "str_contains haystack needle = list_ex (\<lambda>i. take (length needle) (drop i haystack) = needle) [0..<Suc (length haystack)]"

lemma str_contains_sublist: "str_contains haystack needle \<longleftrightarrow> sublist needle haystack"
proof
  assume "str_contains haystack needle"
  then obtain i where "take (length needle) (drop i haystack) = needle"
    by (auto simp: str_contains_def list_ex_iff)
  then have "haystack = take i haystack @ needle @ drop (length needle) (drop i haystack)"
    by (metis append_take_drop_id)
  then show "sublist needle haystack"
    unfolding sublist_def by blast
next
  assume "sublist needle haystack"
  then obtain ps ss where "haystack = ps @ needle @ ss"
    by (auto simp: sublist_def)
  then have "take (length needle) (drop (length ps) haystack) = needle" "length ps \<in> set [0..<Suc (length haystack)]"
    by simp_all
  then show "str_contains haystack needle"
    unfolding str_contains_def list_ex_iff by blast
qed

subsection \<open>The services of the other examples\<close>

definition math_input :: service_input where
  "math_input = \<lparr>in_attribute = Some ''server'', in_keyword = ''service'', in_name = ''MathService'', in_methods =
     [rpc_fn ''factorial'' [(''n'', ''u64'')] ''u64'',
      rpc_fn ''fibonacci'' [(''n'', ''u32'')] ''u64'',
      rpc_fn ''is_prime'' [(''n'', ''u64'')] ''bool'',
      rpc_fn ''gcd'' [(''a'', ''u64''), (''b'', ''u64'')] ''u64'']\<rparr>"

definition string_input :: service_input where
  "string_input = \<lparr>in_attribute = Some ''server'', in_keyword = ''service'', in_name = ''StringService'', in_methods =
     [rpc_fn ''reverse'' [(''s'', ''String'')] ''String'',
      rpc_fn ''word_count'' [(''s'', ''String'')] ''u32'',
      rpc_fn ''contains'' [(''haystack'', ''String''), (''needle'', ''String'')] ''bool'']\<rparr>"

text \<open>\<open>is_prime\<close> always returns.\<close>

definition math_impl :: "(val, 'w) service_impl" where
  "math_impl n ctx vals w = (case vals of
      [VU64 a, VU64 b] \<Rightarrow> (VU64 (gcd_loop a b), w)
    | [VU64 k] \<Rightarrow> (if n = ''factorial'' then VU64 (factorial k) else VBool (the (is_prime k)), w)
    | [VU32 k] \<Rightarrow> (VU64 (fibonacci k), w)
    | _ \<Rightarrow> (VBool False, w))"

definition string_impl :: "(val, 'w) service_impl" where
  "string_impl n ctx vals w = (case vals of
      [VStr s] \<Rightarrow> (if n = ''reverse'' then VStr (str_reverse s) else VU32 (word_count s), w)
    | [VStr haystack, VStr needle] \<Rightarrow> (VBool (str_contains haystack needle), w)
    | _ \<Rightarrow> (VBool False, w))"

text \<open>The counter of \<^verbatim>\<open>concurrent_clients.rs\<close>, whose state is the atomic.\<close>

definition counter_input :: service_input where
  "counter_input = \<lparr>in_attribute = None, in_keyword = ''service'', in_name = ''Counter'', in_methods =
     [rpc_fn ''increment'' [] ''u64'', rpc_fn ''get'' [] ''u64'']\<rparr>"

definition counter_impl :: "(val, u64) service_impl" where
  "counter_impl n ctx vals v = (if n = ''increment'' then (VU64 (v + 1), v + 1) else (VU64 v, v))"

text \<open>Echoing, with Unicode's upper-casing as an argument.\<close>

definition echo_input :: service_input where
  "echo_input = \<lparr>in_attribute = Some ''server'', in_keyword = ''service'', in_name = ''Echo'', in_methods =
     [rpc_fn ''echo'' [(''message'', ''String'')] ''String'',
      rpc_fn ''echo_uppercase'' [(''message'', ''String'')] ''String'',
      rpc_fn ''echo_repeat'' [(''message'', ''String''), (''times'', ''u32'')] ''String'',
      rpc_fn ''request_count'' [] ''u64'']\<rparr>"

definition echo_impl :: "(str \<Rightarrow> str) \<Rightarrow> (val, u64) service_impl" where
  "echo_impl str_uppercase n ctx vals v = (case vals of
      [VStr m] \<Rightarrow> (VStr (if n = ''echo'' then m else str_uppercase m), v + 1)
    | [VStr m, VU32 n_times] \<Rightarrow> (VStr (concat (replicate (unat n_times) m)), v + 1)
    | _ \<Rightarrow> (VU64 v, v))"

text \<open>The server of \<^verbatim>\<open>multi_service_server.rs\<close>.\<close>

definition multi_server :: "val struct_encoder \<Rightarrow> val struct_decoder \<Rightarrow> 'w rpc_server_builder" where
  "multi_server enc dec =
     (let math = projr (service_macro math_input); strings = projr (service_macro string_input)
      in service (dispatch enc dec strings string_impl)
          (service (dispatch enc dec math math_impl) (rpc_bind ''127.0.0.1:9004'' rpc_server_builder)))"

subsection \<open>Numbers of services\<close>

lemma service_map_get: "distinct (map fst svcs) \<Longrightarrow> hm_get (service_map svcs) i = map_of svcs i"
proof (induction svcs rule: rev_induct)
  case (snoc p svcs)
  obtain k d where p: "p = (k, d)"
    by fastforce
  then have "map_of svcs k = None"
    using snoc.prems by (auto simp: map_of_eq_None_iff)
  with snoc p show ?case
    by (cases "map_of svcs i") (auto simp: service_map_def hm_simps map_add_def)
qed (simp add: service_map_def)

lemma services_in_order:
  assumes "rb_services b = []" and "rb_next_service_id b = 0"
  shows "rb_services (fold service svcs b) = zip (map of_nat [0..<length svcs]) svcs
    \<and> rb_next_service_id (fold service svcs b) = of_nat (length svcs)"
  using assms
  by (induction svcs rule: rev_induct) (simp_all add: service_def Let_def zip_append)

lemma numbers_distinct: "n \<le> 65536 \<Longrightarrow> distinct (map of_nat [0..<n] :: u16 list)"
  by (auto simp: distinct_map inj_on_def of_nat_u16_eq)

text \<open>Services are numbered in the order in which they are registered, from 0, as the documentation
  of the generated client says; a request for any other number finds no service.\<close>

theorem services_numbered:
  assumes "rpc_build bind_error register_err socks w (fold service svcs (rpc_bind addr rpc_server_builder)) = Inr (R, s)"
    and "length svcs \<le> 65536"
  shows "hm_get (services R) sid = (if unat sid < length svcs then Some (svcs ! unat sid) else None)"
proof -
  let ?n = "length svcs"
  let ?svcs = "zip (map of_nat [0..<?n] :: u16 list) svcs"
  have "services R = service_map (rb_services (fold service svcs (rpc_bind addr rpc_server_builder)))"
    using assms(1) by (auto simp: rpc_build_def Let_def split: sum.splits prod.splits option.splits)
  then have "services R = service_map ?svcs"
    using services_in_order [of "rpc_bind addr rpc_server_builder" svcs]
    by (simp add: rpc_bind_def rpc_server_builder_def rpc_builder_new_def)
  moreover have "distinct (map fst ?svcs)"
    using numbers_distinct [OF assms(2)] by simp
  ultimately have get: "hm_get (services R) sid = map_of ?svcs sid"
    by (simp add: service_map_get)
  show ?thesis
  proof (cases "unat sid < ?n")
    case True
    then have "map_of ?svcs ((map of_nat [0..<?n] :: u16 list) ! unat sid) = Some (svcs ! unat sid)"
      using numbers_distinct [OF assms(2)] by (intro map_of_zip_nth) simp_all
    with True get show ?thesis
      by simp
  next
    case False
    have "sid \<noteq> of_nat i" if "i < ?n" for i
      using that False assms(2) by (auto simp: unat_of_nat take_bit_nat_eq_self)
    then have "sid \<notin> fst ` set ?svcs"
      by (fastforce simp: set_zip)
    with False get show ?thesis
      by (simp add: map_of_eq_None_iff)
  qed
qed

theorem services_numbered_witness:
  "hm_get (services (fst (projr (rpc_build None None (\<lambda>_. fresh_socket []) (0 :: nat)
      (fold service [doubling, doubling] (rpc_bind ''a'' rpc_server_builder)))))) 1 = Some doubling
   \<and> hm_get (services (fst (projr (rpc_build None None (\<lambda>_. fresh_socket []) (0 :: nat)
      (fold service [doubling, doubling] (rpc_bind ''a'' rpc_server_builder)))))) 2 = None"
proof -
  let ?b = "fold service [doubling, doubling] (rpc_bind ''a'' rpc_server_builder)"
  obtain R s where run: "rpc_build None None (\<lambda>_. fresh_socket []) (0 :: nat) ?b = Inr (R, s)"
    by (simp add: rpc_build_def tcp_server_new_def start_def Let_def case_prod_unfold)
  show ?thesis
    unfolding run using services_numbered [OF run, of 1] services_numbered [OF run, of 2] by simp
qed

text \<open>The two services of the example under their numbers.\<close>

lemma multi_server_services:
  assumes "rpc_build bind_error register_err socks w (multi_server enc dec) = Inr (R, s)"
  shows "hm_get (services R) 0 = Some (dispatch enc dec (projr (service_macro math_input)) math_impl)"
    and "hm_get (services R) 1 = Some (dispatch enc dec (projr (service_macro string_input)) string_impl)"
  using assms
  by (auto simp: multi_server_def rpc_build_def service_def rpc_bind_def rpc_server_builder_def
      rpc_builder_new_def service_map_def hm_simps Let_def split: sum.splits prod.splits option.splits)

text \<open>Calls of the counter from any number of clients: the increments return the numbers that follow,
  each once.\<close>

fun counter_run :: "bool list \<Rightarrow> u64 \<Rightarrow> val list \<times> u64" where
  "counter_run [] v = ([], v)"
| "counter_run (inc # incs) v =
     (let (r, v) = counter_impl (if inc then ''increment'' else ''get'') (rpc_context_new 0 0 0) [] v;
          (rs, v) = counter_run incs v
      in ((if inc then [r] else []) @ rs, v))"

lemma counter_counts:
  "counter_run incs v = (map (\<lambda>i. VU64 (v + of_nat i)) [1..<Suc (length (filter id incs))],
     v + of_nat (length (filter id incs)))"
proof (induction incs arbitrary: v)
  case (Cons inc incs)
  have shift: "map (\<lambda>i. VU64 (v + 1 + of_nat i)) [1..<Suc n] = map (\<lambda>i. VU64 (v + of_nat i)) [2..<Suc (Suc n)]" for n
    by (rule nth_equalityI) (simp_all add: algebra_simps del: upt_Suc)
  have "[1..<Suc (Suc n)] = 1 # [2..<Suc (Suc n)]" for n
    by (simp add: upt_rec numeral_2_eq_2)
  with shift Cons show ?case
    by (auto simp: counter_impl_def algebra_simps simp del: upt_Suc)
qed simp

end
