(* ===== verification/Rpc_Workers.thy ===== *)
theory Rpc_Workers
  imports Rpc_Stack
begin

section \<open>The RPC server under several workers\<close>

text \<open>
  The event loop deals the events of a connection to its workers in turn, so two of them may be
  with one connection at the same time. The handler of a connection holds the lock of the stream
  only while it reads, the RPC server the lock of the buffers only while it cuts frames, and the
  lock of the stream again only while it sends. Here these critical sections are the steps of the
  workers: a worker takes an event and reads, puts what it read into the buffer of the connection
  and takes the complete frames out, dispatches a frame, sends the answer. The steps of different
  workers come in any order, and bytes arrive in between. The call of a service is one step.
\<close>

subsection \<open>The stages of an event\<close>

text \<open>Where a worker is in \<open>TcpConnectionHandler::handle_read\<close>, with what it holds: the buffer of
  the pool, which goes back when the function returns, and what the stages below need.\<close>

datatype stage_of_read =
    At_rest
  | Has_read connection_id "unit pooled_object" read_result
  | Has_frames connection_id "unit pooled_object" "frame list"
  | Has_answer connection_id "unit pooled_object" bytes "frame list"

definition take_event :: "connection_id \<Rightarrow> 'w rpc_state \<Rightarrow> stage_of_read \<times> 'w rpc_state" where
  "take_event c s =
     (let (buffer, bp) = acquire (buffer_pool s);
          s = s\<lparr>buffer_pool := bp\<rparr>
      in case buffer of
           Some (Bytes b) \<Rightarrow>
             let (res, k) = sock_read (length b) (sockets s c)
             in (Has_read c buffer res, s\<lparr>sockets := (sockets s)(c := k)\<rparr>)
         | _ \<Rightarrow> (At_rest, s))"

text \<open>\<open>handle_frame\<close> and \<open>handle_request\<close> up to the send: what is to be sent, if anything.\<close>

definition dispatch_frame :: "error_encoder \<Rightarrow> 'w rpc_server_handler \<Rightarrow> frame \<Rightarrow> 'w \<Rightarrow> bytes option \<times> 'w" where
  "dispatch_frame encode_error R f w = (case message_type (header f) of
      Request \<Rightarrow>
        (case parse_request_payload f of
           Inl e \<Rightarrow> (None, w)
         | Inr (rid, sid, mth, args) \<Rightarrow>
             let (result, w) = run_service R rid sid mth args w
             in if is_one_way (flags (header f)) then (None, w)
                else case result of
                  Inr resp_bytes \<Rightarrow> (Some (frame_encode (frame_response rid resp_bytes)), w)
                | Inl rpc_err \<Rightarrow>
                    (case serialize encode_error (server_codec R) rpc_err of
                       Inr b \<Rightarrow> (Some (frame_encode (frame_error rid b)), w)
                     | Inl e \<Rightarrow> (None, w)))
    | Ping \<Rightarrow> (Some (frame_encode frame_pong), w)
    | _ \<Rightarrow> (None, w))"

definition set_app :: "'w \<Rightarrow> 'w rpc_state \<Rightarrow> 'w rpc_state" where
  "set_app w s = s\<lparr>user := (user s)\<lparr>app := w\<rparr>\<rparr>"

definition give_back :: "unit pooled_object \<Rightarrow> 'w rpc_state \<Rightarrow> 'w rpc_state" where
  "give_back buffer s = s\<lparr>buffer_pool := pooled_drop buffer (buffer_pool s)\<rparr>"

fun next_stage :: "error_encoder \<Rightarrow> 'w rpc_server_handler \<Rightarrow> stage_of_read \<Rightarrow> 'w rpc_state
    \<Rightarrow> stage_of_read \<times> 'w rpc_state" where
  "next_stage encode_error R At_rest s = (At_rest, s)"
| "next_stage encode_error R (Has_read c buffer res) s =
     (case res of
        Read (x # xs) \<Rightarrow>
          (let buf = unwrap_or (hm_get (conn_buffers (user s)) (as_u64 c)) [];
               (result, buf) = receive buf (x # xs);
               s = set_buffer c buf s
           in case result of
                Inl e \<Rightarrow> (At_rest, give_back buffer s)
              | Inr frames \<Rightarrow> (Has_frames c buffer frames, s))
      | _ \<Rightarrow> (At_rest, give_back buffer (after_read (rpc_handler encode_error R) c res s)))"
| "next_stage encode_error R (Has_frames c buffer []) s = (At_rest, give_back buffer s)"
| "next_stage encode_error R (Has_frames c buffer (f # fs)) s =
     (case dispatch_frame encode_error R f (app (user s)) of
        (None, w) \<Rightarrow> (Has_frames c buffer fs, set_app w s)
      | (Some bs, w) \<Rightarrow> (Has_answer c buffer bs fs, set_app w s))"
| "next_stage encode_error R (Has_answer c buffer bs fs) s =
     (Has_frames c buffer fs, snd (ctx_send_to c bs s))"

text \<open>The stages one after the other, by a worker alone.\<close>

fun stage_rank :: "stage_of_read \<Rightarrow> nat \<times> nat" where
  "stage_rank At_rest = (0, 0)"
| "stage_rank (Has_read c buffer res) = (2, 0)"
| "stage_rank (Has_frames c buffer fs) = (1, 2 * length fs)"
| "stage_rank (Has_answer c buffer bs fs) = (1, 2 * length fs + 1)"

lemma next_stage_rank:
  "st \<noteq> At_rest \<Longrightarrow> next_stage encode_error R st s = (st', s')
     \<Longrightarrow> (stage_rank st', stage_rank st) \<in> less_than <*lex*> less_than"
  by (cases "(encode_error, R, st, s)" rule: next_stage.cases)
    (auto simp: Let_def split: read_result.splits list.splits prod.splits sum.splits option.splits)

function stages :: "error_encoder \<Rightarrow> 'w rpc_server_handler \<Rightarrow> stage_of_read \<Rightarrow> 'w rpc_state \<Rightarrow> 'w rpc_state" where
  "stages encode_error R st s =
     (if st = At_rest then s
      else case next_stage encode_error R st s of (st', s') \<Rightarrow> stages encode_error R st' s')"
  by pat_completeness auto
termination
  by (relation "inv_image (less_than <*lex*> less_than) (\<lambda>(encode_error, R, st, s). stage_rank st)")
    (auto dest: next_stage_rank [OF _ sym] split: prod.split)

declare stages.simps [simp del]

lemma stages_rest [simp]: "stages encode_error R At_rest s = s"
  by (subst stages.simps) simp

lemma stages_next:
  "st \<noteq> At_rest \<Longrightarrow> stages encode_error R st s
     = (case next_stage encode_error R st s of (st', s') \<Rightarrow> stages encode_error R st' s')"
  by (subst stages.simps) simp

lemma handle_frame_dispatch:
  "handle_frame encode_error R c f s = (case dispatch_frame encode_error R f (app (user s)) of
      (None, w) \<Rightarrow> set_app w s
    | (Some bs, w) \<Rightarrow> snd (ctx_send_to c bs (set_app w s)))"
  by (simp add: handle_frame_def handle_request_def dispatch_frame_def set_app_def Let_def
      split: message_type.split sum.split prod.split)

lemma stages_frames:
  "stages encode_error R (Has_frames c buffer fs) s
     = give_back buffer (fold (handle_frame encode_error R c) fs s)"
  by (induction fs arbitrary: s)
    (simp_all add: stages_next handle_frame_dispatch split: prod.split option.split)

lemma stages_after_read:
  "stages encode_error R (Has_read c buffer res) s
     = give_back buffer (after_read (rpc_handler encode_error R) c res s)"
proof (cases res)
  case (Read d)
  then show ?thesis
    by (cases d) (simp_all add: stages_next stages_frames after_read_def rpc_handler_def default_handler_def
        rpc_on_data_def Let_def split: prod.split sum.split)
qed (simp_all add: stages_next after_read_def)

text \<open>The stages are those of \<open>handle_read\<close>.\<close>

lemma stages_handle_read:
  "(case take_event c s of (st, s') \<Rightarrow> stages encode_error R st s') = handle_read (rpc_handler encode_error R) c s"
  by (simp add: take_event_def handle_read_def stages_after_read give_back_def Let_def
      split: prod.split option.split poolable.split)

subsection \<open>The workers\<close>

text \<open>What happens while they run: bytes arrive, a worker that is done with its last event takes one
  of a connection, a worker goes on by one critical section.\<close>

record 'w crew =
  server :: "'w rpc_state"
  hands :: "stage_of_read list"

datatype work_op = Comes connection_id bytes | Takes nat connection_id | Goes_on nat

fun work_step :: "error_encoder \<Rightarrow> 'w rpc_server_handler \<Rightarrow> work_op \<Rightarrow> 'w crew \<Rightarrow> 'w crew" where
  "work_step encode_error R (Comes c bs) x =
     x\<lparr>server := net_step (config_build config_builder) (rpc_handler encode_error R) (Arrives c bs) (server x)\<rparr>"
| "work_step encode_error R (Takes i c) x =
     (if i < length (hands x) \<and> hands x ! i = At_rest
      then let (st, s) = take_event c (server x) in x\<lparr>server := s, hands := (hands x)[i := st]\<rparr>
      else x)"
| "work_step encode_error R (Goes_on i) x =
     (if i < length (hands x)
      then let (st, s) = next_stage encode_error R (hands x ! i) (server x)
           in x\<lparr>server := s, hands := (hands x)[i := st]\<rparr>
      else x)"

definition work :: "error_encoder \<Rightarrow> 'w rpc_server_handler \<Rightarrow> work_op list \<Rightarrow> 'w crew \<Rightarrow> 'w crew" where
  "work encode_error R ops x = fold (work_step encode_error R) ops x"

fun comes :: "connection_id \<Rightarrow> work_op list \<Rightarrow> bytes" where
  "comes c [] = []"
| "comes c (Comes d bs # ops) = (if d = c then bs @ comes c ops else comes c ops)"
| "comes c (op # ops) = comes c ops"

text \<open>The connection a worker is with. One that has dealt with all its frames only gives its buffer back.\<close>

fun conn_of :: "stage_of_read \<Rightarrow> connection_id option" where
  "conn_of At_rest = None"
| "conn_of (Has_read c buffer res) = Some c"
| "conn_of (Has_frames c buffer fs) = (if fs = [] then None else Some c)"
| "conn_of (Has_answer c buffer bs fs) = Some c"

text \<open>No two workers are with the same connection, through a whole run.\<close>

definition apart :: "stage_of_read list \<Rightarrow> bool" where
  "apart hs \<longleftrightarrow> (\<forall>i < length hs. \<forall>j < length hs. conn_of (hs ! i) = conn_of (hs ! j) \<longrightarrow> conn_of (hs ! i) = None \<or> i = j)"

fun always_apart :: "error_encoder \<Rightarrow> 'w rpc_server_handler \<Rightarrow> work_op list \<Rightarrow> 'w crew \<Rightarrow> bool" where
  "always_apart encode_error R [] x = apart (hands x)"
| "always_apart encode_error R (op # ops) x
     \<longleftrightarrow> apart (hands x) \<and> always_apart encode_error R ops (work_step encode_error R op x)"

text \<open>The frames in the order of their dispatch.\<close>

fun dispatches :: "stage_of_read \<Rightarrow> (connection_id \<times> frame) list" where
  "dispatches (Has_frames c buffer (f # fs)) = [(c, f)]"
| "dispatches st = []"

fun dispatched :: "work_op \<Rightarrow> stage_of_read list \<Rightarrow> (connection_id \<times> frame) list" where
  "dispatched (Goes_on i) hs = (if i < length hs then dispatches (hs ! i) else [])"
| "dispatched op hs = []"

fun dispatch_order :: "error_encoder \<Rightarrow> 'w rpc_server_handler \<Rightarrow> work_op list \<Rightarrow> 'w crew
    \<Rightarrow> (connection_id \<times> frame) list" where
  "dispatch_order encode_error R [] x = []"
| "dispatch_order encode_error R (op # ops) x =
     dispatched op (hands x) @ dispatch_order encode_error R ops (work_step encode_error R op x)"

subsection \<open>A reference server of all connections\<close>

definition of_conn :: "connection_id \<Rightarrow> (connection_id \<times> 'b) list \<Rightarrow> 'b list" where
  "of_conn c ps = map snd (filter (\<lambda>p. fst p = c) ps)"

lemma of_conn_simps [simp]:
  "of_conn c [] = []" "of_conn c ((d, y) # ps) = (if d = c then y # of_conn c ps else of_conn c ps)"
  "of_conn c (ps @ qs) = of_conn c ps @ of_conn c qs"
  "of_conn c (map (Pair d) ys) = (if d = c then ys else [])"
  by (auto simp: of_conn_def filter_empty_conv comp_def)

fun serve_conns :: "error_encoder \<Rightarrow> 'w rpc_server_handler \<Rightarrow> (connection_id \<times> frame) list \<Rightarrow> 'w
    \<Rightarrow> (connection_id \<times> frame) list \<times> 'w" where
  "serve_conns encode_error R [] w = ([], w)"
| "serve_conns encode_error R ((c, f) # ps) w =
     (let (gs, w) = reply encode_error R f w; (hs, w) = serve_conns encode_error R ps w
      in (map (Pair c) gs @ hs, w))"

text \<open>With one connection it is the reference server of \<open>Rpc_Server\<close>.\<close>

lemma serve_conns_one:
  "serve_conns encode_error R (map (Pair c) fs) w
     = (let (gs, w) = serve encode_error R fs w in (map (Pair c) gs, w))"
  by (induction fs arbitrary: w) (simp_all add: Let_def case_prod_unfold)

lemma dispatch_frame_reply:
  "dispatch_frame encode_error R f w
     = (let (gs, w) = reply encode_error R f w in (if gs = [] then None else Some (wire gs), w))"
  by (auto simp: dispatch_frame_def reply_def answer_def wire_def Let_def
      split: message_type.split sum.split prod.split)

subsection \<open>The worker of a connection\<close>

definition hand :: "connection_id \<Rightarrow> stage_of_read list \<Rightarrow> stage_of_read" where
  "hand c hs = (case find (\<lambda>st. conn_of st = Some c) hs of Some st \<Rightarrow> st | None \<Rightarrow> At_rest)"

lemma apart_nth:
  "apart hs \<Longrightarrow> i < length hs \<Longrightarrow> j < length hs \<Longrightarrow> conn_of (hs ! i) = Some c \<Longrightarrow>
     conn_of (hs ! j) = Some c \<Longrightarrow> i = j"
  unfolding apart_def by (metis option.distinct(1))

lemma hand_nth:
  assumes "apart hs" and "i < length hs" and "conn_of (hs ! i) = Some c"
  shows "hand c hs = hs ! i"
proof -
  obtain j where "find (\<lambda>st. conn_of st = Some c) hs = Some (hs ! j)" "j < length hs" "conn_of (hs ! j) = Some c"
    using assms by (cases "find (\<lambda>st. conn_of st = Some c) hs")
      (force simp: find_None_iff in_set_conv_nth, force simp: find_Some_iff)
  with apart_nth [OF assms(1) _ assms(2) _ assms(3)] show ?thesis
    by (auto simp: hand_def)
qed

lemma hand_none:
  assumes "\<forall>i < length hs. conn_of (hs ! i) \<noteq> Some c"
  shows "hand c hs = At_rest"
proof -
  have "find (\<lambda>st. conn_of st = Some c) hs = None"
    using assms unfolding find_None_iff in_set_conv_nth by blast
  then show ?thesis
    by (simp add: hand_def)
qed

lemma hand_update:
  assumes "apart hs" and "apart (hs[i := st])" and "i < length hs"
  shows "hand c (hs[i := st]) = (if conn_of st = Some c then st
    else if conn_of (hs ! i) = Some c then At_rest else hand c hs)"
proof (cases "\<exists>j < length hs. j \<noteq> i \<and> conn_of (hs ! j) = Some c")
  case True
  then obtain j where j: "j < length hs" "j \<noteq> i" "conn_of (hs ! j) = Some c"
    by blast
  then have "hand c hs = hs ! j" "hand c (hs[i := st]) = hs ! j"
    using assms hand_nth [of hs j c] hand_nth [of "hs[i := st]" j c] by simp_all
  moreover have "conn_of (hs ! i) \<noteq> Some c" "conn_of st \<noteq> Some c"
    using j assms apart_nth [of hs i j c] apart_nth [of "hs[i := st]" i j c] by auto
  ultimately show ?thesis
    by simp
next
  case False
  then have none: "conn_of (hs ! i) \<noteq> Some c \<Longrightarrow> hand c hs = At_rest"
    by (intro hand_none) auto
  show ?thesis
  proof (cases "conn_of st = Some c")
    case True
    then show ?thesis
      using assms hand_nth [of "hs[i := st]" i c] by simp
  next
    case no: False
    with False have "\<forall>j < length hs. conn_of (hs[i := st] ! j) \<noteq> Some c"
      by (metis nth_list_update_eq nth_list_update_neq)
    then have "hand c (hs[i := st]) = At_rest"
      by (intro hand_none) simp
    with no none show ?thesis
      by simp
  qed
qed

subsection \<open>What a stage does\<close>

fun in_hand :: "stage_of_read \<Rightarrow> bytes" where
  "in_hand (Has_read c buffer (Read d)) = d"
| "in_hand st = []"

fun to_do :: "stage_of_read \<Rightarrow> frame list" where
  "to_do (Has_frames c buffer fs) = fs"
| "to_do (Has_answer c buffer bs fs) = fs"
| "to_do st = []"

fun to_send :: "stage_of_read \<Rightarrow> bytes" where
  "to_send (Has_answer c buffer bs fs) = bs"
| "to_send st = []"

text \<open>A worker holds a byte buffer, and has read something or found nothing.\<close>

fun usual :: "connection_id set \<Rightarrow> stage_of_read \<Rightarrow> bool" where
  "usual C At_rest = True"
| "usual C (Has_read c buffer res) \<longleftrightarrow> c \<in> C \<and> (\<exists>b. buffer = Some (Bytes b))
     \<and> (case res of Read d \<Rightarrow> d \<noteq> [] | Read_blocked \<Rightarrow> True | Read_failed e \<Rightarrow> False)"
| "usual C (Has_frames c buffer fs) \<longleftrightarrow> c \<in> C \<and> (\<exists>b. buffer = Some (Bytes b))"
| "usual C (Has_answer c buffer bs fs) \<longleftrightarrow> c \<in> C \<and> (\<exists>b. buffer = Some (Bytes b))"

lemma working_user: "working C cap (s\<lparr>user := u\<rparr>) = working C cap s"
  by (simp add: working_def)

lemma working_steps [simp]:
  "working C cap (set_buffer c buf s) = working C cap s" "working C cap (set_app w s) = working C cap s"
  by (simp_all add: set_buffer_def set_app_def working_user)

lemma working_give_back:
  "working C cap s \<Longrightarrow> buffer = Some (Bytes b) \<Longrightarrow> working C cap (give_back buffer s)"
  unfolding give_back_def
  by (rule working_pool) (auto simp: working_def bytes_only_def pooled_drop_def)

lemma step_fields [simp]:
  "sockets (set_buffer c buf s) = sockets s" "app (user (set_buffer c buf s)) = app (user s)"
  "sockets (set_app w s) = sockets s" "app (user (set_app w s)) = w" "kept c (user (set_app w s)) = kept c (user s)"
  "sockets (give_back buffer s) = sockets s" "user (give_back buffer s) = user s"
  "kept d (user (set_buffer c buf s)) = (if d = c then buf else kept d (user s))"
  by (simp_all add: set_buffer_def set_app_def give_back_def kept_def hm_simps as_u64_def unwrap_or_def)

text \<open>No buffer holds a complete frame.\<close>

definition cut :: "'w rpc_state \<Rightarrow> bool" where
  "cut s \<longleftrightarrow> (\<forall>c. frames_of (kept c (user s)) = Inr ([], kept c (user s)))"

lemma cut_user: "user s' = user s \<Longrightarrow> cut s' = cut s"
  by (simp add: cut_def)

text \<open>The state of the server that a step of a worker with connection \<open>d\<close> leaves.\<close>

definition only_at :: "connection_id \<Rightarrow> 'w rpc_state \<Rightarrow> 'w rpc_state \<Rightarrow> bool" where
  "only_at d s s' \<longleftrightarrow> (\<forall>c. incoming (sockets s' c) = incoming (sockets s c))
     \<and> (\<forall>c. c \<noteq> d \<longrightarrow> outgoing (sockets s' c) = outgoing (sockets s c) \<and> kept c (user s') = kept c (user s))"

lemma send_fits:
  assumes "working C cap s" and "d \<in> C" and "length (outgoing (sockets s d) @ bs) \<le> cap d"
  shows "snd (ctx_send_to d bs s) = deliver d bs (user s) s" and "working C cap (deliver d bs (user s) s)"
proof -
  have fits: "length (sent (stream_of s) d) + length bs \<le> cap d"
    using assms(3) by (simp add: stream_of_def)
  show "snd (ctx_send_to d bs s) = deliver d bs (user s) s"
    by (simp add: ctx_send_deliver [OF working_can_send [OF assms(1,2) fits]])
  show "working C cap (deliver d bs (user s) s)"
    by (rule working_deliver [OF assms(1,2) fits])
qed

lemma ctx_send_user [simp]:
  "user (snd (ctx_send_to c bs s)) = user s"
  "incoming (sockets (snd (ctx_send_to c bs s)) d) = incoming (sockets s d)"
  "d \<noteq> c \<Longrightarrow> sockets (snd (ctx_send_to c bs s)) d = sockets s d"
  by (simp_all add: ctx_send_to_def send_to_def write_all_def Let_def split: prod.split option.split)

lemma working_send:
  assumes "working C cap s"
  shows "working C cap (snd (ctx_send_to d bs s))"
  using assms
  by (auto simp: working_def ctx_send_to_def send_to_def write_all_def Let_def split: prod.split option.split)

lemma deliver_fields [simp]:
  "incoming (sockets (deliver d bs u s) c) = incoming (sockets s c)"
  "outgoing (sockets (deliver d bs u s) c) = (if c = d then outgoing (sockets s c) @ bs else outgoing (sockets s c))"
  "user (deliver d bs u s) = u"
  by (simp_all add: deliver_def)

lemma kept_unwrap: "unwrap_or (hm_get (conn_buffers u) (as_u64 c)) [] = kept c u"
  by (simp add: kept_def)

lemma next_stage_keeps:
  assumes "usual C st" and "working C cap s" and "conn_of st = Some d"
    and "next_stage encode_error R st s = (st', s')"
  shows "usual C st' \<and> working C cap s' \<and> conn_of st' \<in> {None, Some d} \<and> only_at d s s'"
proof (cases st)
  case (Has_read c buffer res)
  with assms show ?thesis
    by (cases res; cases "case res of Read d \<Rightarrow> d | _ \<Rightarrow> []")
      (auto simp: receive_frames_of only_at_def after_read_def working_give_back Let_def
        split: sum.splits prod.splits if_splits)
next
  case (Has_frames c buffer fs)
  with assms show ?thesis
    by (cases fs) (auto simp: only_at_def working_give_back split: prod.splits option.splits if_splits)
next
  case (Has_answer c buffer bs fs)
  with assms working_send [of C cap s d bs] show ?thesis
    by (auto simp: only_at_def split: if_splits)
qed (use assms in simp)

lemma next_stage_cut:
  assumes "usual C st" and "working C cap s" and "next_stage encode_error R st s = (st', s')"
    and "cut s"
  shows "cut s'"
proof (cases st)
  case (Has_read c buffer res)
  with assms show ?thesis
    by (cases res; cases "case res of Read d \<Rightarrow> d | _ \<Rightarrow> []")
      (auto simp: receive_frames_of cut_def after_read_def no_frames Let_def dest: frames_of_rest
        split: sum.splits prod.splits)
next
  case (Has_frames c buffer fs)
  with assms show ?thesis
    by (cases fs) (auto simp: cut_def split: prod.splits option.splits)
next
  case (Has_answer c buffer bs fs)
  with assms show ?thesis
    by (auto simp: cut_def)
qed (use assms in simp)

lemma next_stage_frames:
  assumes "usual C st" and "working C cap s" and "conn_of st = Some d"
    and "next_stage encode_error R st s = (st', s')"
    and "frames_of (kept d (user s) @ in_hand st @ q) = Inr (fs, r)"
  shows "\<exists>fs'. frames_of (kept d (user s') @ in_hand st' @ q) = Inr (fs', r)
    \<and> to_do st @ fs = map snd (dispatches st) @ to_do st' @ fs'"
proof (cases st)
  case (Has_read c buffer res)
  show ?thesis
  proof (cases res)
    case (Read bs)
    with Has_read assms obtain x xs where bs: "bs = x # xs" and c: "c = d"
      by (cases bs) auto
    obtain f1 r1 f2 where "frames_of (kept d (user s) @ bs) = Inr (f1, r1)"
        "frames_of (r1 @ q) = Inr (f2, r)" "fs = f1 @ f2"
      using frames_of_split [of "kept d (user s)" "bs @ q" "[]" fs r "length bs"] assms(5) Has_read Read
      by auto
    with assms(4) Has_read Read bs c show ?thesis
      by (auto simp: receive_frames_of kept_unwrap)
  qed (use assms Has_read in \<open>auto simp: after_read_def\<close>)
next
  case (Has_frames c buffer fs)
  with assms show ?thesis
    by (cases fs) (auto split: prod.splits option.splits)
next
  case (Has_answer c buffer bs fs)
  with assms show ?thesis
    by auto
qed (use assms in simp)

lemma next_stage_serves:
  assumes "usual C st" and "working C cap s" and "conn_of st = Some d"
    and "next_stage encode_error R st s = (st', s')"
    and "serve_conns encode_error R (dispatches st) (app (user s)) = (gs, w)"
  shows "app (user s') = w"
    and "length (outgoing (sockets s d) @ to_send st) \<le> cap d \<Longrightarrow>
      outgoing (sockets s' d) @ to_send st' = outgoing (sockets s d) @ to_send st @ wire (of_conn d gs)"
proof -
  have "app (user s') = w \<and> (length (outgoing (sockets s d) @ to_send st) \<le> cap d \<longrightarrow>
      outgoing (sockets s' d) @ to_send st' = outgoing (sockets s d) @ to_send st @ wire (of_conn d gs))"
  proof (cases st)
    case (Has_read c buffer res)
    with assms show ?thesis
      by (cases res; cases "case res of Read d \<Rightarrow> d | _ \<Rightarrow> []")
        (auto simp: receive_frames_of after_read_def Let_def split: sum.splits prod.splits)
  next
    case (Has_frames c buffer fs)
    with assms show ?thesis
      by (cases fs) (auto simp: dispatch_frame_reply Let_def split: prod.splits if_splits)
  next
    case (Has_answer c buffer bs fs)
    with assms send_fits [of C cap s d bs] show ?thesis
      by auto
  qed (use assms in simp)
  then show "app (user s') = w" and "length (outgoing (sockets s d) @ to_send st) \<le> cap d \<Longrightarrow>
      outgoing (sockets s' d) @ to_send st' = outgoing (sockets s d) @ to_send st @ wire (of_conn d gs)"
    by blast+
qed

subsection \<open>What a step of the workers does\<close>

definition at_work :: "connection_id set \<Rightarrow> (connection_id \<Rightarrow> nat) \<Rightarrow> 'w crew \<Rightarrow> bool" where
  "at_work C cap x \<longleftrightarrow> working C cap (server x) \<and> cut (server x) \<and> (\<forall>st \<in> set (hands x). usual C st)"

fun concerns :: "connection_id set \<Rightarrow> work_op \<Rightarrow> bool" where
  "concerns C (Comes c bs) \<longleftrightarrow> c \<in> C"
| "concerns C (Takes i c) \<longleftrightarrow> c \<in> C"
| "concerns C (Goes_on i) \<longleftrightarrow> True"

text \<open>What has arrived for a connection and is not in frames yet, and what is sent on it when the
  worker that is with it has sent its answer.\<close>

definition unframed :: "connection_id \<Rightarrow> 'w crew \<Rightarrow> bytes" where
  "unframed c x = kept c (user (server x)) @ in_hand (hand c (hands x)) @ incoming (sockets (server x) c)"

definition leaves :: "connection_id \<Rightarrow> 'w crew \<Rightarrow> bytes" where
  "leaves c x = outgoing (sockets (server x) c) @ to_send (hand c (hands x))"

text \<open>The effect of a step in these terms: the frames \<open>ps\<close> are dispatched and \<open>gs\<close> are their answers,
  which are sent as long as they fit.\<close>

definition serves :: "connection_id set \<Rightarrow> (connection_id \<Rightarrow> nat) \<Rightarrow> work_op \<Rightarrow> (connection_id \<times> frame) list
    \<Rightarrow> (connection_id \<times> frame) list \<Rightarrow> 'w crew \<Rightarrow> 'w crew \<Rightarrow> bool" where
  "serves C cap op ps gs x x' \<longleftrightarrow> (\<forall>c \<in> C.
     (length (leaves c x) \<le> cap c \<longrightarrow> leaves c x' = leaves c x @ wire (of_conn c gs))
     \<and> (\<forall>q fs r. frames_of (unframed c x @ comes c [op] @ q) = Inr (fs, r) \<longrightarrow>
          (\<exists>fs'. frames_of (unframed c x' @ q) = Inr (fs', r)
             \<and> to_do (hand c (hands x)) @ fs = of_conn c ps @ to_do (hand c (hands x')) @ fs')))"

lemma conn_of_None [simp]:
  "conn_of st = None \<Longrightarrow> in_hand st = [] \<and> to_do st = [] \<and> to_send st = [] \<and> dispatches st = []"
  by (cases st) (auto split: if_splits)

abbreviation or_rest :: "stage_of_read \<Rightarrow> stage_of_read" where
  "or_rest st \<equiv> (if conn_of st = None then At_rest else st)"

lemma or_rest_parts:
  "in_hand (or_rest st) = in_hand st" "to_do (or_rest st) = to_do st" "to_send (or_rest st) = to_send st"
  by simp_all

lemma hand_step:
  assumes "apart hs" and "apart (hs[i := st])" and "i < length hs"
    and "conn_of (hs ! i) = Some d \<or> hs ! i = At_rest \<and> conn_of st = Some d"
    and "conn_of st \<in> {None, Some d}"
  shows "hand d hs = hs ! i" and "hand c (hs[i := st]) = (if c = d then or_rest st else hand c hs)"
proof -
  show d: "hand d hs = hs ! i"
  proof (cases "conn_of (hs ! i) = Some d")
    case True
    with hand_nth [OF assms(1,3)] show ?thesis by simp
  next
    case False
    with assms(4) have rest: "hs ! i = At_rest" "conn_of st = Some d"
      by auto
    have "conn_of (hs ! j) \<noteq> Some d" if "j < length hs" for j
      using that rest assms(3) apart_nth [OF assms(2), of j i d] by (cases "j = i") auto
    with hand_none rest(1) show ?thesis
      by metis
  qed
  show "hand c (hs[i := st]) = (if c = d then or_rest st else hand c hs)"
    unfolding hand_update [OF assms(1-3)] using assms(4,5) d by auto
qed

lemma hand_idle:
  assumes "apart hs" and "apart (hs[i := st])" and "i < length hs" and "conn_of (hs ! i) = None" and "conn_of st = None"
  shows "hand c (hs[i := st]) = hand c hs"
  unfolding hand_update [OF assms(1-3)] using assms(4,5) by simp

lemma take_event_keeps:
  assumes "working C cap s" and "d \<in> C" and "take_event d s = (st, s')"
  shows "usual C st \<and> working C cap s' \<and> conn_of st = Some d \<and> dispatches st = [] \<and> to_do st = []
    \<and> to_send st = [] \<and> user s' = user s \<and> in_hand st @ incoming (sockets s' d) = incoming (sockets s d)
    \<and> (\<forall>c. outgoing (sockets s' c) = outgoing (sockets s c))
    \<and> (\<forall>c. c \<noteq> d \<longrightarrow> incoming (sockets s' c) = incoming (sockets s c))"
proof -
  obtain buffer bp where buf: "acquire (buffer_pool s) = (buffer, bp)"
    by fastforce
  have "bytes_only (buffer_pool s)" "\<not> at_eof (sockets s d)" "read_error (sockets s d) = None"
    using assms(1,2) by (auto simp: working_def)
  note pool = acquire_bytes [OF this(1) buf] and sock = this(2,3)
  then have work: "working C cap (s\<lparr>buffer_pool := bp\<rparr>)"
    using working_pool [OF assms(1)] by simp
  show ?thesis
    using assms buf pool sock work working_incoming [of C cap "s\<lparr>buffer_pool := bp\<rparr>" d]
    by (auto simp: take_event_def sock_read_def IO_BUFFER_SIZE_def Let_def split: if_splits)
qed

lemma takes_serves:
  assumes "at_work C cap x" and "apart (hands x)" and "apart (hands x')" and "d \<in> C"
    and "x' = work_step encode_error R (Takes i d) x"
  shows "at_work C cap x' \<and> app (user (server x')) = app (user (server x)) \<and> serves C cap (Takes i d) [] [] x x'"
proof (cases "i < length (hands x) \<and> hands x ! i = At_rest")
  case True
  obtain st s' where take: "take_event d (server x) = (st, s')"
    by fastforce
  with assms(5) True have x': "x' = x\<lparr>server := s', hands := (hands x)[i := st]\<rparr>"
    by simp
  have "working C cap (server x)"
    using assms(1) by (simp add: at_work_def)
  note keeps = take_event_keeps [OF this assms(4) take]
  have hand: "hand d (hands x) = At_rest" "hand c ((hands x)[i := st]) = (if c = d then st else hand c (hands x))" for c
    using hand_step(1) [OF assms(2), of i st d] hand_step(2) [OF assms(2), of i st d c] True keeps assms(3) x'
    by simp_all
  have "unframed c x' = unframed c x" "leaves c x' = leaves c x"
      "to_do (hand c (hands x')) = to_do (hand c (hands x))" for c
    using keeps hand(1) x' by (auto simp: unframed_def leaves_def hand(2))
  then show ?thesis
    using keeps assms(1) x'
    by (auto simp: at_work_def serves_def cut_user [of s' "server x"] dest: set_update_subset_insert [THEN subsetD])
qed (use assms in \<open>auto simp: serves_def\<close>)

lemma comes_serves:
  assumes "at_work C cap x" and "x' = work_step encode_error R (Comes d bs) x"
  shows "at_work C cap x' \<and> app (user (server x')) = app (user (server x)) \<and> serves C cap (Comes d bs) [] [] x x'"
  using assms by (auto simp: at_work_def serves_def leaves_def unframed_def working_incoming cut_def)

lemma wire_nothing: "of_conn c ps = [] \<Longrightarrow> wire (of_conn c ps) = []"
  by simp

lemma dispatches_conn: "conn_of st = Some d \<Longrightarrow> dispatches st = map (Pair d) (map snd (dispatches st))"
  by (cases st rule: dispatches.cases) auto

lemma idle_goes_on:
  assumes "at_work C cap x" and "apart (hands x)" and "apart (hands x')"
    and "x' = work_step encode_error R (Goes_on i) x"
    and "\<not> (i < length (hands x) \<and> conn_of (hands x ! i) \<noteq> None)"
  shows "at_work C cap x' \<and> app (user (server x')) = app (user (server x)) \<and> serves C cap (Goes_on i) [] [] x x'"
proof (cases "i < length (hands x)")
  case True
  let ?st = "hands x ! i"
  have idle: "conn_of ?st = None" and "usual C ?st" and work: "working C cap (server x)"
    using assms(1,5) True by (auto simp: at_work_def)
  then obtain s' where step: "next_stage encode_error R ?st (server x) = (At_rest, s')" and
      s': "s' = server x \<or> (\<exists>b. s' = give_back (Some (Bytes b)) (server x))"
    by (cases ?st) (auto split: if_splits)
  with assms(4) True have x': "x' = x\<lparr>server := s', hands := (hands x)[i := At_rest]\<rparr>"
    by simp
  have "hand c ((hands x)[i := At_rest]) = hand c (hands x)" for c
    using hand_idle [OF assms(2) _ True idle, of At_rest c] assms(3) x' by simp
  moreover have "working C cap s' \<and> user s' = user (server x) \<and> sockets s' = sockets (server x)"
    using s' work by (auto intro: working_give_back)
  ultimately show ?thesis
    using assms(1) x' by (auto simp: at_work_def serves_def unframed_def leaves_def cut_user [of s' "server x"]
        dest: set_update_subset_insert [THEN subsetD])
qed (use assms in \<open>auto simp: serves_def\<close>)

lemma goes_on_serves:
  assumes "at_work C cap x" and "apart (hands x)" and "apart (hands x')"
    and "serve_conns encode_error R (dispatched (Goes_on i) (hands x)) (app (user (server x))) = (gs, w)"
    and "x' = work_step encode_error R (Goes_on i) x"
  shows "at_work C cap x' \<and> app (user (server x')) = w \<and> serves C cap (Goes_on i) (dispatched (Goes_on i) (hands x)) gs x x'"
proof (cases "i < length (hands x) \<and> conn_of (hands x ! i) \<noteq> None")
  case False
  then have "dispatched (Goes_on i) (hands x) = []"
    by auto
  moreover from this have "gs = []" "w = app (user (server x))"
    using assms(4) by simp_all
  ultimately show ?thesis
    using idle_goes_on [OF assms(1-3,5) False] by simp
next
  case True
  let ?st = "hands x ! i"
  obtain d where d: "conn_of ?st = Some d"
    using True by auto
  obtain st s' where step: "next_stage encode_error R ?st (server x) = (st, s')"
    by fastforce
  with assms(5) True have x': "x' = x\<lparr>server := s', hands := (hands x)[i := st]\<rparr>"
    by simp
  have usual: "usual C ?st" and work: "working C cap (server x)"
    using assms(1) True by (auto simp: at_work_def)
  then have dC: "d \<in> C"
    using d by (cases ?st) (auto split: if_splits)
  have hd: "hand d (hands x) = ?st"
    using hand_nth [OF assms(2) _ d] True by simp
  note keeps = next_stage_keeps [OF usual work d step]
  have hand: "hand c ((hands x)[i := st]) = (if c = d then or_rest st else hand c (hands x))" for c
    using hand_step(2) [OF assms(2), of i st d c] True keeps assms(3) x' d by auto
  have disp: "dispatched (Goes_on i) (hands x) = dispatches ?st"
    using True by simp
  from assms(4) have serve: "serve_conns encode_error R (dispatches ?st) (app (user (server x))) = (gs, w)"
    unfolding disp .
  note answers = next_stage_serves [OF usual work d step serve]
  obtain fs where fs: "dispatches ?st = map (Pair d) fs"
    using dispatches_conn [OF d] by blast
  have gs: "of_conn c gs = []" and ps: "of_conn c (dispatches ?st) = []" if "c \<noteq> d" for c
    using serve fs that by (auto simp: serve_conns_one Let_def case_prod_unfold)
  have here: "of_conn d (dispatches ?st) = map snd (dispatches ?st)"
    by (simp add: fs comp_def)
  have "at_work C cap x'"
    using assms(1) keeps next_stage_cut [OF usual work step] x'
    by (auto simp: at_work_def dest: set_update_subset_insert [THEN subsetD])
  moreover have "serves C cap (Goes_on i) (dispatches ?st) gs x x'"
    unfolding serves_def
  proof (intro ballI conjI allI impI)
    fix c
    assume "length (leaves c x) \<le> cap c"
    then show "leaves c x' = leaves c x @ wire (of_conn c gs)"
      using answers keeps gs [of c] hd by (auto simp: leaves_def hand x' only_at_def)
  next
    fix c q fs r
    assume "frames_of (unframed c x @ comes c [Goes_on i] @ q) = Inr (fs, r)"
    then have frames: "frames_of (unframed c x @ q) = Inr (fs, r)"
      by simp
    show "\<exists>fs'. frames_of (unframed c x' @ q) = Inr (fs', r)
        \<and> to_do (hand c (hands x)) @ fs = of_conn c (dispatches ?st) @ to_do (hand c (hands x')) @ fs'"
    proof (cases "c = d")
      case True
      then show ?thesis
        using next_stage_frames [OF usual work d step, of "incoming (sockets (server x) d) @ q" fs r]
          frames keeps here hd by (auto simp: unframed_def hand x' only_at_def)
    next
      case False
      then show ?thesis
        using frames keeps ps [of c] by (auto simp: unframed_def hand x' only_at_def)
    qed
  qed
  ultimately show ?thesis
    using answers(1) x' disp by simp
qed

lemma work_step_serves:
  assumes "at_work C cap x" and "concerns C op" and "apart (hands x)" and "apart (hands x')"
    and "serve_conns encode_error R (dispatched op (hands x)) (app (user (server x))) = (gs, w)"
    and "x' = work_step encode_error R op x"
  shows "at_work C cap x' \<and> app (user (server x')) = w \<and> serves C cap op (dispatched op (hands x)) gs x x'"
proof (cases op)
  case (Comes d bs)
  with assms comes_serves [of C cap x x' encode_error R d bs] show ?thesis
    by simp
next
  case (Takes i d)
  with assms takes_serves [of C cap x x' d encode_error R i] show ?thesis
    by simp
next
  case (Goes_on i)
  with assms goes_on_serves [of C cap x x' encode_error R i gs w] show ?thesis
    by simp
qed

subsection \<open>What a run does\<close>

lemma serve_conns_append:
  "serve_conns encode_error R (ps @ qs) w =
     (let (gs, w) = serve_conns encode_error R ps w; (hs, w) = serve_conns encode_error R qs w in (gs @ hs, w))"
  by (induction ps arbitrary: w) (auto simp: Let_def case_prod_unfold)

lemma comes_Cons: "comes c (op # ops) = comes c [op] @ comes c ops"
  by (cases op) auto

lemma work_Cons: "work encode_error R (op # ops) x = work encode_error R ops (work_step encode_error R op x)"
  by (simp add: work_def)

lemma always_apart_first: "always_apart encode_error R ops x \<Longrightarrow> apart (hands x)"
  by (cases ops) auto

lemma work_serves:
  assumes "at_work C cap x" and "\<forall>op \<in> set ops. concerns C op" and "always_apart encode_error R ops x"
    and "serve_conns encode_error R (dispatch_order encode_error R ops x) (app (user (server x))) = (gs, w)"
    and "c \<in> C" and "frames_of (unframed c x @ comes c ops) = Inr (fs, r)"
  shows "at_work C cap (work encode_error R ops x) \<and> app (user (server (work encode_error R ops x))) = w
    \<and> (length (leaves c x @ wire (of_conn c gs)) \<le> cap c \<longrightarrow>
         leaves c (work encode_error R ops x) = leaves c x @ wire (of_conn c gs))
    \<and> (\<exists>fs'. frames_of (unframed c (work encode_error R ops x)) = Inr (fs', r)
         \<and> to_do (hand c (hands x)) @ fs = of_conn c (dispatch_order encode_error R ops x)
             @ to_do (hand c (hands (work encode_error R ops x))) @ fs')"
  using assms
proof (induction ops arbitrary: x gs fs)
  case Nil
  then show ?case
    by (auto simp: work_def)
next
  case (Cons op ops)
  let ?x = "work_step encode_error R op x"
  obtain g1 w1 where one: "serve_conns encode_error R (dispatched op (hands x)) (app (user (server x))) = (g1, w1)"
    by fastforce
  obtain g2 where rest: "serve_conns encode_error R (dispatch_order encode_error R ops ?x) w1 = (g2, w)"
      and gs: "gs = g1 @ g2"
    using Cons.prems(4) one by (auto simp: serve_conns_append Let_def split: prod.splits)
  from Cons.prems(1-3) one always_apart_first [of encode_error R ops ?x]
  have step: "at_work C cap ?x" "app (user (server ?x)) = w1" "serves C cap op (dispatched op (hands x)) g1 x ?x"
    using work_step_serves [of C cap x op ?x encode_error R g1 w1] by simp_all
  have leaves: "length (leaves c x) \<le> cap c \<Longrightarrow> leaves c ?x = leaves c x @ wire (of_conn c g1)"
    using step(3) Cons.prems(5) by (simp add: serves_def)
  obtain f1 where f1: "frames_of (unframed c ?x @ comes c ops) = Inr (f1, r)"
      "to_do (hand c (hands x)) @ fs = of_conn c (dispatched op (hands x)) @ to_do (hand c (hands ?x)) @ f1"
    using step(3) Cons.prems(5,6) unfolding serves_def comes_Cons [of c op ops] by blast
  from Cons.IH [OF step(1) _ _ _ Cons.prems(5) f1(1), of g2] Cons.prems(2,3) step(2) rest f1(2) leaves gs
  show ?case
    by (fastforce simp: work_Cons)
qed

text \<open>Workers that have their own connections, one for each connection, are always apart, so a single
  worker is.\<close>

definition minds :: "(connection_id \<Rightarrow> nat) \<Rightarrow> stage_of_read list \<Rightarrow> bool" where
  "minds worker_of hs \<longleftrightarrow> (\<forall>i < length hs. \<forall>c. conn_of (hs ! i) = Some c \<longrightarrow> worker_of c = i)"

lemma minds_apart: "minds worker_of hs \<Longrightarrow> apart hs"
  unfolding minds_def apart_def by (metis not_None_eq)

lemma minds_update:
  "minds worker_of hs \<Longrightarrow> (\<And>c. conn_of st = Some c \<Longrightarrow> worker_of c = i) \<Longrightarrow> minds worker_of (hs[i := st])"
  unfolding minds_def by (metis length_list_update nth_list_update_eq nth_list_update_neq)

lemma next_stage_conn: "next_stage encode_error R st s = (st', s') \<Longrightarrow> conn_of st' \<in> {None, conn_of st}"
  by (cases "(encode_error, R, st, s)" rule: next_stage.cases)
    (auto simp: Let_def split: read_result.splits list.splits prod.splits sum.splits option.splits if_splits)

lemma take_event_conn: "take_event d s = (st, s') \<Longrightarrow> conn_of st \<in> {None, Some d}"
  by (auto simp: take_event_def Let_def split: prod.splits option.splits poolable.splits)

lemma work_step_minds:
  assumes "minds worker_of (hands x)" and "\<And>i c. op = Takes i c \<Longrightarrow> worker_of c = i"
  shows "minds worker_of (hands (work_step encode_error R op x))"
proof (cases op)
  case (Takes i d)
  obtain st s' where "take_event d (server x) = (st, s')"
    by fastforce
  with take_event_conn [OF this] assms Takes show ?thesis
    by (auto intro: minds_update)
next
  case (Goes_on i)
  obtain st s' where step: "next_stage encode_error R (hands x ! i) (server x) = (st, s')"
    by fastforce
  with next_stage_conn [OF step] assms(1) Goes_on show ?thesis
    by (auto intro!: minds_update) (simp add: minds_def)
qed (use assms in simp)

lemma minds_always_apart:
  "minds worker_of (hands x) \<Longrightarrow> \<forall>op \<in> set ops. \<forall>i c. op = Takes i c \<longrightarrow> worker_of c = i \<Longrightarrow>
     always_apart encode_error R ops x"
proof (induction ops arbitrary: x)
  case (Cons op ops)
  then show ?case
    using minds_apart work_step_minds [of worker_of x op encode_error R] by auto
qed (auto intro: minds_apart)

text \<open>From rest to rest.\<close>

lemma served_in_order:
  assumes "working C cap (server x)" and "hands x = replicate n At_rest"
    and "\<forall>c. kept c (user (server x)) = []" and "\<forall>c \<in> C. incoming (sockets (server x) c) = []"
    and "\<forall>op \<in> set ops. concerns C op" and "always_apart encode_error R ops x"
    and "serve_conns encode_error R (dispatch_order encode_error R ops x) (app (user (server x))) = (gs, w)"
    and "x' = work encode_error R ops x"
    and "\<forall>st \<in> set (hands x'). st = At_rest" and "\<forall>c \<in> C. incoming (sockets (server x') c) = []"
    and "c \<in> C" and "frames_of (comes c ops) = Inr (fs, r)"
  shows "of_conn c (dispatch_order encode_error R ops x) = fs"
    and "kept c (user (server x')) = r" and "app (user (server x')) = w"
    and "length (outgoing (sockets (server x) c) @ wire (of_conn c gs)) \<le> cap c \<Longrightarrow>
      outgoing (sockets (server x') c) = outgoing (sockets (server x) c) @ wire (of_conn c gs)"
proof -
  have rest: "hand c hs = At_rest" if "\<forall>st \<in> set hs. st = At_rest" for c hs
    using that by (intro hand_none) (metis conn_of.simps(1) nth_mem option.distinct(1))
  have at: "at_work C cap x"
    using assms(1-3) by (auto simp: at_work_def cut_def no_frames)
  have hand: "hand d (hands x) = At_rest" "hand d (hands x') = At_rest" for d
    using rest assms(2,9) by auto
  have "frames_of (unframed c x @ comes c ops) = Inr (fs, r)"
    using assms(3,4,11,12) hand by (simp add: unframed_def)
  from work_serves [OF at assms(5-7,11) this, folded assms(8)]
  obtain fs' where run: "at_work C cap x'" "app (user (server x')) = w"
      "length (leaves c x @ wire (of_conn c gs)) \<le> cap c \<Longrightarrow> leaves c x' = leaves c x @ wire (of_conn c gs)"
      "frames_of (unframed c x') = Inr (fs', r)" "fs = of_conn c (dispatch_order encode_error R ops x) @ fs'"
    using hand by auto
  have "frames_of (kept c (user (server x'))) = Inr (fs', r)"
    using run(4) assms(10,11) hand by (simp add: unframed_def)
  with run(1) have "fs' = []" "kept c (user (server x')) = r"
    by (auto simp: at_work_def cut_def)
  with run hand show "of_conn c (dispatch_order encode_error R ops x) = fs"
      "kept c (user (server x')) = r" "app (user (server x')) = w"
      "length (outgoing (sockets (server x) c) @ wire (of_conn c gs)) \<le> cap c \<Longrightarrow>
        outgoing (sockets (server x') c) = outgoing (sockets (server x) c) @ wire (of_conn c gs)"
    by (simp_all add: leaves_def)
qed

text \<open>C32: While no two workers are with the same connection, the RPC server serves what its
  connections send as if it took one frame at a time. Bytes arrive at any time and in any pieces,
  and the workers go through their reads, their work on the buffers, their dispatches and their
  sends in any order. When they are at rest and everything has been read, the frames have been
  served in the order of their dispatch; those of each connection come in it in the order in which
  they were sent, every connection has got the answers to its own frames in that order, what it
  has sent of an incomplete frame is kept, and the application is as after serving that one list.
  A connection whose send buffer is too small gets less; the others do not feel it.\<close>

theorem workers_serve_in_order:
  assumes "working C cap (server x)" and "hands x = replicate n At_rest"
    and "\<forall>c. kept c (user (server x)) = []" and "\<forall>c \<in> C. incoming (sockets (server x) c) = []"
    and "\<forall>op \<in> set ops. concerns C op" and "always_apart encode_error R ops x"
    and "serve_conns encode_error R (dispatch_order encode_error R ops x) (app (user (server x))) = (gs, w)"
    and "x' = work encode_error R ops x"
    and "\<forall>st \<in> set (hands x'). st = At_rest" and "\<forall>c \<in> C. incoming (sockets (server x') c) = []"
    and "c \<in> C" and "frames_of (comes c ops) = Inr (fs, r)"
    and "length (outgoing (sockets (server x) c) @ wire (of_conn c gs)) \<le> cap c"
  shows "of_conn c (dispatch_order encode_error R ops x) = fs
    \<and> outgoing (sockets (server x') c) = outgoing (sockets (server x) c) @ wire (of_conn c gs)
    \<and> kept c (user (server x')) = r \<and> app (user (server x')) = w"
  using served_in_order [OF assms(1-12)] assms(13) by simp

text \<open>Two connections and two workers, whose stages alternate.\<close>

definition crew_at :: "'w \<Rightarrow> 'w crew" where
  "crew_at w = \<lparr>server = \<lparr>
       connections = hm_insert 2 \<lparr>conn_token = 2, conn_peer = ''q''\<rparr> (hm_insert 1 \<lparr>conn_token = 1, conn_peer = ''p''\<rparr> []),
       counter = 2, next_conn_id = 3, buffer_pool = object_pool_new 20 (Bytes []), has_server = True,
       has_loop = True, loop_alive = True,
       poll = \<lparr>registry = hm_insert 2 \<lparr>handler = Connection 2,
           entry_interest = \<lparr>wants_readable = True, wants_writable = True\<rparr>\<rparr> (hm_insert 1 \<lparr>handler = Connection 1,
           entry_interest = \<lparr>wants_readable = True, wants_writable = True\<rparr>\<rparr> [])\<rparr>,
       sockets = (\<lambda>_. sample_socket), backlog = [],
       user = \<lparr>conn_buffers = hm_insert 2 [] (hm_insert 1 [] []), app = w\<rparr>\<rparr>,
     hands = [At_rest, At_rest]\<rparr>"

lemma crew_fields:
  "bytes_only (buffer_pool (server (crew_at w)))" "sockets (server (crew_at w)) = (\<lambda>_. sample_socket)"
  "kept c (user (server (crew_at w))) = []" "app (user (server (crew_at w))) = w" "hands (crew_at w) = [At_rest, At_rest]"
  "hm_get (connections (server (crew_at w))) 1 \<noteq> None" "has_server (server (crew_at w))"
  by (simp_all add: crew_at_def bytes_only_def object_pool_new_def kept_def hm_simps as_u64_def unwrap_or_def)

lemma crew_working: "working {1, 2} (\<lambda>_. 65536) (server (crew_at w))"
  by (simp add: crew_at_def working_def sample_socket_def bytes_only_def object_pool_new_def hm_simps as_u64_def)

lemma crew_start:
  "hands (crew_at w) = replicate 2 At_rest" "\<forall>c. kept c (user (server (crew_at w))) = []"
  "\<forall>c \<in> C. incoming (sockets (server (crew_at w)) c) = []" "outgoing (sockets (server (crew_at w)) c) = []"
  by (simp_all add: crew_fields sample_socket_def numeral_2_eq_2)

lemma next_stage_read:
  "d \<noteq> [] \<Longrightarrow> frames_of (kept c (user s) @ d) = Inr (fs, r) \<Longrightarrow>
     next_stage encode_error R (Has_read c buffer (Read d)) s = (Has_frames c buffer fs, set_buffer c r s)"
  "d \<noteq> [] \<Longrightarrow> frames_of (kept c (user s) @ d) = Inl e \<Longrightarrow>
     next_stage encode_error R (Has_read c buffer (Read d)) s = (At_rest, give_back buffer (set_buffer c [] s))"
  by (cases d; simp add: receive_frames_of kept_unwrap)+

lemma take_event_some:
  assumes "bytes_only (buffer_pool s)" and "read_error (sockets s c) = None" and "incoming (sockets s c) = d"
    and "d \<noteq> []" and "length d \<le> 8192"
  shows "take_event c s = (Has_read c (Some (Bytes (replicate IO_BUFFER_SIZE 0))) (Read d),
    s\<lparr>buffer_pool := snd (acquire (buffer_pool s)), sockets := (sockets s)(c := (sockets s c)\<lparr>incoming := []\<rparr>)\<rparr>)"
  using assms acquire_bytes [OF assms(1), of "fst (acquire (buffer_pool s))" "snd (acquire (buffer_pool s))"]
  by (auto simp: take_event_def sock_read_def IO_BUFFER_SIZE_def Let_def split: prod.split)

lemma step_pools [simp]:
  "bytes_only p \<Longrightarrow> bytes_only (snd (acquire p))"
  "bytes_only (buffer_pool s) \<Longrightarrow> bytes_only (buffer_pool (give_back (Some (Bytes b)) s))"
  "buffer_pool (set_buffer c buf s) = buffer_pool s" "buffer_pool (set_app w s) = buffer_pool s"
  "buffer_pool (snd (ctx_send_to c bs s)) = buffer_pool s"
  using acquire_bytes [of p "fst (acquire p)" "snd (acquire p)"]
  by (auto simp: give_back_def pooled_drop_def bytes_only_def set_buffer_def set_app_def ctx_send_to_def
      send_to_def write_all_def Let_def split: prod.split option.split)

lemmas crew_eval = crew_fields(1-5) take_event_some sample_socket_def next_stage_read dispatch_frame_reply

definition both_at_once :: "bytes \<Rightarrow> bytes \<Rightarrow> work_op list" where
  "both_at_once e1 e2 = [Comes 1 e1, Comes 2 e2, Takes 0 1, Takes 1 2, Goes_on 1, Goes_on 0,
     Goes_on 0, Goes_on 1, Goes_on 1, Goes_on 0, Goes_on 0, Goes_on 1]"

lemma both_at_once_facts:
  "\<forall>op \<in> set (both_at_once e1 e2). concerns {1, 2} op" "comes 1 (both_at_once e1 e2) = e1"
  "comes 2 (both_at_once e1 e2) = e2" "always_apart encode_error R (both_at_once e1 e2) (crew_at w)"
proof -
  have "minds (\<lambda>c. if c = 1 then 0 else 1) (hands (crew_at w))"
    by (simp add: minds_def crew_fields nth_Cons')
  then show "always_apart encode_error R (both_at_once e1 e2) (crew_at w)"
    by (rule minds_always_apart) (auto simp: both_at_once_def)
qed (simp_all add: both_at_once_def)

lemma both_at_once_run:
  assumes "frames_of e1 = Inr ([f1], [])" and "frames_of e2 = Inr ([f2], [])"
    and "e1 \<noteq> []" and "e2 \<noteq> []" and "length e1 \<le> 8192" and "length e2 \<le> 8192"
    and "reply encode_error R f1 w = ([g1], w1)" and "reply encode_error R f2 w1 = ([g2], w2)"
  defines "ops \<equiv> both_at_once e1 e2"
  shows "dispatch_order encode_error R ops (crew_at w) = [(1, f1), (2, f2)]"
    and "hands (work encode_error R ops (crew_at w)) = [At_rest, At_rest]"
    and "incoming (sockets (server (work encode_error R ops (crew_at w))) c) = []"
  using assms(1-8) by (simp_all add: ops_def both_at_once_def work_def crew_eval del: next_stage.simps(2))

lemma length_ping: "length (frame_encode frame_ping) = 9" "length (frame_encode frame_pong) = 9"
  by (simp_all add: frame_encode_def HEADER_SIZE_def frame_ping_def frame_pong_def)

lemma ping_frames: "frames_of (frame_encode frame_ping) = Inr ([frame_ping], [])"
  using frames_of_complete [of "[frame_ping]" "[]"]
  by (simp add: next_frame_def HEADER_SIZE_def wf_frame_def wf_header_def frame_ping_def)

lemma ping_reply: "reply encode_error R frame_ping w = ([frame_pong], w)"
  by (simp add: reply_def frame_ping_def)

theorem workers_serve_in_order_witness:
  "outgoing (sockets (server (work no_encoder sample_rpc
      (both_at_once (frame_encode frame_ping) (frame_encode (frame_request 5 0 0 [7] False))) (crew_at 0))) 2)
    = frame_encode (frame_response 5 [7, 7])"
proof -
  let ?q = "frame_request 5 0 0 [7] False"
  let ?ops = "both_at_once (frame_encode frame_ping) (frame_encode ?q)"
  note run = both_at_once_run [where encode_error = no_encoder and R = sample_rpc and w = 0,
      OF ping_frames parse_two [of "[7]" 5 0 0 False] _ _ _ _ ping_reply sample_reply]
  have order: "dispatch_order no_encoder sample_rpc ?ops (crew_at 0) = [(1, frame_ping), (2, ?q)]"
    and rest: "hands (work no_encoder sample_rpc ?ops (crew_at 0)) = [At_rest, At_rest]"
      "incoming (sockets (server (work no_encoder sample_rpc ?ops (crew_at 0))) c) = []" for c
    using run by (simp_all add: length_ping length_small_frames)
  have serve: "serve_conns no_encoder sample_rpc (dispatch_order no_encoder sample_rpc ?ops (crew_at 0))
      (app (user (server (crew_at 0)))) = ([(1, frame_pong), (2, frame_response 5 [7, 7])], 1)"
    by (simp add: order ping_reply sample_reply crew_fields)
  show ?thesis
    using workers_serve_in_order [OF crew_working crew_start(1-3) both_at_once_facts(1,4) serve refl, of 2 "[?q]" "[]"] rest
    by (simp add: both_at_once_facts parse_two crew_start(4) wire_def length_small_frames)
qed

subsection \<open>Reads that overlap\<close>

lemma step_connections [simp]:
  "connections (set_buffer c buf s) = connections s" "has_server (set_buffer c buf s) = has_server s"
  "connections (set_app w s) = connections s" "has_server (set_app w s) = has_server s"
  "connections (give_back b s) = connections s" "has_server (give_back b s) = has_server s"
  by (simp_all add: set_buffer_def set_app_def give_back_def)

lemma ctx_send_outgoing:
  "hm_get (connections s) c \<noteq> None \<Longrightarrow> has_server s \<Longrightarrow> write_error (sockets s c) = None \<Longrightarrow>
     length bs \<le> room (sockets s c) \<Longrightarrow> outgoing (sockets (snd (ctx_send_to c bs s)) c) = outgoing (sockets s c) @ bs"
  using ctx_send_deliver [of c bs s] by (simp add: can_send_def)

definition in_turn :: "bytes \<Rightarrow> work_op list" where
  "in_turn e = [Comes 1 (take 4 e), Takes 0 1, Goes_on 0, Goes_on 0, Comes 1 (drop 4 e), Takes 1 1,
     Goes_on 1, Goes_on 1, Goes_on 1, Goes_on 1]"

definition overlapping :: "bytes \<Rightarrow> work_op list" where
  "overlapping e = [Comes 1 (take 4 e), Takes 0 1, Comes 1 (drop 4 e), Takes 1 1, Goes_on 1, Goes_on 1, Goes_on 0]"

lemma ping_bytes: "frame_encode frame_ping = [0x4D, 0x52, 1, 0, 4, 0, 0, 0, 0]"
  by code_simp

lemma ping_pieces:
  "frames_of [0x4D, 0x52, 1, 0] = Inr ([], [0x4D, 0x52, 1, 0])" "frames_of [4, 0, 0, 0, 0] = Inr ([], [4, 0, 0, 0, 0])"
  "\<exists>e. frames_of [4, 0, 0, 0, 0, 0x4D, 0x52, 1, 0] = Inl e"
  by (simp_all add: next_frame_def HEADER_SIZE_def header_decode_def MAGIC_def)

text \<open>The workers have to be apart. Below a ping arrives in two pieces, and the second is read by the
  other worker before the first has put its own into the buffer: the buffer gets them in the wrong
  order, no frame is found and both are thrown away, while the same pieces read in turn are
  answered.\<close>

theorem overlapping_reads_lose_request:
  defines "one \<equiv> work no_encoder sample_rpc (in_turn (frame_encode frame_ping)) (crew_at 0)"
    and "two \<equiv> work no_encoder sample_rpc (overlapping (frame_encode frame_ping)) (crew_at 0)"
  shows "comes 1 (in_turn (frame_encode frame_ping)) = frame_encode frame_ping
    \<and> outgoing (sockets (server one) 1) = frame_encode frame_pong
    \<and> comes 1 (overlapping (frame_encode frame_ping)) = frame_encode frame_ping
    \<and> outgoing (sockets (server two) 1) = [] \<and> incoming (sockets (server two) 1) = []
    \<and> kept 1 (user (server two)) = [] \<and> hands two = [At_rest, At_rest]"
proof -
  obtain e where swapped: "frames_of [4, 0, 0, 0, 0, 0x4D, 0x52, 1, 0] = Inl e"
    using ping_pieces(3) by blast
  have whole: "frames_of [0x4D, 0x52, 1, 0, 4, 0, 0, 0, 0] = Inr ([frame_ping], [])"
    using ping_frames by (simp add: ping_bytes)
  note eval = in_turn_def overlapping_def work_def crew_eval ping_bytes ping_pieces(1,2) whole swapped ping_reply
  have "outgoing (sockets (server one) 1) = frame_encode frame_pong"
    using crew_fields(6,7) [of "0 :: nat"] by (simp add: one_def eval ctx_send_outgoing wire_def length_ping del: next_stage.simps(2))
  moreover have "outgoing (sockets (server two) 1) = [] \<and> incoming (sockets (server two) 1) = []
      \<and> kept 1 (user (server two)) = [] \<and> hands two = [At_rest, At_rest]"
    by (simp add: two_def eval del: next_stage.simps(2))
  ultimately show ?thesis
    by (simp add: in_turn_def overlapping_def)
qed

end
