(* ===== verification/Counter_Clients.thy ===== *)
theory Counter_Clients
  imports Rpc_Services Rpc_Workers
begin

section \<open>Concurrent clients of a counter\<close>

text \<open>
  \<^verbatim>\<open>mill-rpc/examples/concurrent_clients.rs\<close>: clients that call \<open>increment\<close> of one server at the
  same time, over the workers of \<open>Rpc_Workers\<close>. The example asserts that the values that all calls
  returned are distinct; here they are the numbers from 1, each once.
\<close>

subsection \<open>The server\<close>

definition counter_def :: service_def where
  "counter_def = \<lparr>sd_mode = Both, sd_name = ''Counter'', sd_methods =
     [\<lparr>md_name = ''increment'', md_args = [], md_return = ''u64''\<rparr>,
      \<lparr>md_name = ''get'', md_args = [], md_return = ''u64''\<rparr>]\<rparr>"

definition counter_server :: "val struct_encoder \<Rightarrow> val struct_decoder \<Rightarrow> u64 rpc_server_builder" where
  "counter_server enc dec =
     service (dispatch enc dec (projr (service_macro counter_input)) counter_impl)
       (rpc_bind ''127.0.0.1:9005'' rpc_server_builder)"

abbreviation increment_fn :: method_def where
  "increment_fn \<equiv> sd_methods counter_def ! 0"

lemma counter_parsed: "service_macro counter_input = Inr (generate_service_module counter_def)"
  by (simp add: service_macro_def counter_input_def rpc_fn_def parse_service_def parse_mode_def counter_def_def)

lemma counter_generated: "generates [Both, Server_only] counter_def (generate_service_module counter_def)"
  by (simp add: generates_def compiles_def module_defs counter_def_def Let_def
      to_uppercase_def to_pascal_case_def capitalize_def upper_def is_lower_def char_of_eq_iff)

text \<open>The service under its number.\<close>

lemma counter_server_service:
  assumes "rpc_build bind_error register_err socks w (counter_server enc dec) = Inr (R, s)"
  shows "hm_get (services R) 0 = Some (dispatch enc dec (projr (service_macro counter_input)) counter_impl)"
  using assms
  by (auto simp: counter_server_def rpc_build_def service_def rpc_bind_def rpc_server_builder_def
      rpc_builder_new_def service_map_def hm_simps Let_def split: sum.splits prod.splits option.splits)

lemma increment_runs:
  assumes "lossless enc dec" and "enc (req_name increment_fn, []) = Inr body"
    and "enc (resp_name increment_fn, [VU64 (v + 1)]) = Inr b"
  shows "dispatch enc dec (projr (service_macro counter_input)) counter_impl ctx 0 body cd v = (Inr b, v + 1)"
  using dispatch_method [OF counter_generated _ _ assms(1) _ assms(2), of counter_impl ctx v "VU64 (v + 1)" "v + 1" cd]
    assms(3)
  by (simp add: counter_parsed counter_def_def counter_impl_def serialize_cases)

lemma increment_reply:
  assumes "lossless enc dec" and "enc (req_name increment_fn, []) = Inr body"
    and "enc (resp_name increment_fn, [VU64 (v + 1)]) = Inr b"
    and "hm_get (services R) 0 = Some (dispatch enc dec (projr (service_macro counter_input)) counter_impl)"
  shows "reply encode_error R (frame_request rid 0 0 body False) v = ([frame_response rid b], v + 1)"
  by (simp add: reply_request run_service_def assms(4) increment_runs [OF assms(1-3)] answer_def)

subsection \<open>Numbers handed out\<close>

fun numbers :: "u64 \<Rightarrow> nat \<Rightarrow> u64 list" where
  "numbers v 0 = []"
| "numbers v (Suc n) = (v + 1) # numbers (v + 1) n"

lemma numbers_upt: "numbers v n = map (\<lambda>i. v + of_nat i) [1..<Suc n]"
proof (induction n arbitrary: v)
  case (Suc n)
  have "map (\<lambda>i. v + 1 + of_nat i) [1..<Suc n] = map (\<lambda>i. v + of_nat i) [2..<Suc (Suc n)]"
    by (rule nth_equalityI) (simp_all add: algebra_simps del: upt_Suc)
  moreover have "[1..<Suc (Suc n)] = 1 # [2..<Suc (Suc n)]"
    by (simp add: upt_rec numeral_2_eq_2)
  ultimately show ?case
    using Suc by simp
qed simp

lemma length_numbers [simp]: "length (numbers v n) = n"
  by (induction n arbitrary: v) auto

lemma serve_increments:
  assumes "\<And>rid v. reply encode_error R (f rid) v = ([g rid (v + 1)], v + 1)"
  shows "serve_conns encode_error R (map (apsnd f) ps) v
    = (map2 (\<lambda>(c, rid) u. (c, g rid u)) ps (numbers v (length ps)), v + of_nat (length ps))"
  by (induction ps arbitrary: v) (auto simp: assms)

lemma of_conn_map2:
  "length ps = length us \<Longrightarrow> of_conn c (map2 (\<lambda>(c, rid) u. (c, g rid u)) ps us)
     = map2 g (of_conn c ps) (of_conn c (zip (map fst ps) us))"
  by (induction ps us rule: list_induct2) auto

lemma of_conn_map [simp]: "of_conn c (map (apsnd f) ps) = map f (of_conn c ps)"
  by (induction ps) auto

lemma of_conn_length: "length ps = length us \<Longrightarrow> length (of_conn c (zip (map fst ps) us)) = length (of_conn c ps)"
  by (induction ps us rule: list_induct2) auto

lemma of_conn_mset:
  "distinct cs \<Longrightarrow> fst ` set ps \<subseteq> set cs \<Longrightarrow> mset (concat (map (\<lambda>c. of_conn c ps) cs)) = mset (map snd ps)"
proof (induction ps)
  case Nil
  then show ?case by (induction cs) auto
next
  case (Cons p ps)
  obtain c y where p: "p = (c, y)"
    by fastforce
  have "mset (concat (map (\<lambda>d. of_conn d (p # ps)) ds))
      = mset (concat (map (\<lambda>d. of_conn d ps) ds)) + (if c \<in> set ds then {#y#} else {#})" if "distinct ds" for ds
    using that by (induction ds) (auto simp: p)
  with Cons p show ?case
    by auto
qed

lemma all_of_form: "\<forall>(c, y) \<in> set qs. \<exists>z. y = f z \<Longrightarrow> \<exists>ps. qs = map (apsnd f) ps"
proof (induction qs)
  case (Cons q qs)
  obtain c z where q: "q = apsnd f (c, z)"
    using Cons.prems by (cases q) auto
  from Cons obtain ps where "qs = map (apsnd f) ps"
    by auto
  with q show ?case
    by (intro exI [of _ "(c, z) # ps"]) simp
qed simp

text \<open>Requests of the form \<open>f rid\<close> that are answered by \<open>g rid v\<close> with the next number.\<close>

lemma numbers_shared:
  assumes "serve_conns encode_error R order 0 = (gs, w :: u64)"
    and "\<And>rid v. reply encode_error R (f rid) v = ([g rid (v + 1)], v + 1)" and "inj f"
    and "distinct cs" and "fst ` set order \<subseteq> set cs" and "\<And>c. c \<in> set cs \<Longrightarrow> of_conn c order = map f (rids c)"
    and "n_calls = sum_list (map (\<lambda>c. length (rids c)) cs)"
  shows "w = of_nat n_calls \<and> (\<exists>vals. mset (concat (map vals cs)) = mset (map of_nat [1..<Suc n_calls])
    \<and> (\<forall>c \<in> set cs. length (vals c) = length (rids c) \<and> of_conn c gs = map2 g (rids c) (vals c)))"
proof -
  have "\<exists>rid. y = f rid" if "(c, y) \<in> set order" for c y
  proof -
    have "c \<in> set cs" "y \<in> set (of_conn c order)"
      using assms(5) that by (force, force simp: of_conn_def)
    with assms(6) show ?thesis
      by auto
  qed
  with all_of_form [of order f] obtain ps where order: "order = map (apsnd f) ps"
    by blast
  let ?us = "numbers 0 (length ps)"
  define vals where "vals c = of_conn c (zip (map fst ps) ?us)" for c
  have ids: "of_conn c ps = rids c" if "c \<in> set cs" for c
    using assms(6) [OF that] assms(3) by (simp add: order inj_map_eq_map)
  have conns: "fst ` set ps \<subseteq> set cs"
    using assms(5) by (auto simp: order image_image)
  have "fst ` set (zip (map fst ps) ?us) \<subseteq> set cs"
    using conns by (force dest: set_zip_leftD)
  from of_conn_mset [OF assms(4) this] have vals: "mset (concat (map vals cs)) = mset ?us"
    by (simp add: vals_def [abs_def] mset_map [symmetric] del: mset_map)
  have len: "length (vals c) = length (rids c)" if "c \<in> set cs" for c
    using ids [OF that] by (simp add: vals_def of_conn_length)
  have "length (concat (map vals cs)) = sum_list (map (\<lambda>c. length (rids c)) cs)"
    using len by (simp add: length_concat comp_def cong: map_cong)
  with mset_eq_length [OF vals] assms(7) have n: "length ps = n_calls"
    by simp
  have "gs = map2 (\<lambda>(c, rid) u. (c, g rid u)) ps ?us" "w = of_nat n_calls"
    using assms(1) serve_increments [of encode_error R f g ps 0] assms(2) n by (simp_all add: order)
  with ids vals len n show ?thesis
    by (intro conjI exI [of _ vals]) (simp_all add: numbers_upt of_conn_map2 vals_def)
qed

text \<open>Frames are dispatched of connections that have a worker only.\<close>

lemma dispatch_order_conns:
  assumes "\<forall>st \<in> set (hands x). \<forall>c. conn_of st = Some c \<longrightarrow> c \<in> C" and "\<forall>op \<in> set ops. concerns C op"
  shows "fst ` set (dispatch_order encode_error R ops x) \<subseteq> C"
  using assms
proof (induction ops arbitrary: x)
  case (Cons op ops)
  let ?x = "work_step encode_error R op x"
  have "\<forall>st \<in> set (hands ?x). \<forall>c. conn_of st = Some c \<longrightarrow> c \<in> C"
  proof (cases op)
    case (Takes i d)
    obtain st s' where "take_event d (server x) = (st, s')"
      by fastforce
    with take_event_conn [OF this] Cons.prems Takes show ?thesis
      by (auto dest!: set_update_subset_insert [THEN subsetD])
  next
    case (Goes_on i)
    obtain st s' where step: "next_stage encode_error R (hands x ! i) (server x) = (st, s')"
      by fastforce
    show ?thesis
    proof (cases "i < length (hands x)")
      case True
      then have "\<forall>c. conn_of st = Some c \<longrightarrow> c \<in> C"
        using next_stage_conn [OF step] Cons.prems(1) nth_mem [OF True] by fastforce
      with step Goes_on True Cons.prems(1) show ?thesis
        by (auto dest!: set_update_subset_insert [THEN subsetD])
    qed (use Goes_on Cons.prems in simp)
  qed (use Cons.prems in simp)
  moreover have "fst ` set (dispatched op (hands x)) \<subseteq> C"
  proof (cases op)
    case (Goes_on i)
    then show ?thesis
      using Cons.prems(1) nth_mem [of i "hands x"] by (cases "hands x ! i" rule: dispatches.cases) fastforce+
  qed auto
  ultimately show ?case
    using Cons.IH [of ?x] Cons.prems(2) by (simp add: image_Un)
qed simp

lemma short_responses:
  "length rids = length vals \<Longrightarrow> (\<And>v. v \<in> set vals \<Longrightarrow> length (resp v) \<le> k) \<Longrightarrow>
     length (wire (map2 (\<lambda>rid v. frame_response rid (resp v)) rids vals)) \<le> (17 + k) * length rids"
proof (induction rids vals rule: list_induct2)
  case (Cons rid rids v vals)
  then have "length (resp v) \<le> k" "length (wire (map2 (\<lambda>rid v. frame_response rid (resp v)) rids vals)) \<le> (17 + k) * length rids"
    by simp_all
  then show ?case
    by (simp add: wire_def length_small_frames)
qed (simp add: wire_def)

lemma counts_distinct: "n < 2 ^ 64 \<Longrightarrow> distinct (map of_nat [1..<Suc n] :: u64 list)"
  by (auto simp: distinct_map inj_on_def word_of_nat_eq_iff take_bit_nat_eq_self simp del: upt_Suc)

subsection \<open>No update is lost\<close>



end
