(* ===== verification/Client_Scripts.thy ===== *)
theory Client_Scripts
  imports Rpc_Services
begin

section \<open>The clients of the examples\<close>

text \<open>
  \<^verbatim>\<open>mill-rpc/examples/calculator_*.rs\<close>, \<^verbatim>\<open>echo_client.rs\<close>, \<^verbatim>\<open>kv_client.rs\<close> and
  \<^verbatim>\<open>multi_service_client.rs\<close>: each client makes a fixed series of calls through its stubs and
  unwraps every result. A script is such a series; a call in it goes through the stub, the service
  that the server has under the number and back, the transport between them being that of
  \<open>Rpc_Stack\<close>. What is printed is left out, the values that are printed are the results.
\<close>

subsection \<open>Scripts\<close>

text \<open>A call: the number of the service, the position of the method, the arguments.\<close>

type_synonym 'v call = "u16 \<times> nat \<times> 'v list"

text \<open>The values that the calls return until one fails, whose \<open>unwrap\<close> panics with the error.\<close>

fun run_script :: "'v struct_encoder \<Rightarrow> 'v struct_decoder \<Rightarrow> codec \<Rightarrow> 'w rpc_server_handler
    \<Rightarrow> (u16 \<Rightarrow> service_module) \<Rightarrow> 'v call list \<Rightarrow> u64 \<Rightarrow> 'w \<Rightarrow> 'v list \<times> rpc_error option \<times> 'w" where
  "run_script enc dec cd R stubs [] rid w = ([], None, w)"
| "run_script enc dec cd R stubs ((sid, i, vals) # calls) rid w =
     (let cm = the (module_client (stubs sid)) ! i in
      case stub_request enc (stubs sid) cd cm vals of
        Inl e \<Rightarrow> ([], Some e, w)
      | Inr (mth, args) \<Rightarrow>
          (let (resp, w) = run_service R rid sid mth args w in
           case stub_response dec cd cm resp of
             Inl e \<Rightarrow> ([], Some e, w)
           | Inr v \<Rightarrow> (let (vs, e, w) = run_script enc dec cd R stubs calls (rid + 1) w in (v # vs, e, w))))"

text \<open>The same calls made of the implementations directly.\<close>

fun call_impls :: "(u16 \<Rightarrow> service_def) \<Rightarrow> (u16 \<Rightarrow> ('v, 'w) service_impl) \<Rightarrow> 'v call list \<Rightarrow> u64 \<Rightarrow> 'w \<Rightarrow> 'v list \<times> 'w" where
  "call_impls defs impls [] rid w = ([], w)"
| "call_impls defs impls ((sid, i, vals) # calls) rid w =
     (let (v, w) = impls sid (md_name (sd_methods (defs sid) ! i)) (rpc_context_new rid sid (of_nat i)) vals w;
          (vs, w) = call_impls defs impls calls (rid + 1) w
      in (v # vs, w))"

text \<open>A call that fits: the server has the service, the client its stubs, the method exists and gets as
  many arguments as it has.\<close>

definition offered :: "'v struct_encoder \<Rightarrow> 'v struct_decoder \<Rightarrow> 'w rpc_server_handler \<Rightarrow> (u16 \<Rightarrow> service_module)
    \<Rightarrow> (u16 \<Rightarrow> service_def) \<Rightarrow> (u16 \<Rightarrow> ('v, 'w) service_impl) \<Rightarrow> 'v call \<Rightarrow> bool" where
  "offered enc dec R stubs defs impls c \<longleftrightarrow> (case c of (sid, i, vals) \<Rightarrow>
     (\<exists>m. hm_get (services R) sid = Some (dispatch enc dec m (impls sid)) \<and> generates [Both, Server_only] (defs sid) m)
     \<and> (\<exists>d. generates [Both, Client_only] d (stubs sid) \<and> sd_methods d = sd_methods (defs sid))
     \<and> length (sd_methods (defs sid)) \<le> 65536 \<and> i < length (sd_methods (defs sid))
     \<and> length vals = length (md_args (sd_methods (defs sid) ! i)))"

lemma client_generated: "generates [Both, Client_only] d m \<Longrightarrow> module_client m = Some (client_methods (sd_methods d))"
  by (auto simp: generates_def generate_service_module_def Let_def)

text \<open>A script returns what the implementations return for the same arguments, in order, and no
  \<open>unwrap\<close> fails.\<close>

theorem script_returns:
  assumes "lossless enc dec" and "\<And>x. \<exists>b. enc x = Inr b"
    and "\<forall>c \<in> set calls. offered enc dec R stubs defs impls c"
    and "call_impls defs impls calls rid w = (vs, w')"
  shows "run_script enc dec (server_codec R) R stubs calls rid w = (vs, None, w')"
  using assms(3,4)
proof (induction calls arbitrary: rid w vs)
  case (Cons c calls)
  obtain sid i vals where c: "c = (sid, i, vals)"
    by (cases c) auto
  let ?mt = "sd_methods (defs sid) ! i" and ?ctx = "rpc_context_new rid sid (of_nat i)"
  from Cons.prems(1) obtain m d where server: "hm_get (services R) sid = Some (dispatch enc dec m (impls sid))"
      "generates [Both, Server_only] (defs sid) m"
    and client: "generates [Both, Client_only] d (stubs sid)" "sd_methods d = sd_methods (defs sid)"
    and fits: "length (sd_methods (defs sid)) \<le> 65536" "i < length (sd_methods (defs sid))"
      "length vals = length (md_args ?mt)"
    by (auto simp: offered_def c)
  obtain v w1 where run: "impls sid (md_name ?mt) ?ctx vals w = (v, w1)"
    by fastforce
  obtain args resp where enc: "enc (req_name ?mt, vals) = Inr args" "enc (resp_name ?mt, [v]) = Inr resp"
    using assms(2) by blast
  let ?cms = "client_methods (sd_methods (defs sid))"
  have cms: "module_client (stubs sid) = Some ?cms"
    using client_generated [OF client(1)] client(2) by simp
  note stub = stub_method [OF client(1) _ cms, of i, unfolded client(2), OF fits(2)]
  have "stub_request enc (stubs sid) (server_codec R) (?cms ! i) vals = Inr (of_nat i, args)"
    using stub(2) [OF fits(3), of enc] enc(1) by (simp add: serialize_cases)
  moreover have "run_service R rid sid (of_nat i) args w = (Inr resp, w1)"
    using dispatch_method [OF server(2) fits(1,2) assms(1) fits(3) enc(1), of "impls sid" ?ctx w v w1 "server_codec R"]
      run enc(2) by (simp add: run_service_def server(1) serialize_cases)
  moreover have "stub_response dec (server_codec R) (?cms ! i) (Inr resp) = Inr v"
    using deserialize_lossless [OF assms(1) enc(2)] by (simp add: stub_response_def stub(1))
  moreover obtain vs' where "call_impls defs impls calls (rid + 1) w1 = (vs', w')" "vs = v # vs'"
    using Cons.prems(2) run c by (auto split: prod.splits)
  ultimately show ?case
    using Cons.IH [of "rid + 1" w1 vs'] Cons.prems(1) c cms by simp
qed simp

subsection \<open>The declarations\<close>

definition as_client :: "service_input \<Rightarrow> service_input" where
  "as_client inp = inp\<lparr>in_attribute := Some ''client''\<rparr>"

text \<open>What the macro reads of a declaration.\<close>

definition declared :: "service_input \<Rightarrow> service_def" where
  "declared inp = projr (parse_service inp)"

definition macro_of :: "service_input \<Rightarrow> service_module" where
  "macro_of inp = projr (service_macro inp)"

definition well_declared :: "service_input \<Rightarrow> bool" where
  "well_declared inp \<longleftrightarrow> generates [Both, Server_only] (declared inp) (macro_of inp)
     \<and> generates [Both, Client_only] (declared (as_client inp)) (macro_of (as_client inp))
     \<and> sd_methods (declared (as_client inp)) = sd_methods (declared inp)
     \<and> length (sd_methods (declared inp)) \<le> 65536"

lemmas declaration_defs = well_declared_def declared_def macro_of_def as_client_def service_macro_def
  parse_service_def parse_mode_def rpc_fn_def generates_def compiles_def module_defs Let_def
  to_uppercase_def to_pascal_case_def capitalize_def upper_def is_lower_def char_of_eq_iff

lemma echo_declared: "well_declared echo_input"
  by (simp add: declaration_defs echo_input_def)

lemma kv_declared: "well_declared kv_input"
  by (simp add: declaration_defs kv_input_def)

lemma math_declared: "well_declared math_input" "well_declared string_input"
  by (simp_all add: declaration_defs math_input_def string_input_def)

lemma offered_declared:
  assumes "well_declared inp" and "hm_get (services R) sid = Some (dispatch enc dec (macro_of inp) (impls sid))"
    and "defs sid = declared inp" and "stubs sid = macro_of (as_client inp)"
    and "i < length (sd_methods (declared inp))" and "length vals = length (md_args (sd_methods (declared inp) ! i))"
  shows "offered enc dec R stubs defs impls (sid, i, vals)"
  using assms by (auto simp: offered_def well_declared_def)

text \<open>A server with one service, which gets the number 0.\<close>

definition one_service :: "string \<Rightarrow> service_input \<Rightarrow> 'v struct_encoder \<Rightarrow> 'v struct_decoder \<Rightarrow> ('v, 'w) service_impl
    \<Rightarrow> 'w rpc_server_builder" where
  "one_service addr inp enc dec svc = service (dispatch enc dec (macro_of inp) svc) (rpc_bind addr rpc_server_builder)"

lemma one_service_get:
  "rpc_build bind_error register_err socks w (one_service addr inp enc dec svc) = Inr (R, s) \<Longrightarrow>
     hm_get (services R) 0 = Some (dispatch enc dec (macro_of inp) svc)"
  using services_numbered [of bind_error register_err socks w "[dispatch enc dec (macro_of inp) svc]" addr R s 0]
  by (simp add: one_service_def)

text \<open>A script for one service.\<close>

lemma one_service_script:
  assumes "lossless enc dec" and "\<And>x. \<exists>b. enc x = Inr b" and "well_declared inp"
    and "rpc_build bind_error register_err socks w0 (one_service addr inp enc dec svc) = Inr (R, s)"
    and "\<forall>(i, vals) \<in> set calls. i < length (sd_methods (declared inp))
      \<and> length vals = length (md_args (sd_methods (declared inp) ! i))"
    and "call_impls (\<lambda>_. declared inp) (\<lambda>_. svc) (map (Pair 0) calls) rid w = (vs, w')"
  shows "run_script enc dec (server_codec R) R (\<lambda>_. macro_of (as_client inp)) (map (Pair 0) calls) rid w = (vs, None, w')"
proof -
  have "offered enc dec R (\<lambda>_. macro_of (as_client inp)) (\<lambda>_. declared inp) (\<lambda>_. svc) c"
    if "c \<in> set (map (Pair 0) calls)" for c
    using that assms(5) one_service_get [OF assms(4)] by (auto intro!: offered_declared [OF assms(3)])
  with script_returns [OF assms(1,2) _ assms(6)] show ?thesis
    by blast
qed

subsection \<open>The calculator\<close>

definition calculator_input :: service_input where
  "calculator_input = \<lparr>in_attribute = Some ''server'', in_keyword = ''service'', in_name = ''Calculator'', in_methods =
     [rpc_fn ''add'' [(''a'', ''i32''), (''b'', ''i32'')] ''i32'',
      rpc_fn ''subtract'' [(''a'', ''i32''), (''b'', ''i32'')] ''i32'',
      rpc_fn ''multiply'' [(''a'', ''i64''), (''b'', ''i64'')] ''i64'',
      rpc_fn ''divide'' [(''a'', ''f64''), (''b'', ''f64'')] ''f64'',
      rpc_fn ''negate'' [(''x'', ''i32'')] ''i32'']\<rparr>"

definition calculator_client_input :: service_input where
  "calculator_client_input = as_client calculator_input"

text \<open>What the example uses of floating point is an argument.\<close>

record 'f floats =
  f_literal :: "int \<Rightarrow> 'f"
  f_eq :: "'f \<Rightarrow> 'f \<Rightarrow> bool"
  f_div :: "'f \<Rightarrow> 'f \<Rightarrow> 'f"
  f_nan :: 'f

datatype 'f calc_val = I32 i32 | I64 i64 | F64 'f

definition calc_divide :: "'f floats \<Rightarrow> 'f \<Rightarrow> 'f \<Rightarrow> 'f" where
  "calc_divide F a b = (if f_eq F b (f_literal F 0) then f_nan F else f_div F a b)"

definition calc_impl :: "'f floats \<Rightarrow> ('f calc_val, 'w) service_impl" where
  "calc_impl F n ctx vals w = (case vals of
      [I32 a, I32 b] \<Rightarrow> (if n = ''add'' then I32 (a + b) else I32 (a - b), w)
    | [I64 a, I64 b] \<Rightarrow> (I64 (a * b), w)
    | [F64 a, F64 b] \<Rightarrow> (F64 (calc_divide F a b), w)
    | [I32 x] \<Rightarrow> (I32 (- x), w)
    | _ \<Rightarrow> (I32 0, w))"

definition calculator_server :: "'f calc_val struct_encoder \<Rightarrow> 'f calc_val struct_decoder \<Rightarrow> 'f floats
    \<Rightarrow> 'w rpc_server_builder" where
  "calculator_server enc dec F = one_service ''127.0.0.1:9001'' calculator_input enc dec (calc_impl F)"

definition calculator_calls :: "'f floats \<Rightarrow> 'f calc_val call list" where
  "calculator_calls F = map (Pair 0)
     [(0, [I32 10, I32 25]), (1, [I32 100, I32 42]), (2, [I64 7, I64 8]),
      (3, [F64 (f_literal F 355), F64 (f_literal F 113)]), (4, [I32 42]),
      (3, [F64 (f_literal F 1), F64 (f_literal F 0)])]"

lemma calculator_declared: "well_declared calculator_input"
  by (simp add: declaration_defs calculator_input_def)

text \<open>The client gets the results, \<open>NaN\<close> for the division by zero.\<close>

theorem calculator_client_returns:
  assumes "lossless enc dec" and "\<And>x. \<exists>b. enc x = Inr b"
    and "rpc_build bind_error register_err socks w0 (calculator_server enc dec F) = Inr (R, s)"
    and "f_eq F (f_literal F 0) (f_literal F 0)" and "\<not> f_eq F (f_literal F 113) (f_literal F 0)"
  shows "run_script enc dec (server_codec R) R (\<lambda>_. macro_of calculator_client_input) (calculator_calls F) rid w
    = ([I32 35, I32 58, I64 56, F64 (f_div F (f_literal F 355) (f_literal F 113)), I32 (- 42), F64 (f_nan F)], None, w)"
  unfolding calculator_calls_def calculator_client_input_def
  by (rule one_service_script [OF assms(1,2) calculator_declared assms(3) [unfolded calculator_server_def]])
    (use assms(4,5) in \<open>auto simp: declared_def calculator_input_def parse_service_def parse_mode_def rpc_fn_def
      calc_impl_def calc_divide_def Let_def\<close>)

subsection \<open>Echoing\<close>

definition echo_server_of :: "val struct_encoder \<Rightarrow> val struct_decoder \<Rightarrow> (str \<Rightarrow> str) \<Rightarrow> u64 rpc_server_builder" where
  "echo_server_of enc dec str_uppercase = one_service ''127.0.0.1:9002'' echo_input enc dec (echo_impl str_uppercase)"

definition echo_client_input :: service_input where
  "echo_client_input = as_client echo_input"

definition echo_calls :: "val call list" where
  "echo_calls = map (Pair 0)
     [(0, [VStr (lit ''Hello, Mill-RPC!'')]), (1, [VStr (lit ''hello world'')]),
      (2, [VStr (lit ''ha''), VU32 3]), (3, [])]"

lemma ha_repeated: "concat (replicate 3 (lit ''ha'')) = lit ''hahaha''"
proof -
  have "replicate 3 x = [x, x, x]" for x :: str
    by (simp add: numeral_3_eq_3)
  then show ?thesis
    by (simp add: lit_def)
qed

text \<open>The assertions of the client hold when it is the first one of the server.\<close>

theorem echo_client_returns:
  assumes "lossless enc dec" and "\<And>x. \<exists>b. enc x = Inr b"
    and "rpc_build bind_error register_err socks 0 (echo_server_of enc dec str_uppercase) = Inr (R, s)"
    and "str_uppercase (lit ''hello world'') = lit ''HELLO WORLD''"
  shows "run_script enc dec (server_codec R) R (\<lambda>_. macro_of echo_client_input) echo_calls rid 0
    = ([VStr (lit ''Hello, Mill-RPC!''), VStr (lit ''HELLO WORLD''), VStr (lit ''hahaha''), VU64 3], None, 3)"
  unfolding echo_calls_def echo_client_input_def
  by (rule one_service_script [OF assms(1,2) echo_declared assms(3) [unfolded echo_server_of_def]])
    (use assms(4) in \<open>auto simp: declared_def echo_input_def parse_service_def parse_mode_def rpc_fn_def
      echo_impl_def ha_repeated Let_def\<close>)

subsection \<open>The key-value store\<close>

definition kv_server_of :: "val struct_encoder \<Rightarrow> val struct_decoder \<Rightarrow> kv_store rpc_server_builder" where
  "kv_server_of enc dec = one_service ''127.0.0.1:9003'' kv_input enc dec kv_impl"

definition kv_client_calls :: "val call list" where
  "kv_client_calls = map (Pair 0 \<circ> kv_call)
     [Kv_len, Kv_set (lit ''name'') (lit ''Alice''), Kv_set (lit ''city'') (lit ''Berlin''),
      Kv_set (lit ''lang'') (lit ''Rust''), Kv_get (lit ''name''), Kv_get (lit ''missing''), Kv_keys,
      Kv_set (lit ''name'') (lit ''Bob''), Kv_delete (lit ''city''), Kv_len, Kv_clear]"

lemma kv_client_as: "kv_client_input = as_client kv_input"
  by (simp add: kv_client_input_def as_client_def)

text \<open>The store is empty again at the end; the order of the keys is that of the model, and the client
  sorts them.\<close>

theorem kv_client_returns:
  assumes "lossless enc dec" and "\<And>x. \<exists>b. enc x = Inr b"
    and "rpc_build bind_error register_err socks kv_new (kv_server_of enc dec) = Inr (R, s)"
  shows "run_script enc dec (server_codec R) R (\<lambda>_. macro_of kv_client_input) kv_client_calls rid kv_new
    = ([VU64 0, VOpt None, VOpt None, VOpt None, VOpt (Some (lit ''Alice'')), VOpt None,
        VStrs [lit ''name'', lit ''city'', lit ''lang''], VOpt (Some (lit ''Alice'')), VBool True, VU64 2, VU64 2], None, kv_new)"
  unfolding kv_client_calls_def kv_client_as map_map [symmetric]
  by (rule one_service_script [OF assms(1,2) kv_declared assms(3) [unfolded kv_server_of_def]])
    (auto simp: declared_def kv_input_def parse_service_def parse_mode_def rpc_fn_def
      kv_impl_def kv_get_def kv_set_def kv_delete_def kv_keys_def kv_len_def kv_clear_def kv_new_def
      hm_get_def hm_insert_def hm_remove_def lit_inject Let_def)

subsection \<open>Two services\<close>

definition multi_calls :: "val call list" where
  "multi_calls = [(0, 0, [VU64 10]), (0, 1, [VU32 20]), (0, 2, [VU64 2]), (0, 2, [VU64 7]), (0, 2, [VU64 15]),
     (0, 2, [VU64 17]), (0, 3, [VU64 48, VU64 18]), (1, 0, [VStr (lit ''Hello, World!'')]),
     (1, 1, [VStr (lit ''The quick brown fox'')]), (1, 2, [VStr (lit ''rustacean''), VStr (lit ''rust'')])]"

definition math_client_input :: service_input where
  "math_client_input = as_client math_input"

definition string_client_input :: service_input where
  "string_client_input = as_client string_input"

definition multi_stubs :: "u16 \<Rightarrow> service_module" where
  "multi_stubs sid = macro_of (if sid = 0 then math_client_input else string_client_input)"

lemma small_primes: "is_prime 2 = Some True" "is_prime 7 = Some True" "is_prime 15 = Some False" "is_prime 17 = Some True"
  by (simp_all add: is_prime_def prime_loop.simps)

lemma gcd_example: "gcd_loop 48 18 = 6"
  by (simp add: gcd_loop.simps)

lemma arithmetic_examples: "factorial 10 = 3628800" "fibonacci 20 = 6765"
  by code_simp+

lemma four_words: "word_count (lit ''The quick brown fox'') = 4"
  by (simp add: word_count_def split_whitespace_def white_space_def lit_def)

lemma rust_contained: "str_contains (lit ''rustacean'') (lit ''rust'')"
proof -
  have "lit ''rustacean'' = [] @ lit ''rust'' @ lit ''acean''"
    by (simp add: lit_def)
  then show ?thesis
    unfolding str_contains_sublist by (simp only: sublist_appendI)
qed

text \<open>Both clients share one transport; the numbers of the services are those of \<open>multi_server\<close>.\<close>

theorem multi_client_returns:
  assumes "lossless enc dec" and "\<And>x. \<exists>b. enc x = Inr b"
    and "rpc_build bind_error register_err socks w0 (multi_server enc dec) = Inr (R, s)"
  shows "run_script enc dec (server_codec R) R multi_stubs multi_calls rid w
    = ([VU64 3628800, VU64 6765, VBool True, VBool True, VBool False, VBool True, VU64 6,
        VStr (lit ''!dlroW ,olleH''), VU32 4, VBool True], None, w)"
proof (rule script_returns [OF assms(1,2)])
  let ?defs = "\<lambda>sid :: u16. declared (if sid = 0 then math_input else string_input)"
  let ?impls = "\<lambda>sid :: u16. if sid = 0 then math_impl else string_impl"
  note parsed = declared_def math_input_def string_input_def parse_service_def parse_mode_def rpc_fn_def
  have math: "offered enc dec R multi_stubs ?defs ?impls (0, i, vals)"
    if "i < length (sd_methods (declared math_input)) \<and> length vals = length (md_args (sd_methods (declared math_input) ! i))"
    for i vals
    using that multi_server_services(1) [OF assms(3)]
    by (intro offered_declared [OF math_declared(1)]) (simp_all add: multi_stubs_def math_client_input_def string_client_input_def macro_of_def)
  have strings: "offered enc dec R multi_stubs ?defs ?impls (1, i, vals)"
    if "i < length (sd_methods (declared string_input)) \<and> length vals = length (md_args (sd_methods (declared string_input) ! i))"
    for i vals
    using that multi_server_services(2) [OF assms(3)]
    by (intro offered_declared [OF math_declared(2)]) (simp_all add: multi_stubs_def math_client_input_def string_client_input_def macro_of_def)
  show "\<forall>c \<in> set multi_calls. offered enc dec R multi_stubs ?defs ?impls c"
    unfolding multi_calls_def list.set ball_simps by (intro conjI TrueI math strings) (simp_all add: parsed)
  show "call_impls ?defs ?impls multi_calls rid w = ([VU64 3628800, VU64 6765, VBool True, VBool True, VBool False,
      VBool True, VU64 6, VStr (lit ''!dlroW ,olleH''), VU32 4, VBool True], w)"
    by (simp add: multi_calls_def parsed math_impl_def string_impl_def arithmetic_examples small_primes gcd_example
        four_words rust_contained str_reverse_def) (simp add: lit_def)
qed

end
