(* ===== verification/Json_Rpc.thy ===== *)
theory Json_Rpc
  imports Tcp_Props Rust_Text
begin

section \<open>The JSON-RPC server\<close>

text \<open>
  \<^verbatim>\<open>mill-net/examples/tcp_jsonrpc_server.rs\<close>: requests, responses and the handler, over the TCP
  server. serde_json is a pair of functions, the concurrent map of the crate lockfree is a record
  of its operations with the locale \<open>key_store\<close> for what it documents, and the system's clock gives
  its \<open>n\<close>-th reading. The specification is one map that all clients share.
\<close>

subsection \<open>Requests and responses\<close>

datatype json_request =
    Ping
  | Echo str
  | Add i32 i32
  | GetTime
  | SetValue str str
  | GetValue str
  | ListKeys

datatype json_response =
    Pong
  | Echoed str
  | Sum i32
  | Time u64
  | ValueSet str
  | Value str "str option"
  | Keys "str list"
  | Failure str

type_synonym json_reader = "bytes \<Rightarrow> str + json_request"

type_synonym json_writer = "json_response \<Rightarrow> str + bytes"

subsection \<open>The data store\<close>

record 'm store_ops =
  ds_insert :: "str \<Rightarrow> str \<Rightarrow> 'm \<Rightarrow> 'm"
  ds_get :: "'m \<Rightarrow> str \<Rightarrow> str option"
  ds_keys :: "'m \<Rightarrow> str list"

locale key_store =
  fixes K :: "'m store_ops" and valid :: "'m \<Rightarrow> bool" and view :: "'m \<Rightarrow> str \<Rightarrow> str option"
  assumes insert_valid: "valid m \<Longrightarrow> valid (ds_insert K k v m)"
    and insert_view: "valid m \<Longrightarrow> view (ds_insert K k v m) = (view m)(k \<mapsto> v)"
    and get_view: "valid m \<Longrightarrow> ds_get K m k = view m k"
    and keys_view: "valid m \<Longrightarrow> distinct (ds_keys K m) \<and> set (ds_keys K m) = dom (view m)"

subsection \<open>The handler\<close>

record 'm json_state =
  data_store :: 'm
  clock_reads :: nat

definition process_request :: "'m store_ops \<Rightarrow> (nat \<Rightarrow> u64) \<Rightarrow> json_request \<Rightarrow> 'm json_state
    \<Rightarrow> json_response \<times> 'm json_state" where
  "process_request K time request u = (case request of
      Ping \<Rightarrow> (Pong, u)
    | Echo message \<Rightarrow> (Echoed message, u)
    | Add a b \<Rightarrow> (Sum (a + b), u)
    | GetTime \<Rightarrow> (Time (time (clock_reads u)), u\<lparr>clock_reads := clock_reads u + 1\<rparr>)
    | SetValue key val \<Rightarrow> (ValueSet key, u\<lparr>data_store := ds_insert K key val (data_store u)\<rparr>)
    | GetValue key \<Rightarrow> (case ds_get K (data_store u) key of
          Some v \<Rightarrow> (Value key (Some v), u)
        | None \<Rightarrow> (Value key None, u))
    | ListKeys \<Rightarrow> (Keys (ds_keys K (data_store u)), u))"

definition handle_rpc_request :: "'m store_ops \<Rightarrow> (nat \<Rightarrow> u64) \<Rightarrow> json_reader \<Rightarrow> bytes \<Rightarrow> 'm json_state
    \<Rightarrow> json_response \<times> 'm json_state" where
  "handle_rpc_request K time from_slice data u = (case from_slice data of
      Inr request \<Rightarrow> process_request K time request u
    | Inl e \<Rightarrow> (Failure (lit ''Invalid JSON: '' @ e), u))"

definition json_on_data :: "'m store_ops \<Rightarrow> (nat \<Rightarrow> u64) \<Rightarrow> json_reader \<Rightarrow> json_writer \<Rightarrow> connection_id
    \<Rightarrow> bytes \<Rightarrow> 'm json_state tcp_state fallible" where
  "json_on_data K time from_slice to_vec c data s =
     (let (response, u) = handle_rpc_request K time from_slice data (user s);
          s = s\<lparr>user := u\<rparr>
      in case to_vec response of
           Inr response_data \<Rightarrow> ctx_send_to c response_data s
         | Inl e \<Rightarrow> (None, s))"

definition json_handler :: "'m store_ops \<Rightarrow> (nat \<Rightarrow> u64) \<Rightarrow> json_reader \<Rightarrow> json_writer
    \<Rightarrow> 'm json_state tcp_handler" where
  "json_handler K time from_slice to_vec = default_handler (json_on_data K time from_slice to_vec)"

definition printed :: "json_writer \<Rightarrow> json_response \<Rightarrow> bytes" where
  "printed to_vec response = (case to_vec response of Inr bs \<Rightarrow> bs | Inl _ \<Rightarrow> [])"

definition json_answer :: "'m store_ops \<Rightarrow> (nat \<Rightarrow> u64) \<Rightarrow> json_reader \<Rightarrow> json_writer
    \<Rightarrow> 'm json_state answerer" where
  "json_answer K time from_slice to_vec c d u = apfst (printed to_vec) (handle_rpc_request K time from_slice d u)"

lemma json_data_effects: "effects s (snd (json_on_data K time from_slice to_vec c d s))"
proof -
  obtain r u where r: "handle_rpc_request K time from_slice d (user s) = (r, u)"
    by fastforce
  have "effects (s\<lparr>user := u\<rparr>) (snd (json_on_data K time from_slice to_vec c d s))"
    using r ctx_send_effects by (cases "to_vec r") (auto simp: json_on_data_def)
  then show ?thesis
    by (rule converse_rtranclp_into_rtranclp [where r = prim, OF prim_user])
qed

interpretation json: polite_handler "json_handler K time from_slice to_vec"
    for K :: "'m store_ops" and time from_slice to_vec
  by unfold_locales (simp_all add: json_handler_def default_handler_def json_data_effects)

lemma deliver_user: "deliver c bs u (s\<lparr>user := v\<rparr>) = deliver c bs u s"
  by (simp add: deliver_def)

interpretation json_answers: answering "json_handler K time from_slice to_vec" "json_answer K time from_slice to_vec"
    for K :: "'m store_ops" and time from_slice to_vec
proof (unfold_locales, goal_cases)
  case (1 c d s bs u)
  obtain r where r: "handle_rpc_request K time from_slice d (user s) = (r, u)" "bs = printed to_vec r"
    using 1(1) by (auto simp: json_answer_def apfst_def map_prod_def split: prod.splits)
  have can: "can_send c n (s\<lparr>user := u\<rparr>) = can_send c n s" for n
    by (simp add: can_send_def)
  show ?case
  proof (cases "to_vec r")
    case (Inl e)
    with r show ?thesis
      by (simp add: json_handler_def default_handler_def json_on_data_def printed_def deliver_nothing)
  next
    case (Inr out)
    with 1(2) r ctx_send_deliver [of c out "s\<lparr>user := u\<rparr>"] show ?thesis
      by (simp add: json_handler_def default_handler_def json_on_data_def printed_def can deliver_user)
  qed
qed (simp add: json_handler_def default_handler_def)

subsection \<open>The reads of a run, in order\<close>

fun all_reads :: "(connection_id \<Rightarrow> bytes) \<Rightarrow> net_op list \<Rightarrow> (connection_id \<times> bytes) list" where
  "all_reads q [] = []"
| "all_reads q (Arrives c bs # ops) = all_reads (q(c := q c @ bs)) ops"
| "all_reads q (Polled c readable writable # ops) =
     (if readable \<and> q c \<noteq> []
      then (c, take IO_BUFFER_SIZE (q c)) # all_reads (q(c := drop IO_BUFFER_SIZE (q c))) ops
      else all_reads q ops)"

fun answer_all :: "'u answerer \<Rightarrow> (connection_id \<times> bytes) list \<Rightarrow> 'u \<Rightarrow> bytes list \<times> 'u" where
  "answer_all f [] u = ([], u)"
| "answer_all f ((c, d) # rest) u = (let (bs, u) = f c d u; (out, u) = answer_all f rest u in (bs # out, u))"

text \<open>Of the answers, those to one connection.\<close>

definition answers_to :: "connection_id \<Rightarrow> (connection_id \<times> bytes) list \<Rightarrow> 'a list \<Rightarrow> 'a list" where
  "answers_to c rs xs = map snd (filter (\<lambda>(r, _). fst r = c) (zip rs xs))"

lemma answers_to_simps [simp]:
  "answers_to c [] xs = []"
  "answers_to c (r # rs) (x # xs) = (if fst r = c then [x] else []) @ answers_to c rs xs"
  by (simp_all add: answers_to_def)

lemma run_answers:
  "answer_all f (all_reads (queued a) ops) (owned a) = (out, u) \<Longrightarrow>
     owned (stream_run f ops a) = u
     \<and> sent (stream_run f ops a) c = sent a c @ concat (answers_to c (all_reads (queued a) ops) out)"
proof (induction ops arbitrary: a out)
  case Nil
  then show ?case by (simp add: stream_run_def)
next
  case (Cons op ops)
  show ?case
  proof (cases op)
    case (Arrives d bs)
    with Cons.IH [of "stream_step f op a" out] Cons.prems show ?thesis
      by (simp add: stream_run_def fun_upd_def)
  next
    case (Polled d readable writable)
    show ?thesis
    proof (cases "readable \<and> queued a d \<noteq> []")
      case False
      with Polled Cons.IH [of a out] Cons.prems show ?thesis
        by (auto simp: stream_run_def)
    next
      case True
      let ?d = "take IO_BUFFER_SIZE (queued a d)"
      obtain bs v where f: "f d ?d (owned a) = (bs, v)"
        by fastforce
      define a' where "a' = stream_step f op a"
      have a: "queued a' = (queued a)(d := drop IO_BUFFER_SIZE (queued a d))"
          "sent a' = (sent a)(d := sent a d @ bs)" "owned a' = v"
        using True Polled f by (simp_all add: a'_def stream_read_def)
      have reads: "all_reads (queued a) (op # ops) = (d, ?d) # all_reads (queued a') ops"
        using True Polled by (simp add: a(1))
      with Cons.prems f a(3) obtain rest where
        rest: "answer_all f (all_reads (queued a') ops) (owned a') = (rest, u)" "out = bs # rest"
        by (auto simp: Let_def split: prod.splits)
      from Cons.IH [OF rest(1)] show ?thesis
        unfolding reads rest(2) by (simp add: stream_run_def a'_def [symmetric] a(2))
    qed
  qed
qed

subsection \<open>One map for all clients\<close>

text \<open>What a request may be answered, given the map and how often the clock was read.\<close>

inductive json_spec :: "(nat \<Rightarrow> u64) \<Rightarrow> (str \<Rightarrow> str option) \<times> nat \<Rightarrow> str + json_request \<Rightarrow> json_response
    \<Rightarrow> (str \<Rightarrow> str option) \<times> nat \<Rightarrow> bool" for time where
  spec_invalid: "json_spec time w (Inl e) (Failure (lit ''Invalid JSON: '' @ e)) w"
| spec_ping: "json_spec time w (Inr Ping) Pong w"
| spec_echo: "json_spec time w (Inr (Echo t)) (Echoed t) w"
| spec_add: "json_spec time w (Inr (Add a b)) (Sum (a + b)) w"
| spec_time: "json_spec time (m, n) (Inr GetTime) (Time (time n)) (m, Suc n)"
| spec_set: "json_spec time (m, n) (Inr (SetValue k v)) (ValueSet k) (m(k \<mapsto> v), n)"
| spec_get: "json_spec time (m, n) (Inr (GetValue k)) (Value k (m k)) (m, n)"
| spec_list: "distinct ks \<Longrightarrow> set ks = dom m \<Longrightarrow> json_spec time (m, n) (Inr ListKeys) (Keys ks) (m, n)"

inductive_cases json_set_elim: "json_spec time w (Inr (SetValue k v)) r w'"
inductive_cases json_get_elim: "json_spec time w (Inr (GetValue k)) r w'"

inductive json_session :: "(nat \<Rightarrow> u64) \<Rightarrow> (str \<Rightarrow> str option) \<times> nat \<Rightarrow> (str + json_request) list
    \<Rightarrow> json_response list \<Rightarrow> (str \<Rightarrow> str option) \<times> nat \<Rightarrow> bool" for time where
  session_done: "json_session time w [] [] w"
| session_more: "json_spec time w req r w1 \<Longrightarrow> json_session time w1 reqs rs w2 \<Longrightarrow>
    json_session time w (req # reqs) (r # rs) w2"

inductive_cases json_session_cons: "json_session time w (req # reqs) rs w'"
inductive_cases json_session_nil: "json_session time w [] rs w'"

context key_store
begin

abbreviation world_of :: "'m json_state \<Rightarrow> (str \<Rightarrow> str option) \<times> nat" where
  "world_of u \<equiv> (view (data_store u), clock_reads u)"

lemma request_spec:
  assumes "valid (data_store u)" and "handle_rpc_request K time from_slice d u = (r, u')"
  shows "json_spec time (world_of u) (from_slice d) r (world_of u') \<and> valid (data_store u')"
proof (cases "from_slice d")
  case (Inl e)
  with assms show ?thesis
    by (auto simp: handle_rpc_request_def intro: json_spec.intros)
next
  case (Inr req)
  with assms have run: "process_request K time req u = (r, u')"
    by (simp add: handle_rpc_request_def)
  show ?thesis
  proof (cases req)
    case (GetValue k)
    then have "r = Value k (view (data_store u) k)" "u' = u"
      using run get_view [OF assms(1)] by (auto simp: process_request_def split: option.splits)
    with GetValue Inr assms(1) show ?thesis
      by (simp add: json_spec.intros)
  next
    case ListKeys
    then have "r = Keys (ds_keys K (data_store u))" "u' = u"
      using run by (auto simp: process_request_def)
    with ListKeys Inr assms(1) keys_view [OF assms(1)] show ?thesis
      by (simp add: json_spec.spec_list)
  qed (use run Inr assms(1) insert_valid insert_view in
      \<open>auto simp: process_request_def intro: json_spec.intros\<close>)
qed

lemma session_spec:
  "valid (data_store u) \<Longrightarrow> answer_all (json_answer K time from_slice to_vec) reads u = (out, u') \<Longrightarrow>
     \<exists>rs. json_session time (world_of u) (map (from_slice \<circ> snd) reads) rs (world_of u')
       \<and> out = map (printed to_vec) rs"
proof (induction reads arbitrary: u out)
  case Nil
  then show ?case by (auto intro: session_done)
next
  case (Cons cd reads)
  obtain r u1 where r: "handle_rpc_request K time from_slice (snd cd) u = (r, u1)"
    by fastforce
  have "json_answer K time from_slice to_vec (fst cd) (snd cd) u = (printed to_vec r, u1)"
    by (simp add: json_answer_def r)
  with Cons.prems(2) obtain rest where rest: "answer_all (json_answer K time from_slice to_vec) reads u1 = (rest, u')"
      "out = printed to_vec r # rest"
    by (cases cd) (auto simp: Let_def split: prod.splits)
  note one = request_spec [OF Cons.prems(1) r]
  with Cons.IH [OF _ rest(1)] obtain rs where
    "json_session time (world_of u1) (map (from_slice \<circ> snd) reads) rs (world_of u')" "rest = map (printed to_vec) rs"
    by blast
  with one rest(2) have "json_session time (world_of u) (map (from_slice \<circ> snd) (cd # reads)) (r # rs) (world_of u')"
      "out = map (printed to_vec) (r # rs)"
    by (auto intro: session_more)
  then show ?case by blast
qed

end

lemma answers_to_map: "answers_to c rs (map g xs) = map g (answers_to c rs xs)"
  by (simp add: answers_to_def zip_map2 filter_map comp_def case_prod_unfold)


subsection \<open>Samples\<close>

definition list_store :: "(str, str) hmap store_ops" where
  "list_store = \<lparr>ds_insert = hm_insert, ds_get = hm_get, ds_keys = map fst\<rparr>"

interpretation lists: key_store list_store hm_wf hm_get
proof (unfold_locales, goal_cases)
  case (4 m)
  then show ?case
    by (simp add: list_store_def hm_wf_def hm_get_def [abs_def] dom_map_of_conv_image_fst)
qed (simp_all add: list_store_def hm.wf_put hm_simps fun_eq_iff)

definition sample_reader :: json_reader where
  "sample_reader bs = (if bs = [1] then Inr (SetValue [7] [8]) else if bs = [2] then Inr (GetValue [7]) else Inl [])"

definition sample_writer :: json_writer where
  "sample_writer r = (case r of Value k (Some v) \<Rightarrow> Inr (utf8 v) | _ \<Rightarrow> Inr [0])"


end
