(* ===== verification/Http_Server.thy ===== *)
theory Http_Server
  imports Tcp_Props Rust_Text
begin

section \<open>The HTTP server\<close>

text \<open>
  \<^verbatim>\<open>mill-net/examples/tcp_http_server.rs\<close>: the builder of responses, the parser of requests
  and the handler, over the TCP server. Printing is left out. Lower-casing a header's name is an
  argument. A client that cuts the stream of responses at the lengths they announce is the
  specification of what is sent.
\<close>

subsection \<open>Responses\<close>

record http_response =
  hr_status :: u16
  hr_headers :: "(str \<times> str) list"
  hr_body :: str

definition http_ok :: "str \<Rightarrow> http_response" where
  "http_ok content = \<lparr>hr_status = 200,
     hr_headers = [(lit ''Content-Type'', lit ''text/html''),
       (lit ''Content-Length'', lit (show_dec (length (utf8 content))))],
     hr_body = content\<rparr>"

definition http_not_found :: http_response where
  "http_not_found =
     (let content = lit ''<h1>404 Not Found</h1>''
      in \<lparr>hr_status = 404,
          hr_headers = [(lit ''Content-Type'', lit ''text/html''),
            (lit ''Content-Length'', lit (show_dec (length (utf8 content))))],
          hr_body = content\<rparr>)"

definition CRLF :: str where
  "CRLF = [13, 10]"

definition status_text :: "u16 \<Rightarrow> str" where
  "status_text st = (if st = 200 then lit ''OK'' else if st = 404 then lit ''Not Found'' else lit ''Unknown'')"

definition http_to_bytes :: "http_response \<Rightarrow> bytes" where
  "http_to_bytes r =
     (let response = lit ''HTTP/1.1 '' @ lit (show_dec (unat (hr_status r))) @ lit '' ''
            @ status_text (hr_status r) @ CRLF;
          response = fold (\<lambda>(key, val) out. out @ key @ lit '': '' @ val @ CRLF) (hr_headers r) response
      in utf8 (response @ CRLF @ hr_body r))"

subsection \<open>Requests\<close>

record http_request =
  hq_method :: str
  hq_path :: str
  hq_headers :: "(str, str) hmap"

type_synonym lowering = "str \<Rightarrow> str"

fun header_loop :: "lowering \<Rightarrow> str list \<Rightarrow> (str, str) hmap \<Rightarrow> (str, str) hmap" where
  "header_loop to_lowercase [] headers = headers"
| "header_loop to_lowercase (line # rest) headers =
     (if line = [] then headers
      else case split_once (of_char (CHR '':'')) line of
        Some (key, val) \<Rightarrow>
          header_loop to_lowercase rest (hm_insert (to_lowercase (trim key)) (trim val) headers)
      | None \<Rightarrow> header_loop to_lowercase rest headers)"

definition http_parse :: "lowering \<Rightarrow> bytes \<Rightarrow> http_request option" where
  "http_parse to_lowercase data =
     (let request_str = lossy_text data; lines = str_lines request_str in
      if lines = [] then None
      else let request_line_parts = split_whitespace (lines ! 0) in
      if length request_line_parts < 2 then None
      else Some \<lparr>hq_method = request_line_parts ! 0, hq_path = request_line_parts ! 1,
        hq_headers = header_loop to_lowercase (tl lines) []\<rparr>)"

definition handle_http_request :: "lowering \<Rightarrow> bytes \<Rightarrow> http_response" where
  "handle_http_request to_lowercase data = (case http_parse to_lowercase data of
      Some request \<Rightarrow>
        if hq_method request = lit ''GET'' \<and> hq_path request = lit ''/'' then
          http_ok (lit (''<h1>Welcome to Mill-IO HTTP Server!</h1><p>A simple HTTP server built ''
            @ ''with the mill-io event loop.</p>''))
        else if hq_method request = lit ''GET'' \<and> hq_path request = lit ''/about'' then
          http_ok (lit (''<h1>About</h1><p>This is a demonstration HTTP server using mill-io ''
            @ ''event loop library.</p>''))
        else if hq_method request = lit ''GET'' \<and> hq_path request = lit ''/health'' then
          http_ok (lit ''<h1>Health Check</h1><p>Server is running!</p>'')
        else http_not_found
    | None \<Rightarrow> http_not_found)"

definition http_on_data :: "lowering \<Rightarrow> connection_id \<Rightarrow> bytes \<Rightarrow> 'u tcp_state fallible" where
  "http_on_data to_lowercase c data s =
     (let response = handle_http_request to_lowercase data;
          response_bytes = http_to_bytes response
      in ctx_send_to c response_bytes s)"

definition http_handler :: "lowering \<Rightarrow> 'u tcp_handler" where
  "http_handler to_lowercase = default_handler (http_on_data to_lowercase)"

interpretation http: polite_handler "http_handler to_lowercase" for to_lowercase
  by unfold_locales (simp_all add: http_handler_def default_handler_def http_on_data_def ctx_send_effects Let_def)

definition http_answer :: "lowering \<Rightarrow> 'u answerer" where
  "http_answer to_lowercase c d u = (http_to_bytes (handle_http_request to_lowercase d), u)"

interpretation http_answers: answering "http_handler to_lowercase" "http_answer to_lowercase" for to_lowercase
  by unfold_locales
    (auto simp: http_handler_def default_handler_def http_on_data_def http_answer_def ctx_send_deliver)

subsection \<open>A client\<close>

text \<open>A line up to its carriage return and line feed, and the rest.\<close>

fun cut_line :: "bytes \<Rightarrow> (bytes \<times> bytes) option" where
  "cut_line [] = None"
| "cut_line (b # bs) =
     (if b = 13 \<and> bs \<noteq> [] \<and> hd bs = 10 then Some ([], tl bs)
      else map_option (apfst ((#) b)) (cut_line bs))"

definition cut_field :: "bytes \<Rightarrow> bytes \<times> bytes" where
  "cut_field l = (let k = takeWhile (\<lambda>b. b \<noteq> 58) l in (k, drop (length k + 2) l))"

lemma cut_line_shorter: "cut_line bs = Some (l, r) \<Longrightarrow> length r < length bs"
proof (induction bs arbitrary: l)
  case (Cons b bs)
  show ?case
  proof (cases "b = 13 \<and> bs \<noteq> [] \<and> hd bs = 10")
    case True
    with Cons.prems show ?thesis
      by (cases bs) auto
  next
    case False
    with Cons.prems obtain l' where "cut_line bs = Some (l', r)"
      by (auto simp: apfst_def map_prod_def split: if_splits)
    with Cons.IH show ?thesis
      by fastforce
  qed
qed simp

function cut_fields :: "bytes \<Rightarrow> ((bytes \<times> bytes) list \<times> bytes) option" where
  "cut_fields bs = (case cut_line bs of
      None \<Rightarrow> None
    | Some (l, r) \<Rightarrow> if l = [] then Some ([], r) else map_option (apfst ((#) (cut_field l))) (cut_fields r))"
  by pat_completeness auto
termination
  by (relation "measure length") (auto dest: cut_line_shorter)

declare cut_fields.simps [simp del]

definition read_dec :: "bytes \<Rightarrow> nat" where
  "read_dec bs = foldl (\<lambda>n b. 10 * n + (unat b - 48)) 0 bs"

definition ascii :: "str \<Rightarrow> bytes" where
  "ascii t = map byte t"

record client_response =
  cr_status :: bytes
  cr_fields :: "(bytes \<times> bytes) list"
  cr_content :: bytes

definition cut_response :: "bytes \<Rightarrow> (client_response \<times> bytes) option" where
  "cut_response bs = (case cut_line bs of
      None \<Rightarrow> None
    | Some (st, r) \<Rightarrow>
        (case cut_fields r of
           None \<Rightarrow> None
         | Some (fs, r) \<Rightarrow>
             (case map_of fs (ascii (lit ''Content-Length'')) of
                None \<Rightarrow> None
              | Some v \<Rightarrow>
                  if length r < read_dec v then None
                  else Some (\<lparr>cr_status = st, cr_fields = fs, cr_content = take (read_dec v) r\<rparr>,
                    drop (read_dec v) r))))"

subsection \<open>Responses are framed\<close>

definition plain :: "str \<Rightarrow> bool" where
  "plain t \<longleftrightarrow> list_all (\<lambda>c. c < 128 \<and> c \<noteq> 13) t"

lemma plain_append [simp]: "plain (s @ t) \<longleftrightarrow> plain s \<and> plain t" "plain []"
  by (auto simp: plain_def)

lemma plain_Cons: "plain (c # t) \<longleftrightarrow> c < 128 \<and> c \<noteq> 13 \<and> plain t"
  by (simp add: plain_def)

lemma ascii_append [simp]: "ascii (s @ t) = ascii s @ ascii t" "ascii [] = []"
  by (simp_all add: ascii_def)

lemma utf8_plain: "plain t \<Longrightarrow> utf8 t = ascii t"
  by (induction t) (auto simp: plain_def utf8_def ascii_def utf8_char_def)

lemma utf8_crlf: "utf8 CRLF = [13, 10]"
  by (simp add: utf8_def CRLF_def utf8_char_def byte_def)

lemma cut_line_plain: "plain t \<Longrightarrow> cut_line (ascii t @ 13 # 10 # r) = Some (ascii t, r)"
  by (induction t) (auto simp: plain_def ascii_def byte_eq_iff)

lemma lit_simps: "lit [] = []" "lit (ch # s) = of_char ch # lit s" "lit (s @ s') = lit s @ lit s'"
  by (simp_all add: lit_def)

lemma show_dec_digits: "list_all (\<lambda>c. 48 \<le> c \<and> c < 58) (lit (show_dec n))"
proof (induction n rule: show_dec.induct)
  case (1 n)
  show ?case
  proof (cases "n < 10")
    case True
    then show ?thesis
      by (subst show_dec.simps) (simp add: lit_simps)
  next
    case False
    with 1 show ?thesis
      by (subst show_dec.simps) (simp add: lit_simps)
  qed
qed

lemma plain_dec: "plain (lit (show_dec n))"
  using show_dec_digits [of n] by (auto simp: plain_def list_all_iff)

lemma read_dec_snoc: "read_dec (bs @ [b]) = 10 * read_dec bs + (unat b - 48)"
  by (simp add: read_dec_def)

lemma read_show_dec: "read_dec (ascii (lit (show_dec n))) = n"
proof (induction n rule: show_dec.induct)
  case (1 n)
  show ?case
  proof (cases "n < 10")
    case True
    then show ?thesis
      by (subst show_dec.simps) (simp add: ascii_def read_dec_def unat_byte lit_simps)
  next
    case False
    have "ascii (lit [char_of (48 + n mod 10)]) = [byte (48 + n mod 10)]"
      by (simp add: ascii_def lit_simps)
    moreover have "unat (byte (48 + n mod 10)) = 48 + n mod 10"
      by (rule unat_byte) simp
    ultimately show ?thesis
      using False 1 by (subst show_dec.simps) (simp add: read_dec_snoc lit_simps(3))
  qed
qed

lemma cut_field_plain:
  assumes "plain k" and "58 \<notin> set k"
  shows "cut_field (ascii k @ 58 # 32 # v) = (ascii k, v)"
proof -
  have "\<forall>b \<in> set (ascii k). b \<noteq> 58"
    using assms by (auto simp: plain_def ascii_def list_all_iff byte_eq_iff)
  then have "takeWhile (\<lambda>b. b \<noteq> 58) (ascii k @ 58 # 32 # v) = ascii k"
    by (simp add: takeWhile_append)
  then show ?thesis
    by (simp add: cut_field_def)
qed

lemma cut_fields_end: "cut_fields (13 # 10 # r) = Some ([], r)"
  by (subst cut_fields.simps) simp

lemma cut_fields_field:
  assumes "plain k" and "58 \<notin> set k" and "plain v"
  shows "cut_fields (ascii (k @ lit '': '' @ v) @ 13 # 10 # r) = map_option (apfst ((#) (ascii k, ascii v))) (cut_fields r)"
proof -
  have l: "ascii (k @ lit '': '' @ v) = ascii k @ 58 # 32 # ascii v"
    by (simp add: ascii_def byte_def lit_simps)
  have "cut_line (ascii (k @ lit '': '' @ v) @ 13 # 10 # r) = Some (ascii (k @ lit '': '' @ v), r)"
    using assms by (intro cut_line_plain) (simp add: plain_def lit_simps)
  then show ?thesis
    using cut_field_plain [OF assms(1,2)] l by (subst cut_fields.simps) simp
qed

definition status_line :: "u16 \<Rightarrow> str" where
  "status_line st = lit ''HTTP/1.1 '' @ lit (show_dec (unat st)) @ lit '' '' @ status_text st"

definition html_response :: "u16 \<Rightarrow> str \<Rightarrow> http_response" where
  "html_response st content = \<lparr>hr_status = st,
     hr_headers = [(lit ''Content-Type'', lit ''text/html''),
       (lit ''Content-Length'', lit (show_dec (length (utf8 content))))],
     hr_body = content\<rparr>"

definition html_fields :: "nat \<Rightarrow> (bytes \<times> bytes) list" where
  "html_fields n = [(ascii (lit ''Content-Type''), ascii (lit ''text/html'')),
     (ascii (lit ''Content-Length''), ascii (lit (show_dec n)))]"

lemma html_response_bytes:
  "http_to_bytes (html_response st content) = ascii (status_line st) @ 13 # 10
    # ascii (lit ''Content-Type'' @ lit '': '' @ lit ''text/html'') @ 13 # 10
    # ascii (lit ''Content-Length'' @ lit '': '' @ lit (show_dec (length (utf8 content)))) @ 13 # 10
    # 13 # 10 # utf8 content"
proof -
  have "plain (status_line st)"
    by (simp add: status_line_def status_text_def plain_dec plain_Cons lit_simps)
  moreover have "plain (lit ''Content-Type'' @ lit '': '' @ lit ''text/html'')"
    by (simp add: plain_Cons lit_simps)
  moreover have "plain (lit ''Content-Length'' @ lit '': '' @ lit (show_dec (length (utf8 content))))"
    by (simp add: plain_dec plain_Cons lit_simps)
  moreover have "http_to_bytes (html_response st content) = utf8 (status_line st) @ utf8 CRLF
      @ utf8 (lit ''Content-Type'' @ lit '': '' @ lit ''text/html'') @ utf8 CRLF
      @ utf8 (lit ''Content-Length'' @ lit '': '' @ lit (show_dec (length (utf8 content)))) @ utf8 CRLF
      @ utf8 CRLF @ utf8 content"
    by (simp add: http_to_bytes_def html_response_def status_line_def Let_def)
  ultimately show ?thesis
    by (simp only: utf8_plain utf8_crlf) simp
qed

lemma cut_html_response:
  "cut_response (http_to_bytes (html_response st content) @ rest)
     = Some (\<lparr>cr_status = ascii (status_line st), cr_fields = html_fields (length (utf8 content)),
         cr_content = utf8 content\<rparr>, rest)"
proof -
  let ?n = "length (utf8 content)"
  let ?r = "13 # 10 # utf8 content @ rest"
  have "plain (status_line st)"
    by (simp add: status_line_def status_text_def plain_dec plain_Cons lit_simps)
  note status = cut_line_plain [OF this]
  have keys: "plain (lit ''Content-Length'')" "58 \<notin> set (lit ''Content-Length'')"
      "plain (lit ''Content-Type'')" "58 \<notin> set (lit ''Content-Type'')" "plain (lit ''text/html'')"
    by (simp_all add: plain_Cons lit_simps)
  have one: "cut_fields (ascii (lit ''Content-Length'' @ lit '': '' @ lit (show_dec ?n)) @ 13 # 10 # ?r)
      = Some ([(ascii (lit ''Content-Length''), ascii (lit (show_dec ?n)))], utf8 content @ rest)"
    using cut_fields_field [OF keys(1,2) plain_dec, of ?n ?r] by (simp add: cut_fields_end)
  have two: "cut_fields (ascii (lit ''Content-Type'' @ lit '': '' @ lit ''text/html'') @ 13 # 10
      # ascii (lit ''Content-Length'' @ lit '': '' @ lit (show_dec ?n)) @ 13 # 10 # ?r)
      = Some (html_fields ?n, utf8 content @ rest)"
    unfolding cut_fields_field [OF keys(3-5)] one by (simp add: html_fields_def)
  have "ascii (lit ''Content-Type'') \<noteq> ascii (lit ''Content-Length'')"
    by (simp add: ascii_def lit_def)
  then have "map_of (html_fields ?n) (ascii (lit ''Content-Length'')) = Some (ascii (lit (show_dec ?n)))"
    by (simp add: html_fields_def)
  with status two show ?thesis
    by (simp add: cut_response_def html_response_bytes read_show_dec)
qed

text \<open>Every response is one of these.\<close>

lemma html_responses:
  "http_ok content = html_response 200 content"
  "http_not_found = html_response 404 (lit ''<h1>404 Not Found</h1>'')"
  by (simp_all add: http_ok_def http_not_found_def html_response_def Let_def)

lemma response_is_html: "\<exists>st content. handle_http_request to_lowercase data = html_response st content"
  by (cases "http_parse to_lowercase data")
    (auto simp: handle_http_request_def html_responses)

definition client_view :: "http_response \<Rightarrow> client_response" where
  "client_view r = \<lparr>cr_status = ascii (status_line (hr_status r)),
     cr_fields = map (map_prod ascii ascii) (hr_headers r), cr_content = utf8 (hr_body r)\<rparr>"

lemma response_framed:
  "cut_response (http_to_bytes (handle_http_request to_lowercase data) @ rest)
     = Some (client_view (handle_http_request to_lowercase data), rest)"
proof -
  obtain st content where r: "handle_http_request to_lowercase data = html_response st content"
    using response_is_html by blast
  have "client_view (html_response st content) = \<lparr>cr_status = ascii (status_line st),
      cr_fields = html_fields (length (utf8 content)), cr_content = utf8 content\<rparr>"
    by (simp add: client_view_def html_response_def html_fields_def)
  then show ?thesis
    by (simp add: r cut_html_response)
qed

text \<open>The responses of a stream, as long as it holds complete ones.\<close>

lemma cut_fields_shorter: "cut_fields bs = Some (fs, r) \<Longrightarrow> length r < length bs"
proof (induction bs arbitrary: fs rule: cut_fields.induct)
  case (1 bs)
  from "1.prems" obtain l q where line: "cut_line bs = Some (l, q)"
    by (subst (asm) cut_fields.simps) (auto split: option.splits)
  note shorter = cut_line_shorter [OF line]
  show ?case
  proof (cases "l = []")
    case True
    with "1.prems" line shorter show ?thesis
      by (subst (asm) cut_fields.simps) simp
  next
    case False
    with "1.prems" line obtain gs where "cut_fields q = Some (gs, r)"
      by (subst (asm) cut_fields.simps) (auto simp: apfst_def map_prod_def)
    with "1.IH" line False shorter show ?thesis
      by fastforce
  qed
qed

lemma cut_response_shorter: "cut_response bs = Some (r, rest) \<Longrightarrow> length rest < length bs"
  by (auto simp: cut_response_def split: option.splits if_splits dest!: cut_line_shorter cut_fields_shorter) arith

function cut_stream :: "bytes \<Rightarrow> client_response list \<times> bytes" where
  "cut_stream bs = (case cut_response bs of
      None \<Rightarrow> ([], bs)
    | Some (r, rest) \<Rightarrow> apfst ((#) r) (cut_stream rest))"
  by pat_completeness auto
termination
  by (relation "measure length") (auto dest: cut_response_shorter)

declare cut_stream.simps [simp del]

lemma cut_stream_responses:
  "cut_stream (concat (map (\<lambda>d. http_to_bytes (handle_http_request to_lowercase d)) ds))
     = (map (\<lambda>d. client_view (handle_http_request to_lowercase d)) ds, [])"
proof (induction ds)
  case Nil
  have "cut_response [] = None"
    by (simp add: cut_response_def)
  then show ?case
    by (subst cut_stream.simps) simp
next
  case (Cons d ds)
  then show ?case
    by (subst cut_stream.simps) (simp add: response_framed)
qed

text \<open>C37: the HTTP server under the event loop answers each read of a connection by exactly one
  response, and the stream is framed: a client that cuts it where \<open>Content-Length\<close> says gets the
  responses to the reads, in order, each with its status, its fields and its content, and nothing
  is left over.\<close>

theorem http_over_tcp:
  assumes "working C cap s" and "\<forall>op \<in> set ops. about op \<in> C" and "c \<in> C"
    and "answers = (\<lambda>c. map (handle_http_request to_lowercase) (reads_of c (incoming (sockets s c)) ops))"
    and "\<forall>c \<in> C. length (outgoing (sockets s c)) + length (concat (map http_to_bytes (answers c))) \<le> cap c"
    and "s' = net_run cfg (http_handler to_lowercase) ops s"
  shows "cut_stream (drop (length (outgoing (sockets s c))) (outgoing (sockets s' c)))
    = (map client_view (answers c), [])"
proof -
  let ?run = "stream_run (http_answer to_lowercase) ops (stream_of s)"
  have sent: "sent ?run d = outgoing (sockets s d) @ concat (map http_to_bytes (answers d))" for d
    using stateless_run [of "http_answer to_lowercase" "\<lambda>d. http_to_bytes (handle_http_request to_lowercase d)"
        ops "stream_of s" d] assms(4)
    by (simp add: http_answer_def stream_of_def comp_def)
  have "stream_of s' = ?run"
    using http_answers.run_refines [OF assms(1,2)] assms(5,6) by (simp add: sent)
  then have "sent (stream_of s') c = outgoing (sockets s c) @ concat (map http_to_bytes (answers c))"
    by (simp add: sent)
  then have "outgoing (sockets s' c) = outgoing (sockets s c) @ concat (map http_to_bytes (answers c))"
    by (simp add: stream_of_def)
  then show ?thesis
    using cut_stream_responses [of to_lowercase] assms(4) by (simp add: comp_def)
qed

subsection \<open>Requests are understood\<close>

definition header_text :: "(str \<times> str) list \<Rightarrow> str" where
  "header_text hs = concat (map (\<lambda>(k, x). k @ [58] @ x @ CRLF) hs) @ CRLF"

definition request_text :: "str \<Rightarrow> str \<Rightarrow> str \<Rightarrow> (str \<times> str) list \<Rightarrow> str" where
  "request_text m p version hs = m @ [32] @ p @ [32] @ version @ CRLF @ header_text hs"

definition token_ok :: "str \<Rightarrow> bool" where
  "token_ok w \<longleftrightarrow> w \<noteq> [] \<and> list_all (\<lambda>c. scalar c \<and> \<not> white_space c) w"

definition line_ok :: "str \<Rightarrow> bool" where
  "line_ok l \<longleftrightarrow> list_all (\<lambda>c. scalar c \<and> c \<noteq> 10) l"

definition request_ok :: "str \<Rightarrow> str \<Rightarrow> str \<Rightarrow> (str \<times> str) list \<Rightarrow> bool" where
  "request_ok m p version hs \<longleftrightarrow> token_ok m \<and> token_ok p \<and> line_ok version
     \<and> list_all (\<lambda>(k, x). line_ok k \<and> line_ok x \<and> 58 \<notin> set k) hs"

definition header_map :: "lowering \<Rightarrow> (str \<times> str) list \<Rightarrow> (str, str) hmap" where
  "header_map to_lowercase hs = fold (\<lambda>(k, x). hm_insert (to_lowercase (trim k)) (trim x)) hs []"

lemma token_line: "token_ok w \<Longrightarrow> list_all (\<lambda>c. c \<noteq> 10) w"
proof -
  have "white_space 10"
    by (simp add: white_space_def)
  then show "token_ok w \<Longrightarrow> list_all (\<lambda>c. c \<noteq> 10) w"
    unfolding token_ok_def list_all_iff by metis
qed

lemma header_lines:
  assumes "list_all (\<lambda>(k, x). line_ok k \<and> line_ok x) hs"
  shows "str_lines (header_text hs @ t) = map (\<lambda>(k, x). k @ 58 # x) hs @ [] # str_lines t"
  using assms
proof (induction hs)
  case Nil
  show ?case
    using str_lines_crlf [of "[]" t] by (simp add: header_text_def CRLF_def)
next
  case (Cons h hs)
  obtain k x where h: "h = (k, x)"
    by fastforce
  have "str_lines ((k @ 58 # x) @ 13 # 10 # header_text hs @ t) = (k @ 58 # x) # str_lines (header_text hs @ t)"
    using Cons.prems h by (intro str_lines_crlf) (auto simp: line_ok_def list_all_iff)
  with Cons h show ?case
    by (simp add: header_text_def CRLF_def)
qed

lemma header_loop_lines:
  "list_all (\<lambda>(k, x). 58 \<notin> set k) hs \<Longrightarrow>
     header_loop to_lowercase (map (\<lambda>(k, x). k @ 58 # x) hs @ [] # rest) h
       = fold (\<lambda>(k, x). hm_insert (to_lowercase (trim k)) (trim x)) hs h"
proof (induction hs arbitrary: h)
  case (Cons p hs)
  obtain k x where p: "p = (k, x)"
    by fastforce
  have "split_once 58 (k @ 58 # x) = Some (k, x)"
    using Cons.prems p by (intro split_once_here) (auto simp: list_all_iff)
  with Cons p show ?case
    by simp
qed simp

lemma request_scalars:
  "request_ok m p version hs \<Longrightarrow> list_all scalar (request_text m p version hs)"
  by (fastforce simp: request_ok_def request_text_def header_text_def token_ok_def line_ok_def list_all_iff
      CRLF_def scalar_def)

lemma parse_request:
  assumes "request_ok m p version hs"
  shows "http_parse to_lowercase (utf8 (request_text m p version hs) @ content)
    = Some \<lparr>hq_method = m, hq_path = p, hq_headers = header_map to_lowercase hs\<rparr>"
proof -
  let ?t = "lossy_text content"
  let ?line = "m @ 32 # p @ 32 # version"
  have words: "list_all (\<lambda>c. \<not> white_space c) m" "list_all (\<lambda>c. \<not> white_space c) p" "m \<noteq> []" "p \<noteq> []"
    and headers: "list_all (\<lambda>(k, x). line_ok k \<and> line_ok x) hs" "list_all (\<lambda>(k, x). 58 \<notin> set k) hs"
    using assms by (auto simp: request_ok_def token_ok_def list_all_iff)
  have decoded: "lossy_text (utf8 (request_text m p version hs) @ content) = ?line @ 13 # 10 # header_text hs @ ?t"
    using lossy_text_utf8 [OF request_scalars [OF assms]] by (simp add: request_text_def CRLF_def)
  have "list_all (\<lambda>c. c \<noteq> 10) ?line"
    using assms token_line [of m] token_line [of p] by (auto simp: request_ok_def line_ok_def list_all_iff)
  from str_lines_crlf [OF this] header_lines [OF headers(1)]
  have lines: "str_lines (?line @ 13 # 10 # header_text hs @ ?t)
      = ?line # map (\<lambda>(k, x). k @ 58 # x) hs @ [] # str_lines ?t"
    by simp
  have "white_space 32"
    by (simp add: white_space_def)
  with split_words [OF words(1,3)] split_words [OF words(2,4)]
  have "split_whitespace ?line = m # p # split_whitespace version"
    by simp
  with decoded lines header_loop_lines [OF headers(2)] show ?thesis
    by (simp add: http_parse_def header_map_def)
qed

definition routes :: "str list" where
  "routes = [lit ''/'', lit ''/about'', lit ''/health'']"

text \<open>Whatever method, path, headers and body a client sends in the format of HTTP, in any
  Unicode text and any bytes after the blank line, the server reads the method and the path that
  were sent and the last value of each header under its trimmed, lower-cased name, and answers 200
  exactly to a GET of one of its pages.\<close>

theorem http_request_understood:
  assumes "request_ok m p version hs"
  shows "http_parse to_lowercase (utf8 (request_text m p version hs) @ content)
      = Some \<lparr>hq_method = m, hq_path = p, hq_headers = header_map to_lowercase hs\<rparr>
    \<and> hr_status (handle_http_request to_lowercase (utf8 (request_text m p version hs) @ content))
      = (if m = lit ''GET'' \<and> p \<in> set routes then 200 else 404)"
  using parse_request [OF assms, of to_lowercase content]
  by (auto simp: handle_http_request_def routes_def html_responses) (auto simp: html_response_def)

subsection \<open>Samples\<close>

definition get_home :: str where
  "get_home = request_text (lit ''GET'') (lit ''/'') (lit ''HTTP/1.1'') [(lit ''Host'', lit '' x'')]"

lemma get_home_ok: "request_ok (lit ''GET'') (lit ''/'') (lit ''HTTP/1.1'') [(lit ''Host'', lit '' x'')]"
  by (simp add: request_ok_def token_ok_def line_ok_def scalar_def white_space_def lit_simps)

theorem http_request_understood_witness:
  "hr_status (handle_http_request id (utf8 get_home)) = 200"
  using http_request_understood [OF get_home_ok, of id "[]"]
  by (simp add: get_home_def routes_def)

lemma length_utf8: "length (utf8 t) \<le> 4 * length t"
  by (induction t) (auto simp: utf8_def utf8_char_def)

lemma length_show_dec: "length (show_dec n) \<le> Suc n"
proof (induction n rule: show_dec.induct)
  case (1 n)
  then show ?case
    by (cases "n < 10") (subst show_dec.simps; simp)+
qed

lemma length_response: "length (http_to_bytes (html_response 200 content)) \<le> 48 + 17 + 8 * length content"
proof -
  have "length (status_line 200) = 15"
    by (simp add: status_line_def status_text_def lit_def show_dec.simps)
  then show ?thesis
    using length_show_dec [of "length (utf8 content)"] length_utf8 [of content]
    by (simp add: html_response_bytes ascii_def lit_def)
qed

lemma home_page: "\<exists>content. handle_http_request id (utf8 get_home) = html_response 200 content \<and> length content \<le> 200"
  using parse_request [OF get_home_ok, of id "[]"]
  by (simp add: handle_http_request_def get_home_def html_responses) (auto simp: html_response_def lit_def)

theorem http_over_tcp_witness:
  "fst (cut_stream (outgoing (sockets (net_run tcp_server_config_default (http_handler id) (one_chunk (utf8 get_home)) (one_open ())) 1)))
    = [client_view (handle_http_request id (utf8 get_home))]"
proof -
  have "utf8 get_home \<noteq> []" "length (utf8 get_home) \<le> 8192"
    using length_utf8 [of get_home]
    by (simp_all add: get_home_def request_text_def header_text_def CRLF_def lit_simps utf8_def)
  then have reads: "reads_of 1 [] (one_chunk (utf8 get_home)) = [utf8 get_home]"
    using one_chunk_reads [of "utf8 get_home" "[]"] by simp
  have "length (http_to_bytes (handle_http_request id (utf8 get_home))) \<le> 65536"
  proof -
    obtain content where home: "handle_http_request id (utf8 get_home) = html_response 200 content"
        "length content \<le> 200"
      using home_page by blast
    then show ?thesis
      using length_response [of content] by simp
  qed
  then show ?thesis
    using http_over_tcp [where to_lowercase = id and c = 1 and s = "one_open ()" and cfg = tcp_server_config_default,
        OF one_open_facts(1) one_chunk_about _ refl _ refl, of "utf8 get_home"]
    by (simp add: reads one_open_facts)
qed

text \<open>Each read is taken for a whole request: the end of a request that arrives in two pieces is
  answered by a response of its own.\<close>

definition cut_request :: "str \<times> str" where
  "cut_request = (lit ''GET / HT'', lit ''TP/1.1'' @ CRLF @ CRLF)"

lemma http_split_request:
  "utf8 (fst cut_request) @ utf8 (snd cut_request) = utf8 (request_text (lit ''GET'') (lit ''/'') (lit ''HTTP/1.1'') [])"
  "map (\<lambda>d. hr_status (handle_http_request to_lowercase d)) [utf8 (fst cut_request), utf8 (snd cut_request)] = [200, 404]"
proof -
  show "utf8 (fst cut_request) @ utf8 (snd cut_request) = utf8 (request_text (lit ''GET'') (lit ''/'') (lit ''HTTP/1.1'') [])"
    by (simp add: cut_request_def request_text_def header_text_def lit_simps utf8_append [symmetric])
  have scalars: "list_all scalar (fst cut_request)" "list_all scalar (snd cut_request)"
    by (simp_all add: cut_request_def CRLF_def scalar_def lit_simps)
  have "lossy_text [] = []"
    by (subst lossy_text.simps) simp
  with lossy_text_utf8 [OF scalars(1), of "[]"] lossy_text_utf8 [OF scalars(2), of "[]"]
  have "lossy_text (utf8 (fst cut_request)) = fst cut_request" "lossy_text (utf8 (snd cut_request)) = snd cut_request"
    by simp_all
  then show "map (\<lambda>d. hr_status (handle_http_request to_lowercase d)) [utf8 (fst cut_request), utf8 (snd cut_request)]
      = [200, 404]"
    by (simp add: handle_http_request_def http_parse_def cut_request_def CRLF_def str_lines_def strip_cr_def
        split_whitespace_def white_space_def lit_simps html_responses Let_def)
      (simp add: html_response_def)
qed

end
