(* ===== verification/Compute_Server.thy ===== *)
theory Compute_Server
  imports Json_Rpc Http_Server
begin

section \<open>The compute pool demo\<close>

text \<open>
  \<^verbatim>\<open>mill-io/examples/compute_pool.rs\<close>: an HTTP server whose requests submit tasks to the compute
  pool of the event loop that serves them. The state of the handler is that pool; a task is a
  datatype with one constructor for each closure of the source. Parsing and printing of HTTP are the
  functions of \<open>Http_Server\<close>, whose text this example repeats. Printing to the console, the clock and
  the statistics in floating point are left out.
\<close>

subsection \<open>Responses\<close>

definition page_ok :: "str \<Rightarrow> str \<Rightarrow> http_response" where
  "page_ok content content_type = \<lparr>hr_status = 200,
     hr_headers = [(lit ''Content-Type'', content_type),
       (lit ''Content-Length'', lit (show_dec (length (utf8 content))))],
     hr_body = content\<rparr>"

definition page_html :: "str \<Rightarrow> http_response" where
  "page_html content = page_ok content (lit ''text/html'')"

definition page_json :: "str \<Rightarrow> http_response" where
  "page_json content = page_ok content (lit ''application/json'')"

text \<open>A raw string of several lines.\<close>

fun text_lines :: "string list \<Rightarrow> str" where
  "text_lines [] = []"
| "text_lines [l] = lit l"
| "text_lines (l # ls) = lit l @ 10 # text_lines ls"

subsection \<open>Tasks\<close>

datatype compute_job =
    Crypto_hash str
  | Process_image u32 u32
  | Run_analytics usize
  | Timed_print task_priority nat

definition hash_round :: "bytes \<Rightarrow> u64 \<Rightarrow> u64" where
  "hash_round data h = fold (\<lambda>b h. h * 31 + ucast b) data h"

fun hash_rounds :: "nat \<Rightarrow> bytes \<Rightarrow> u64 \<Rightarrow> u64" where
  "hash_rounds 0 data h = h"
| "hash_rounds (Suc n) data h = hash_rounds n data (hash_round data h)"

definition hex_lower :: "nat \<Rightarrow> char" where
  "hex_lower n = (if n < 10 then char_of (48 + n) else char_of (87 + n))"

definition show_hex16 :: "u64 \<Rightarrow> string" where
  "show_hex16 h = map (\<lambda>i. hex_lower (unat h div 16 ^ i mod 16)) (rev [0 ..< 16])"

definition simulate_crypto_hash :: "str \<Rightarrow> string" where
  "simulate_crypto_hash data = show_hex16 (hash_rounds 5000000 (utf8 data) 0)"

definition pixel :: "u32 \<Rightarrow> u32 \<Rightarrow> u32 \<Rightarrow> u32 \<Rightarrow> u64" where
  "pixel width height x y =
     (let r = ucast (x * 255 div width) :: u8;
          g = ucast (y * 255 div height) :: u8;
          b = ucast ((x + y) * 127 div (width + height)) :: u8
      in (ucast r * 299 + ucast g * 587 + ucast b * 114) div 1000)"

definition image_checksum :: "u32 \<Rightarrow> u32 \<Rightarrow> u64" where
  "image_checksum width height =
     fold (\<lambda>y checksum. fold (\<lambda>x checksum. checksum + pixel width height (of_nat x) (of_nat y))
         [0 ..< unat width] checksum)
       [0 ..< unat height] 0"

text \<open>The rounds hash the text repeated, and no checksum wraps: a pixel is at most 255.\<close>

lemma hash_rounds_repeat: "hash_rounds n data h = hash_round (concat (replicate n data)) h"
  by (induction n arbitrary: h) (simp_all add: hash_round_def)

lemma unat_plus_le: "unat (a + b) \<le> unat a + unat (b :: u64)"
  by (simp add: unat_word_ariths)

lemma pixel_bound: "unat (pixel width height x y) \<le> 255"
proof -
  have weighted: "unat (ucast (c :: u8) * k :: u64) \<le> 255 * unat k" for c k
  proof -
    have "unat (ucast c :: u64) = unat c"
      by (simp add: unsigned_ucast_eq take_bit_nat_eq_self order_less_le_trans [OF unsigned_less [of c]])
    moreover have "unat c \<le> 255"
      using unsigned_less [of c, where ?'a = nat] by simp
    ultimately have "unat (ucast c :: u64) * unat k \<le> 255 * unat k"
      by (intro mult_right_mono) simp_all
    then show ?thesis
      by (metis le_trans mod_less_eq_dividend unat_word_ariths(2))
  qed
  have "unat (ucast (r :: u8) * 299 + ucast (g :: u8) * 587 + ucast (b :: u8) * 114 :: u64) \<le> 255000" for r g b
  proof -
    have "unat (ucast r * 299 + ucast g * 587 + ucast b * 114 :: u64)
        \<le> unat (ucast r * 299 :: u64) + unat (ucast g * 587 :: u64) + unat (ucast b * 114 :: u64)"
      using unat_plus_le [of "ucast r * 299 + ucast g * 587" "ucast b * 114"]
        unat_plus_le [of "ucast r * 299" "ucast g * 587"] by linarith
    then show ?thesis
      using weighted [of r 299] weighted [of g 587] weighted [of b 114] by simp
  qed
  note total = this
  have "unat (pixel width height x y) \<le> 255000 div 1000"
    unfolding pixel_def Let_def unat_div
    using div_le_mono [OF total, of _ _ _ 1000] by simp
  then show ?thesis
    by simp
qed

lemma fold_sum_bound:
  assumes "\<And>x. x \<in> set xs \<Longrightarrow> \<forall>s. unat (f x s) \<le> unat s + k"
  shows "unat (fold f xs (s :: u64)) \<le> unat s + length xs * k"
  using assms
proof (induction xs arbitrary: s)
  case (Cons x xs)
  have "unat (fold f xs (f x s)) \<le> unat (f x s) + length xs * k"
    using Cons by simp
  moreover have "unat (f x s) \<le> unat s + k"
    using Cons.prems by simp
  ultimately show ?case
    by simp
qed simp

lemma image_checksum_bound: "unat (image_checksum width height) \<le> unat height * (unat width * 255)"
proof -
  have row: "unat (fold (\<lambda>x s. s + pixel width height (of_nat x) y) [0 ..< unat width] s) \<le> unat s + unat width * 255"
    for y s
    using fold_sum_bound [of "[0 ..< unat width]" "\<lambda>x s. s + pixel width height (of_nat x) y" 255 s]
      pixel_bound unat_plus_le by (simp add: order_trans [OF unat_plus_le])
  show ?thesis
    using fold_sum_bound [of "[0 ..< unat height]" "\<lambda>y s. fold (\<lambda>x s. s + pixel width height (of_nat x) (of_nat y)) [0 ..< unat width] s"
        "unat width * 255" 0] row by (simp add: image_checksum_def)
qed

subsection \<open>The handler\<close>

type_synonym job_pool = "compute_job compute_pool"

definition metrics_json :: "compute_metrics \<Rightarrow> str" where
  \<open>metrics_json m = text_lines
     [''{'',
      ''  "tasks_submitted": '' @ show_dec (unat (tasks_submitted m)) @ '','',
      ''  "tasks_completed": '' @ show_dec (unat (tasks_completed m)) @ '','',
      ''  "tasks_failed": '' @ show_dec (unat (tasks_failed m)) @ '','',
      ''  "active_workers": '' @ show_dec (unat (active_workers m)) @ '','',
      ''  "queue_depth": {'',
      ''    "low": '' @ show_dec (unat (queue_depth m Low)) @ '','',
      ''    "normal": '' @ show_dec (unat (queue_depth m Normal)) @ '','',
      ''    "high": '' @ show_dec (unat (queue_depth m High)) @ '','',
      ''    "critical": '' @ show_dec (unat (queue_depth m Critical)),
      ''  },'',
      ''  "total_execution_time_ms": '' @ show_dec (unat (total_execution_time_ns m div 1000000)),
      ''}'']\<close>

definition home_html :: str where
  \<open>home_html = text_lines
     [''<html>'', ''<head><title>Mill-IO Compute Pool Demo</title></head>'', ''<body>'',
      ''    <h1>Mill-IO Compute Pool Demo</h1>'',
      ''    <p>This server demonstrates I/O + compute separation.</p>'',
      ''    <h2>Available Endpoints:</h2>'',
      ''    <ul>'',
      ''        <li><a href="/">/</a> - This page (quick I/O response)</li>'',
      ''        <li><a href="/hash">/hash</a> - Crypto hashing (HIGH priority compute)</li>'',
      ''        <li><a href="/process-image">/process-image</a> - Image processing (NORMAL priority)</li>'',
      ''        <li><a href="/analytics">/analytics</a> - Analytics (LOW priority)</li>'',
      ''        <li><a href="/burst">/burst</a> - Submit 9 tasks (mixed priorities)</li>'',
      ''        <li><a href="/metrics">/metrics</a> - Compute pool metrics (JSON)</li>'',
      ''    </ul>'', ''</body>'', ''</html>'']\<close>

definition submitted_html :: "string \<Rightarrow> string list \<Rightarrow> str" where
  \<open>submitted_html heading paragraphs = text_lines
     ([''<html>'', ''<body>'', ''    <h1>'' @ heading @ ''</h1>''] @ map (\<lambda>p. ''    <p>'' @ p @ ''</p>'') paragraphs
      @ [''    <p><a href="/metrics">View metrics</a> | <a href="/">Back</a></p>'', ''</body>'', ''</html>''])\<close>

text \<open>A loop of \<open>/burst\<close>.\<close>

fun burst_loop :: "task_priority \<Rightarrow> nat list \<Rightarrow> job_pool \<Rightarrow> job_pool" where
  "burst_loop p [] s = s"
| "burst_loop p (task_id # rest) s = burst_loop p rest (spawn_push (Timed_print p task_id) p s)"

definition compute_request :: "http_request \<Rightarrow> job_pool \<Rightarrow> http_response \<times> job_pool" where
  "compute_request request s =
     (let is_get = (\<lambda>path. hq_method request = lit ''GET'' \<and> hq_path request = lit path) in
      if is_get ''/'' then (page_html home_html, s)
      else if is_get ''/hash'' then
        let s = spawn_push (Crypto_hash (lit ''secret_data_to_hash'')) High s
        in (page_html (submitted_html ''Crypto Hash Task Submitted''
              [''A HIGH priority crypto hashing task has been submitted to the compute pool.'',
               ''Check server console for results.'']), s)
      else if is_get ''/process-image'' then
        let s = spawn_push (Process_image 1000 1000) Normal s
        in (page_html (submitted_html ''Image Processing Task Submitted''
              [''A NORMAL priority image processing task (1000x1000) has been submitted.'',
               ''Check server console for results.'']), s)
      else if is_get ''/analytics'' then
        let s = spawn_push (Run_analytics 10000000) Low s
        in (page_html (submitted_html ''Analytics Task Submitted''
              [''A LOW priority analytics task (10M data points) has been submitted.'',
               ''Check server console for results.'']), s)
      else if is_get ''/metrics'' then (page_json (metrics_json (metrics s)), s)
      else if is_get ''/burst'' then
        let s = burst_loop Low [0 ..< 3] s;
            s = burst_loop High [0 ..< 3] s;
            s = burst_loop Critical [0 ..< 3] s
        in (page_html (submitted_html ''Burst of Tasks Submitted''
              [''9 tasks submitted: 3 LOW, 3 HIGH, 3 CRITICAL priority.'',
               ''Watch the console to see priority ordering in action!'']), s)
      else (http_not_found, s))"

definition compute_on_data :: "lowering \<Rightarrow> connection_id \<Rightarrow> bytes \<Rightarrow> job_pool tcp_state fallible" where
  "compute_on_data to_lowercase c data s = (case http_parse to_lowercase data of
      Some request \<Rightarrow>
        let (response, jobs) = compute_request request (user s)
        in ctx_send_to c (http_to_bytes response) (s\<lparr>user := jobs\<rparr>)
    | None \<Rightarrow> ctx_send_to c (http_to_bytes http_not_found) s)"

definition compute_handler :: "lowering \<Rightarrow> job_pool tcp_handler" where
  "compute_handler to_lowercase = default_handler (compute_on_data to_lowercase)"

definition compute_answer :: "lowering \<Rightarrow> job_pool answerer" where
  "compute_answer to_lowercase c d jobs = (case http_parse to_lowercase d of
      Some request \<Rightarrow> apfst http_to_bytes (compute_request request jobs)
    | None \<Rightarrow> (http_to_bytes http_not_found, jobs))"

interpretation compute_answers: answering "compute_handler to_lowercase" "compute_answer to_lowercase" for to_lowercase
proof (unfold_locales, goal_cases)
  case (1 c d s bs jobs)
  have can: "can_send c n (s\<lparr>user := v\<rparr>) = can_send c n s" for n v
    by (simp add: can_send_def)
  have same: "deliver c out v (s\<lparr>user := w\<rparr>) = deliver c out v s" for out v w
    by (simp add: deliver_def)
  show ?case
  proof (cases "http_parse to_lowercase d")
    case None
    with 1 show ?thesis
      by (simp add: compute_handler_def default_handler_def compute_on_data_def compute_answer_def ctx_send_deliver)
  next
    case (Some request)
    then obtain r where "compute_request request (user s) = (r, jobs)" "bs = http_to_bytes r"
      using 1(1) by (auto simp: compute_answer_def apfst_def map_prod_def split: prod.splits)
    with 1(2) Some ctx_send_deliver [of c bs "s\<lparr>user := jobs\<rparr>"] show ?thesis
      by (simp add: compute_handler_def default_handler_def compute_on_data_def can same)
  qed
qed (simp add: compute_handler_def default_handler_def)

subsection \<open>What a request submits\<close>

definition jobs_of :: "http_request \<Rightarrow> (compute_job \<times> task_priority) list" where
  "jobs_of request =
     (if hq_method request \<noteq> lit ''GET'' then []
      else if hq_path request = lit ''/hash'' then [(Crypto_hash (lit ''secret_data_to_hash''), High)]
      else if hq_path request = lit ''/process-image'' then [(Process_image 1000 1000, Normal)]
      else if hq_path request = lit ''/analytics'' then [(Run_analytics 10000000, Low)]
      else if hq_path request = lit ''/burst''
      then concat (map (\<lambda>p. map (\<lambda>i. (Timed_print p i, p)) [0 ..< 3]) [Low, High, Critical])
      else [])"

definition jobs_read :: "lowering \<Rightarrow> bytes \<Rightarrow> (compute_job \<times> task_priority) list" where
  "jobs_read to_lowercase d = (case http_parse to_lowercase d of Some request \<Rightarrow> jobs_of request | None \<Rightarrow> [])"

lemma spawn_all_append: "spawn_all (ts @ us) s = spawn_all us (spawn_all ts s)"
  by (induction ts s rule: spawn_all.induct) simp_all

lemma burst_jobs: "burst_loop p ids s = spawn_all (map (\<lambda>i. (Timed_print p i, p)) ids) s"
  by (induction p ids s rule: burst_loop.induct) simp_all

lemma request_jobs: "snd (compute_request request s) = spawn_all (jobs_of request) s"
proof (cases "hq_method request = lit ''GET''")
  case True
  show ?thesis
    by (cases "hq_path request = lit ''/hash''"; cases "hq_path request = lit ''/process-image''";
        cases "hq_path request = lit ''/analytics''"; cases "hq_path request = lit ''/burst''")
      (simp_all add: compute_request_def jobs_of_def Let_def True lit_inject burst_jobs spawn_all_append del: upt_Suc)
qed (simp add: compute_request_def jobs_of_def Let_def)

lemma answer_jobs: "snd (compute_answer to_lowercase c d s) = spawn_all (jobs_read to_lowercase d) s"
  by (simp add: compute_answer_def jobs_read_def request_jobs split: option.splits)

lemma answers_jobs:
  "snd (answer_all (compute_answer to_lowercase) reads s) = spawn_all (concat (map (jobs_read to_lowercase \<circ> snd) reads)) s"
proof (induction reads arbitrary: s)
  case (Cons r reads)
  obtain bs s1 where one: "compute_answer to_lowercase (fst r) (snd r) s = (bs, s1)"
    by fastforce
  have "s1 = spawn_all (jobs_read to_lowercase (snd r)) s"
    using answer_jobs [of to_lowercase "fst r" "snd r" s] one by simp
  with one Cons.IH [of s1] show ?case
    by (cases r) (simp add: spawn_all_append case_prod_unfold Let_def)
qed simp


subsection \<open>Samples\<close>

definition get_burst :: str where
  "get_burst = request_text (lit ''GET'') (lit ''/burst'') (lit ''HTTP/1.1'') []"

lemma get_burst_jobs:
  shows "jobs_read id (utf8 get_burst)
    = concat (map (\<lambda>p. map (\<lambda>i. (Timed_print p i, p)) [0 ..< 3]) [Low, High, Critical])"
    and "length (fst (compute_answer id 1 (utf8 get_burst) jobs)) \<le> 65536"
proof -
  have "request_ok (lit ''GET'') (lit ''/burst'') (lit ''HTTP/1.1'') []"
    by (simp add: request_ok_def token_ok_def line_ok_def scalar_def white_space_def lit_simps)
  note parsed = parse_request [OF this, of id "[]"]
  show "jobs_read id (utf8 get_burst)
      = concat (map (\<lambda>p. map (\<lambda>i. (Timed_print p i, p)) [0 ..< 3]) [Low, High, Critical])"
    using parsed by (simp add: jobs_read_def get_burst_def jobs_of_def lit_inject)
  let ?page = "submitted_html ''Burst of Tasks Submitted''
      [''9 tasks submitted: 3 LOW, 3 HIGH, 3 CRITICAL priority.'',
       ''Watch the console to see priority ordering in action!'']"
  have "fst (compute_answer id 1 (utf8 get_burst) jobs) = http_to_bytes (html_response 200 ?page)"
    using parsed by (simp add: compute_answer_def get_burst_def compute_request_def lit_inject page_html_def
        page_ok_def html_response_def Let_def)
  moreover have "length ?page \<le> 400"
    by (simp add: submitted_html_def lit_def)
  ultimately show "length (fst (compute_answer id 1 (utf8 get_burst) jobs)) \<le> 65536"
    using length_response [of ?page] by simp
qed


end
