(* ===== verification/Bare_Server.thy ===== *)
theory Bare_Server
  imports Json_Rpc Http_Server
begin

section \<open>Servers on the bare event loop\<close>

text \<open>
  \<^verbatim>\<open>mill-io/examples/scratch_echo_server.rs\<close>, \<^verbatim>\<open>scratch_http_server.rs\<close> and
  \<^verbatim>\<open>scratch_jsonrpc_server.rs\<close>: servers that register a listener and one handler per client
  with the event loop themselves. A stream is named by the token it was registered under; the
  map of connections of the echo and the JSON-RPC server is the set of tokens whose streams it holds,
  while a handler of the HTTP server holds its own stream. Printing is left out, and so are
  poisoned locks.
\<close>

subsection \<open>State\<close>

datatype bare_handler = Listening | Serving token

record 'u bare_state =
  conns :: "token set"
  streams :: "token \<Rightarrow> socket"
  next_token :: usize
  bare_pool :: "unit object_pool"
  waiting_conns :: "accept_result list"
  bare_poll :: "bare_handler poll_handle"
  bare_user :: 'u

definition LISTENER_TOKEN :: token where
  "LISTENER_TOKEN = 1"

definition FIRST_TOKEN :: usize where
  "FIRST_TOKEN = 2"

definition take_token :: "'u bare_state \<Rightarrow> token \<times> 'u bare_state" where
  "take_token s = (unat (next_token s), s\<lparr>next_token := next_token s + 1\<rparr>)"

definition readable_only :: interest where
  "readable_only = \<lparr>wants_readable = True, wants_writable = False\<rparr>"

definition both_ways :: interest where
  "both_ways = \<lparr>wants_readable = True, wants_writable = True\<rparr>"

text \<open>\<open>main\<close> up to \<open>run\<close>, and the constructor of the server; \<open>None\<close> when the listener cannot be
  registered. The HTTP server has 20 buffers, the others 10.\<close>

definition bare_start :: "string option \<Rightarrow> nat \<Rightarrow> bytes \<Rightarrow> (token \<Rightarrow> socket) \<Rightarrow> 'u \<Rightarrow> 'u bare_state option" where
  "bare_start register_err buffers buffer socks u =
     (case register (as_outcome register_err) LISTENER_TOKEN readable_only Listening poll_handle_new of
        (Ok _, p) \<Rightarrow> Some \<lparr>conns = {}, streams = socks, next_token = FIRST_TOKEN,
          bare_pool = object_pool_new buffers (Bytes buffer), waiting_conns = [], bare_poll = p, bare_user = u\<rparr>
      | _ \<Rightarrow> None)"

subsection \<open>Accepting\<close>

text \<open>The loop of all three servers: they differ in the interest they register and in whether the
  map of connections holds the stream. An error ends the loop and leaves the connections behind it
  where they are.\<close>

fun bare_accept :: "interest \<Rightarrow> bool \<Rightarrow> accept_result list \<Rightarrow> 'u bare_state \<Rightarrow> string option \<times> 'u bare_state" where
  "bare_accept i tracked [] s = (None, s\<lparr>waiting_conns := []\<rparr>)"
| "bare_accept i tracked (Accepted a # rest) s =
     (let (tok, s) = take_token s;
          s = s\<lparr>streams := (streams s)(tok := stream a)\<rparr>;
          (res, p) = register (as_outcome (register_error a)) tok i (Serving tok) (bare_poll s);
          s = s\<lparr>bare_poll := p\<rparr>
      in case register_error a of
           Some e \<Rightarrow> (Some e, s\<lparr>waiting_conns := rest\<rparr>)
         | None \<Rightarrow> bare_accept i tracked rest (if tracked then s\<lparr>conns := insert tok (conns s)\<rparr> else s))"
| "bare_accept i tracked (Accept_failed e # rest) s = (Some e, s\<lparr>waiting_conns := rest\<rparr>)"

definition echo_listen :: "mio_event \<Rightarrow> 'u bare_state \<Rightarrow> 'u bare_state" where
  "echo_listen ev s =
     (if event_token ev = LISTENER_TOKEN then snd (bare_accept both_ways True (waiting_conns s) s) else s)"

definition http_listen :: "mio_event \<Rightarrow> 'u bare_state \<Rightarrow> 'u bare_state" where
  "http_listen ev s =
     (if event_token ev = LISTENER_TOKEN \<and> is_readable ev
      then snd (bare_accept readable_only False (waiting_conns s) s) else s)"

definition json_listen :: "mio_event \<Rightarrow> 'u bare_state \<Rightarrow> 'u bare_state" where
  "json_listen ev s =
     (if event_token ev = LISTENER_TOKEN \<and> is_readable ev
      then snd (bare_accept readable_only True (waiting_conns s) s) else s)"

subsection \<open>Serving a client\<close>

definition put_stream :: "token \<Rightarrow> socket \<Rightarrow> 'u bare_state \<Rightarrow> 'u bare_state" where
  "put_stream tok k s = s\<lparr>streams := (streams s)(tok := k)\<rparr>"

definition write_stream :: "token \<Rightarrow> bytes \<Rightarrow> 'u bare_state \<Rightarrow> string option \<times> 'u bare_state" where
  "write_stream tok data s = (let (e, k) = write_all data (streams s tok) in (e, put_stream tok k s))"

text \<open>A read into a buffer of the pool, which goes back at the end of the handler.\<close>

definition read_pooled :: "token \<Rightarrow> (read_result \<Rightarrow> 'u bare_state \<Rightarrow> 'u bare_state) \<Rightarrow> 'u bare_state
    \<Rightarrow> 'u bare_state" where
  "read_pooled tok act s =
     (let (buffer, bp) = acquire (bare_pool s);
          s = s\<lparr>bare_pool := bp\<rparr>
      in case buffer of
           Some (Bytes b) \<Rightarrow>
             let (res, k) = sock_read (length b) (streams s tok);
                 s = act res (put_stream tok k s)
             in s\<lparr>bare_pool := pooled_drop buffer (bare_pool s)\<rparr>
         | _ \<Rightarrow> s)"

definition deregister_stream :: "token \<Rightarrow> 'u bare_state \<Rightarrow> 'u bare_state" where
  "deregister_stream tok s =
     s\<lparr>bare_poll := snd (deregister (as_outcome (deregister_error (streams s tok))) tok (bare_poll s))\<rparr>"

definition drop_conn :: "token \<Rightarrow> 'u bare_state \<Rightarrow> 'u bare_state" where
  "drop_conn tok s =
     (if tok \<in> conns s then deregister_stream tok (s\<lparr>conns := conns s - {tok}\<rparr>) else s)"

definition after_write :: "(token \<Rightarrow> 'u bare_state \<Rightarrow> 'u bare_state) \<Rightarrow> token \<Rightarrow> string option \<times> 'u bare_state
    \<Rightarrow> 'u bare_state" where
  "after_write disconnect tok r = (case r of (Some e, s) \<Rightarrow> disconnect tok s | (None, s) \<Rightarrow> s)"

definition echo_read :: "token \<Rightarrow> read_result \<Rightarrow> 'u bare_state \<Rightarrow> 'u bare_state" where
  "echo_read tok res s = (case res of
      Read data \<Rightarrow>
        if data = [] then drop_conn tok s
        else after_write drop_conn tok (write_stream tok data s)
    | Read_blocked \<Rightarrow> s
    | Read_failed e \<Rightarrow> drop_conn tok s)"

definition echo_client :: "token \<Rightarrow> mio_event \<Rightarrow> 'u bare_state \<Rightarrow> 'u bare_state" where
  "echo_client tok ev s =
     (if tok \<in> conns s then if is_readable ev then read_pooled tok (echo_read tok) s else s else s)"

definition http_read :: "lowering \<Rightarrow> token \<Rightarrow> read_result \<Rightarrow> 'u bare_state \<Rightarrow> 'u bare_state" where
  "http_read to_lowercase tok res s = (case res of
      Read data \<Rightarrow>
        if data = [] then deregister_stream tok s
        else let response = handle_http_request to_lowercase data;
                 response_bytes = http_to_bytes response
             in after_write deregister_stream tok (write_stream tok response_bytes s)
    | Read_blocked \<Rightarrow> s
    | Read_failed e \<Rightarrow> deregister_stream tok s)"

definition http_client :: "lowering \<Rightarrow> token \<Rightarrow> mio_event \<Rightarrow> 'u bare_state \<Rightarrow> 'u bare_state" where
  "http_client to_lowercase tok ev s =
     (if \<not> is_readable ev then s else read_pooled tok (http_read to_lowercase tok) s)"

definition json_read :: "'m store_ops \<Rightarrow> (nat \<Rightarrow> u64) \<Rightarrow> json_reader \<Rightarrow> json_writer \<Rightarrow> token
    \<Rightarrow> read_result \<Rightarrow> 'm json_state bare_state \<Rightarrow> 'm json_state bare_state" where
  "json_read K time from_slice to_vec tok res s = (case res of
      Read data \<Rightarrow>
        if data = [] then drop_conn tok s
        else let (response, u) = handle_rpc_request K time from_slice data (bare_user s);
                 s = s\<lparr>bare_user := u\<rparr>
             in case to_vec response of
                  Inr response_data \<Rightarrow> after_write drop_conn tok (write_stream tok response_data s)
                | Inl e \<Rightarrow> s
    | Read_blocked \<Rightarrow> s
    | Read_failed e \<Rightarrow> drop_conn tok s)"

definition json_client :: "'m store_ops \<Rightarrow> (nat \<Rightarrow> u64) \<Rightarrow> json_reader \<Rightarrow> json_writer \<Rightarrow> token
    \<Rightarrow> mio_event \<Rightarrow> 'm json_state bare_state \<Rightarrow> 'm json_state bare_state" where
  "json_client K time from_slice to_vec tok ev s =
     (if \<not> is_readable ev then s
      else if tok \<notin> conns s then s
      else read_pooled tok (json_read K time from_slice to_vec tok) s)"

subsection \<open>Under the event loop\<close>

definition bare_handling :: "(mio_event \<Rightarrow> 'u bare_state \<Rightarrow> 'u bare_state)
    \<Rightarrow> (token \<Rightarrow> mio_event \<Rightarrow> 'u bare_state \<Rightarrow> 'u bare_state) \<Rightarrow> (bare_handler, 'u bare_state) handling" where
  "bare_handling listen client h ev w =
     (let s = (snd w)\<lparr>bare_poll := fst w\<rparr>;
          s = (case h of Listening \<Rightarrow> listen ev s | Serving tok \<Rightarrow> client tok ev s)
      in (bare_poll s, s))"

definition bare_event :: "(mio_event \<Rightarrow> 'u bare_state \<Rightarrow> 'u bare_state)
    \<Rightarrow> (token \<Rightarrow> mio_event \<Rightarrow> 'u bare_state \<Rightarrow> 'u bare_state) \<Rightarrow> mio_event \<Rightarrow> 'u bare_state \<Rightarrow> 'u bare_state" where
  "bare_event listen client ev s = snd (handle_event (bare_handling listen client) ev (bare_poll s, s))"

fun bare_step :: "(mio_event \<Rightarrow> 'u bare_state \<Rightarrow> 'u bare_state)
    \<Rightarrow> (token \<Rightarrow> mio_event \<Rightarrow> 'u bare_state \<Rightarrow> 'u bare_state) \<Rightarrow> net_op \<Rightarrow> 'u bare_state \<Rightarrow> 'u bare_state" where
  "bare_step listen client (Arrives c bs) s =
     put_stream (unat c) ((streams s (unat c))\<lparr>incoming := incoming (streams s (unat c)) @ bs\<rparr>) s"
| "bare_step listen client (Polled c r w) s = bare_event listen client (poll_of c r w) s"

definition bare_run :: "(mio_event \<Rightarrow> 'u bare_state \<Rightarrow> 'u bare_state)
    \<Rightarrow> (token \<Rightarrow> mio_event \<Rightarrow> 'u bare_state \<Rightarrow> 'u bare_state) \<Rightarrow> net_op list \<Rightarrow> 'u bare_state \<Rightarrow> 'u bare_state" where
  "bare_run listen client ops s = fold (bare_step listen client) ops s"

subsection \<open>Refinement of the machine of streams\<close>

definition bare_stream :: "'u bare_state \<Rightarrow> 'u stream_state" where
  "bare_stream s = \<lparr>queued = (\<lambda>c. incoming (streams s (unat c))),
     sent = (\<lambda>c. outgoing (streams s (unat c))), owned = bare_user s\<rparr>"

definition bare_working :: "bool \<Rightarrow> connection_id set \<Rightarrow> (connection_id \<Rightarrow> nat) \<Rightarrow> 'u bare_state \<Rightarrow> bool" where
  "bare_working tracked C cap s \<longleftrightarrow> bytes_only (bare_pool s) \<and> (\<forall>c \<in> C. let k = streams s (unat c) in
     (tracked \<longrightarrow> unat c \<in> conns s)
     \<and> (\<exists>i. hm_get (registry (bare_poll s)) (unat c) = Some \<lparr>handler = Serving (unat c), entry_interest = i\<rparr>
          \<and> wants_readable i)
     \<and> \<not> at_eof k \<and> read_error k = None \<and> write_error k = None
     \<and> length (outgoing k) + room k = cap c)"

definition bare_deliver :: "token \<Rightarrow> bytes \<Rightarrow> 'u \<Rightarrow> 'u bare_state \<Rightarrow> 'u bare_state" where
  "bare_deliver tok bs u s = s\<lparr>streams := (streams s)(tok := (streams s tok)
       \<lparr>outgoing := outgoing (streams s tok) @ bs, room := room (streams s tok) - length bs\<rparr>), bare_user := u\<rparr>"

lemma unat_inject [simp]: "unat (c :: u64) = unat d \<longleftrightarrow> c = d"
  by (simp add: word_unat_eq_iff)

lemma bare_pool_irrelevant [simp]:
  "bare_stream (s\<lparr>bare_pool := bp\<rparr>) = bare_stream s"
  by (simp add: bare_stream_def)

lemma bare_working_pool: "bare_working t C cap s \<Longrightarrow> bytes_only bp \<Longrightarrow> bare_working t C cap (s\<lparr>bare_pool := bp\<rparr>)"
  by (simp add: bare_working_def)

lemma bare_stream_incoming:
  "bare_stream (put_stream (unat c) ((streams s (unat c))\<lparr>incoming := bs\<rparr>) s)
     = (bare_stream s)\<lparr>queued := (queued (bare_stream s))(c := bs)\<rparr>"
  by (auto simp: bare_stream_def put_stream_def fun_eq_iff)

lemma bare_working_incoming:
  "bare_working t C cap (put_stream tok ((streams s tok)\<lparr>incoming := bs\<rparr>) s) = bare_working t C cap s"
  by (auto simp: bare_working_def put_stream_def Let_def)

lemma bare_stream_deliver: "bare_stream (bare_deliver (unat c) bs u s)
    = (bare_stream s)\<lparr>sent := (sent (bare_stream s))(c := sent (bare_stream s) c @ bs), owned := u\<rparr>"
  by (auto simp: bare_stream_def bare_deliver_def fun_eq_iff)

lemma bare_working_deliver:
  "bare_working t C cap s \<Longrightarrow> c \<in> C \<Longrightarrow> length (sent (bare_stream s) c) + length bs \<le> cap c \<Longrightarrow>
     bare_working t C cap (bare_deliver (unat c) bs u s)"
  by (auto simp: bare_working_def bare_deliver_def bare_stream_def Let_def)

lemma write_deliver:
  assumes "write_error (streams s tok) = None" and "length bs \<le> room (streams s tok)"
  shows "write_stream tok bs s = (None, bare_deliver tok bs (bare_user s) s)"
  using assms by (auto simp: write_stream_def write_all_def bare_deliver_def put_stream_def)

text \<open>The contract of a client's handler: it reads if the stream is ready and its own, and answers
  what it has read on the same stream.\<close>

locale bare_answering =
  fixes client :: "token \<Rightarrow> mio_event \<Rightarrow> 'u bare_state \<Rightarrow> 'u bare_state" and act :: "token \<Rightarrow> read_result \<Rightarrow> 'u bare_state \<Rightarrow> 'u bare_state"
    and tracked :: bool and f :: "'u answerer"
  assumes not_ready: "\<not> is_readable ev \<Longrightarrow> client tok ev s = s"
    and ready: "is_readable ev \<Longrightarrow> tracked \<longrightarrow> tok \<in> conns s \<Longrightarrow> client tok ev s = read_pooled tok (act tok) s"
    and blocked: "act tok Read_blocked s = s"
    and data_read: "d \<noteq> [] \<Longrightarrow> f c d (bare_user s) = (bs, u) \<Longrightarrow> write_error (streams s (unat c)) = None \<Longrightarrow>
        length bs \<le> room (streams s (unat c)) \<Longrightarrow> act (unat c) (Read d) s = bare_deliver (unat c) bs u s"
begin

lemma act_refines:
  assumes "bare_working tracked C cap s" and "c \<in> C" and "d \<noteq> []"
    and "length (sent (stream_read f c d (bare_stream s)) c) \<le> cap c"
  defines "s' \<equiv> act (unat c) (Read d) s"
  shows "bare_stream s' = stream_read f c d (bare_stream s) \<and> bare_working tracked C cap s'"
proof -
  obtain bs u where f: "f c d (bare_user s) = (bs, u)"
    by fastforce
  then have read: "stream_read f c d (bare_stream s) = bare_stream (bare_deliver (unat c) bs u s)"
    by (simp add: stream_read_def bare_stream_deliver) (simp add: bare_stream_def)
  with assms(4) have fits: "length (sent (bare_stream s) c) + length bs \<le> cap c"
    by (simp add: bare_stream_deliver)
  then have "write_error (streams s (unat c)) = None" "length bs \<le> room (streams s (unat c))"
    using assms(1,2) by (auto simp: bare_working_def bare_stream_def Let_def)
  from data_read [OF assms(3) f this] show ?thesis
    unfolding s'_def read using bare_working_deliver [OF assms(1,2) fits] by simp
qed

lemma bare_read_refines:
  assumes "bare_working tracked C cap s" and "c \<in> C"
    and "length (sent (stream_step f (Polled c True b) (bare_stream s)) c) \<le> cap c"
  defines "s' \<equiv> read_pooled (unat c) (act (unat c)) s"
  shows "bare_stream s' = stream_step f (Polled c True b) (bare_stream s) \<and> bare_working tracked C cap s'"
proof -
  let ?k = "streams s (unat c)"
  obtain buffer bp where buf: "acquire (bare_pool s) = (buffer, bp)"
    by fastforce
  have pool: "bytes_only (bare_pool s)" and sock: "\<not> at_eof ?k" "read_error ?k = None"
    using assms(1,2) by (auto simp: bare_working_def Let_def)
  from acquire_bytes [OF pool buf] have buffer: "buffer = Some (Bytes (replicate IO_BUFFER_SIZE 0))"
    and bp: "bytes_only bp"
    by simp_all
  have give_back: "bytes_only p \<Longrightarrow> bytes_only (pooled_drop buffer p)" for p :: "unit object_pool"
    by (auto simp: buffer pooled_drop_def bytes_only_def)
  show ?thesis
  proof (cases "incoming ?k = []")
    case True
    then have "s' = s\<lparr>bare_pool := pooled_drop buffer bp\<rparr>"
      using buf buffer sock
      by (simp add: s'_def read_pooled_def sock_read_def IO_BUFFER_SIZE_def blocked put_stream_def Let_def)
    moreover have "queued (bare_stream s) c = []"
      using True by (simp add: bare_stream_def)
    ultimately show ?thesis
      using assms(1) bp by (simp add: bare_working_pool give_back)
  next
    case False
    let ?d = "take IO_BUFFER_SIZE (incoming ?k)"
    let ?s0 = "s\<lparr>bare_pool := bp\<rparr>"
    let ?s1 = "put_stream (unat c) ((streams ?s0 (unat c))\<lparr>incoming := drop IO_BUFFER_SIZE (incoming ?k)\<rparr>) ?s0"
    have work: "bare_working tracked C cap ?s1"
      using bare_working_incoming [where s = ?s0] bare_working_pool [OF assms(1) bp] by simp
    have "bare_stream ?s1 = (bare_stream s)\<lparr>queued := (queued (bare_stream s))(c := drop IO_BUFFER_SIZE (queued (bare_stream s) c))\<rparr>"
      unfolding bare_stream_incoming by (simp add: bare_stream_def)
    then have step: "stream_step f (Polled c True b) (bare_stream s) = stream_read f c ?d (bare_stream ?s1)"
      using False by (simp add: bare_stream_def)
    have "?d \<noteq> []"
      using False by (simp add: IO_BUFFER_SIZE_def)
    note act = act_refines [OF work assms(2) this, folded step, OF assms(3)]
    have "s' = (act (unat c) (Read ?d) ?s1)\<lparr>bare_pool := pooled_drop buffer (bare_pool (act (unat c) (Read ?d) ?s1))\<rparr>"
      using buf buffer sock False by (simp add: s'_def read_pooled_def sock_read_def IO_BUFFER_SIZE_def Let_def)
    with act give_back show ?thesis
      by (simp add: bare_working_pool) (simp add: bare_working_def)
  qed
qed

lemma bare_step_refines:
  fixes listen :: "mio_event \<Rightarrow> 'u bare_state \<Rightarrow> 'u bare_state"
  assumes "bare_working tracked C cap s" and "about op \<in> C"
    and "length (sent (stream_step f op (bare_stream s)) (about op)) \<le> cap (about op)"
  defines "s' \<equiv> bare_step listen client op s"
  shows "bare_stream s' = stream_step f op (bare_stream s) \<and> bare_working tracked C cap s'"
proof (cases op)
  case (Arrives c bs)
  with assms(1) show ?thesis
    by (simp add: s'_def bare_stream_incoming bare_working_incoming) (simp add: bare_stream_def)
next
  case (Polled c r w)
  obtain i where "hm_get (registry (bare_poll s)) (unat c) = Some \<lparr>handler = Serving (unat c), entry_interest = i\<rparr>"
      "wants_readable i" "tracked \<longrightarrow> unat c \<in> conns s"
    using assms(1,2) Polled by (auto simp: bare_working_def Let_def)
  then have s': "s' = (if r then read_pooled (unat c) (act (unat c)) s else s)"
    using not_ready [of "poll_of c r w"] ready [of "poll_of c r w" "unat c" s]
    by (auto simp: s'_def Polled bare_event_def handle_event_def poll_of_def interested_def bare_handling_def
        as_u64_def Let_def)
  show ?thesis
  proof (cases r)
    case True
    with assms(2,3) bare_read_refines [OF assms(1), of c w] s' Polled show ?thesis
      by simp
  qed (use s' assms(1) Polled in simp)
qed

lemma bare_run_refines:
  assumes "bare_working tracked C cap s" and "\<forall>op \<in> set ops. about op \<in> C"
    and "\<forall>c \<in> C. length (sent (stream_run f ops (bare_stream s)) c) \<le> cap c"
  shows "bare_stream (bare_run listen client ops s) = stream_run f ops (bare_stream s)
    \<and> bare_working tracked C cap (bare_run listen client ops s)"
  using assms
proof (induction ops arbitrary: s)
  case Nil
  then show ?case by (simp add: bare_run_def stream_run_def)
next
  case (Cons op ops)
  let ?a = "stream_step f op (bare_stream s)"
  have "length (sent ?a (about op)) \<le> length (sent (stream_run f ops ?a) (about op))"
    using sent_run [of f ops ?a "about op"] by auto
  also have "\<dots> \<le> cap (about op)"
    using Cons.prems(2,3) by (simp add: stream_run_def)
  finally have "length (sent ?a (about op)) \<le> cap (about op)" .
  with Cons.prems(1,2) bare_step_refines [of C cap s op listen]
  have step: "bare_stream (bare_step listen client op s) = ?a" "bare_working tracked C cap (bare_step listen client op s)"
    by simp_all
  with Cons.prems(2,3) Cons.IH [OF step(2)] show ?case
    by (simp add: bare_run_def stream_run_def)
qed

end

interpretation bare_echo: bare_answering echo_client echo_read True "\<lambda>c d u. (d, u)"
  by unfold_locales (simp_all add: echo_client_def echo_read_def write_deliver after_write_def)

interpretation bare_http: bare_answering "http_client to_lowercase" "http_read to_lowercase" False
    "http_answer to_lowercase" for to_lowercase
  by unfold_locales (auto simp: http_client_def http_read_def http_answer_def write_deliver after_write_def Let_def)

interpretation bare_json: bare_answering "json_client K time from_slice to_vec" "json_read K time from_slice to_vec"
    True "json_answer K time from_slice to_vec" for K :: "'m store_ops" and time from_slice to_vec
proof (unfold_locales, goal_cases)
  case (4 d c s bs u)
  obtain r where r: "handle_rpc_request K time from_slice d (bare_user s) = (r, u)" "bs = printed to_vec r"
    using 4(2) by (auto simp: json_answer_def apfst_def map_prod_def split: prod.splits)
  have user: "bare_deliver t bs u (s\<lparr>bare_user := v\<rparr>) = bare_deliver t bs u s" for t bs v
    by (simp add: bare_deliver_def)
  show ?case
  proof (cases "to_vec r")
    case (Inl e)
    with r 4(1) show ?thesis
      by (simp add: json_read_def printed_def bare_deliver_def)
  next
    case (Inr out)
    with 4 r write_deliver [of "s\<lparr>bare_user := u\<rparr>" "unat c" out] show ?thesis
      by (simp add: json_read_def printed_def after_write_def user)
  qed
qed (simp_all add: json_client_def json_read_def)

text \<open>C39: the JSON-RPC server on the bare event loop and the one on the TCP server are the same for
  their clients: from corresponding states, whatever bytes arrive and whatever polls report, both
  have read the same, send the same bytes on every connection and end with the same data store.\<close>

theorem json_servers_agree:
  assumes "working C cap s" and "bare_working True C cap b" and "bare_stream b = stream_of s"
    and "\<forall>op \<in> set ops. about op \<in> C"
    and "f = json_answer K time from_slice to_vec"
    and "\<forall>c \<in> C. length (sent (stream_run f ops (stream_of s)) c) \<le> cap c"
  shows "bare_stream (bare_run json_listen (json_client K time from_slice to_vec) ops b)
    = stream_of (net_run cfg (json_handler K time from_slice to_vec) ops s)"
  using assms json_answers.run_refines [of C cap s ops] bare_json.bare_run_refines [OF assms(2,4)] by simp

text \<open>So are the two echo servers and the two HTTP servers.\<close>

theorem echo_servers_agree:
  assumes "working C cap s" and "bare_working True C cap b" and "bare_stream b = stream_of s"
    and "\<forall>op \<in> set ops. about op \<in> C"
    and "\<forall>c \<in> C. length (sent (stream_run (\<lambda>c d u. (d, u)) ops (stream_of s)) c) \<le> cap c"
  shows "bare_stream (bare_run listen echo_client ops b) = stream_of (net_run cfg echo_handler ops s)"
  using assms echo_answers.run_refines [of C cap s ops] bare_echo.bare_run_refines [OF assms(2,4)] by simp

theorem http_servers_agree:
  assumes "working C cap s" and "bare_working False C cap b" and "bare_stream b = stream_of s"
    and "\<forall>op \<in> set ops. about op \<in> C"
    and "\<forall>c \<in> C. length (sent (stream_run (http_answer to_lowercase) ops (stream_of s)) c) \<le> cap c"
  shows "bare_stream (bare_run listen (http_client to_lowercase) ops b)
    = stream_of (net_run cfg (http_handler to_lowercase) ops s)"
  using assms http_answers.run_refines [of C cap s ops] bare_http.bare_run_refines [OF assms(2,4)] by simp

subsection \<open>Connections and registry\<close>

definition bare_at :: "'u bare_state \<Rightarrow> token \<Rightarrow> bare_handler option" where
  "bare_at s t = map_option handler (hm_get (registry (bare_poll s)) t)"

definition bare_inv :: "'u bare_state \<Rightarrow> bool" where
  "bare_inv s \<longleftrightarrow> 2 \<le> unat (next_token s)
     \<and> (\<forall>t. bare_at s t = Some Listening \<longleftrightarrow> t = 1)
     \<and> (\<forall>t t'. bare_at s t = Some (Serving t') \<longleftrightarrow> t' = t \<and> t \<in> conns s)
     \<and> (\<forall>t \<in> conns s. 2 \<le> t \<and> t < unat (next_token s))
     \<and> (\<forall>t. deregister_error (streams s t) = None)"

definition arrivals_ok :: "accept_result list \<Rightarrow> bool" where
  "arrivals_ok as \<longleftrightarrow> (\<forall>a. Accepted a \<in> set as \<longrightarrow> deregister_error (stream a) = None)"

text \<open>What a client's handler leaves alone, and what it does when it gives its stream up.\<close>

definition same_conns :: "'u bare_state \<Rightarrow> 'u bare_state \<Rightarrow> bool" where
  "same_conns s s' \<longleftrightarrow> conns s' = conns s \<and> bare_poll s' = bare_poll s \<and> next_token s' = next_token s
     \<and> waiting_conns s' = waiting_conns s \<and> (\<forall>t. deregister_error (streams s' t) = deregister_error (streams s t))"

definition client_step :: "token \<Rightarrow> 'u bare_state \<Rightarrow> 'u bare_state \<Rightarrow> bool" where
  "client_step tok s s' \<longleftrightarrow> same_conns s s' \<or> (\<exists>r. same_conns s r \<and> same_conns (drop_conn tok r) s')"

lemma same_conns_refl [simp]: "same_conns s s"
  by (simp add: same_conns_def)

lemma same_conns_trans: "same_conns r s \<Longrightarrow> same_conns s t \<Longrightarrow> same_conns r t"
  by (simp add: same_conns_def)

lemma client_step_before: "same_conns r s \<Longrightarrow> client_step tok s t \<Longrightarrow> client_step tok r t"
  unfolding client_step_def by (blast intro: same_conns_trans)

lemma client_step_after: "client_step tok r s \<Longrightarrow> same_conns s t \<Longrightarrow> client_step tok r t"
  unfolding client_step_def by (blast intro: same_conns_trans)

lemma client_step_drop [simp]: "client_step tok s s" "client_step tok s (drop_conn tok s)"
  unfolding client_step_def by (blast intro: same_conns_refl)+

lemma bare_pool_conns: "same_conns s (s\<lparr>bare_pool := bp\<rparr>)" "same_conns s (s\<lparr>bare_user := u\<rparr>)"
  by (simp_all add: same_conns_def)

lemma put_stream_conns:
  "deregister_error k = deregister_error (streams s tok) \<Longrightarrow> same_conns s (put_stream tok k s)"
  by (simp add: same_conns_def put_stream_def)

lemma sock_read_deregister: "sock_read n k = (res, k') \<Longrightarrow> deregister_error k' = deregister_error k"
  by (auto simp: sock_read_def split: option.splits if_splits)

lemma read_pooled_step:
  assumes "\<And>res r. client_step tok r (act res r)"
  shows "client_step tok s (read_pooled tok act s)"
proof -
  obtain buffer bp where buf: "acquire (bare_pool s) = (buffer, bp)"
    by fastforce
  let ?s = "s\<lparr>bare_pool := bp\<rparr>"
  show ?thesis
  proof (cases "\<exists>b. buffer = Some (Bytes b)")
    case True
    then obtain b where b: "buffer = Some (Bytes b)" ..
    obtain res k where read: "sock_read (length b) (streams s tok) = (res, k)"
      by fastforce
    have "same_conns s (put_stream tok k ?s)"
      using put_stream_conns [of k ?s tok] sock_read_deregister [OF read] bare_pool_conns(1) [of s bp]
      by (auto intro: same_conns_trans)
    then have "client_step tok s (act res (put_stream tok k ?s))"
      using assms by (rule client_step_before)
    from client_step_after [OF this bare_pool_conns(1)] show ?thesis
      using buf b read by (simp add: read_pooled_def Let_def)
  next
    case False
    then have "read_pooled tok act s = ?s"
      using buf by (auto simp: read_pooled_def Let_def split: option.splits poolable.splits)
    with bare_pool_conns(1) [of s bp] show ?thesis
      by (simp add: client_step_def)
  qed
qed

lemma after_write_step: "client_step tok s (after_write drop_conn tok (write_stream tok bs s))"
proof -
  have "same_conns s (snd (write_stream tok bs s))"
    by (simp add: write_stream_def case_prod_beta put_stream_conns)
  then have "client_step tok s (drop_conn tok (snd (write_stream tok bs s)))"
      "client_step tok s (snd (write_stream tok bs s))"
    by (auto intro: client_step_before)
  then show ?thesis
    by (auto simp: after_write_def split: prod.splits option.splits)
qed

lemma echo_read_step: "client_step tok r (echo_read tok res r)"
  using after_write_step by (auto simp: echo_read_def split: read_result.splits)

lemma echo_step: "client_step tok s (echo_client tok ev s)"
  by (auto simp: echo_client_def intro!: read_pooled_step echo_read_step)

lemma json_read_step: "client_step tok r (json_read K time from_slice to_vec tok res r)"
proof (cases res)
  case (Read d)
  obtain resp u where r: "handle_rpc_request K time from_slice d (bare_user r) = (resp, u)"
    by fastforce
  have "client_step tok r (r\<lparr>bare_user := u\<rparr>)"
      "client_step tok r (after_write drop_conn tok (write_stream tok bs (r\<lparr>bare_user := u\<rparr>)))" for bs
    by (rule client_step_before [OF bare_pool_conns(2)], rule client_step_drop(1))
      (rule client_step_before [OF bare_pool_conns(2)], rule after_write_step)
  with Read r show ?thesis
    by (cases "to_vec resp") (simp_all add: json_read_def Let_def)
qed (simp_all add: json_read_def)

lemma json_step: "client_step tok s (json_client K time from_slice to_vec tok ev s)"
  by (auto simp: json_client_def intro!: read_pooled_step json_read_step)

lemma same_conns_inv: "same_conns s s' \<Longrightarrow> bare_inv s \<Longrightarrow> bare_inv s'"
  by (simp add: same_conns_def bare_inv_def bare_at_def)

lemma drop_conn_inv:
  assumes "bare_inv s"
  shows "bare_inv (drop_conn tok s)"
proof (cases "tok \<in> conns s")
  case True
  then have "deregister_error (streams s tok) = None" "tok \<noteq> 1"
    using assms by (auto simp: bare_inv_def)
  then have "bare_at (drop_conn tok s) t = (if t = tok then None else bare_at s t)" for t
    using True by (auto simp: drop_conn_def deregister_stream_def deregister_def as_outcome_def bare_at_def hm_simps)
  with True assms \<open>tok \<noteq> 1\<close> show ?thesis
    unfolding bare_inv_def by (auto simp: drop_conn_def deregister_stream_def)
qed (use assms in \<open>simp add: drop_conn_def\<close>)

lemma client_step_inv: "client_step tok s s' \<Longrightarrow> bare_inv s \<Longrightarrow> bare_inv s'"
  unfolding client_step_def by (blast intro: same_conns_inv drop_conn_inv)

lemma client_step_next: "client_step tok s s' \<Longrightarrow> next_token s' = next_token s \<and> waiting_conns s' = waiting_conns s"
  by (auto simp: client_step_def same_conns_def drop_conn_def deregister_stream_def)

subsection \<open>Every run\<close>

datatype bare_input = Incoming accept_result | Net net_op

fun bare_take :: "(mio_event \<Rightarrow> 'u bare_state \<Rightarrow> 'u bare_state)
    \<Rightarrow> (token \<Rightarrow> mio_event \<Rightarrow> 'u bare_state \<Rightarrow> 'u bare_state) \<Rightarrow> bare_input \<Rightarrow> 'u bare_state \<Rightarrow> 'u bare_state" where
  "bare_take listen client (Incoming a) s = s\<lparr>waiting_conns := waiting_conns s @ [a]\<rparr>"
| "bare_take listen client (Net op) s = bare_step listen client op s"

definition tokens_due :: "bare_input list \<Rightarrow> 'u bare_state \<Rightarrow> nat" where
  "tokens_due ins s = unat (next_token s) + length (waiting_conns s) + length ins"

lemma bare_at_next:
  "bare_inv s \<Longrightarrow> unat (next_token s) \<noteq> 1 \<and> unat (next_token s) \<notin> conns s"
  unfolding bare_inv_def by fastforce

lemma bare_inv_streams:
  assumes "bare_inv s" and "deregister_error k = None" and "unat (next_token s) + 1 < 2 ^ 64"
  shows "bare_inv (s\<lparr>next_token := next_token s + 1, streams := (streams s)(tok := k)\<rparr>)"
proof -
  have "unat (next_token s + 1) = unat (next_token s) + 1"
    using assms(3) unat_add_no_wrap [of "next_token s" 1] by simp
  with assms(1,2) show ?thesis
    by (auto simp: bare_inv_def bare_at_def)
qed

lemma bare_inv_enter:
  assumes "bare_inv s" and "2 \<le> tok" and "tok \<notin> conns s" and "tok < unat (next_token s)"
    and "p = snd (register (Ok ()) tok i (Serving tok) (bare_poll s))"
  shows "bare_inv (s\<lparr>bare_poll := p, conns := insert tok (conns s)\<rparr>)"
proof -
  have "bare_at (s\<lparr>bare_poll := p, conns := insert tok (conns s)\<rparr>) t
      = (if t = tok then Some (Serving tok) else bare_at s t)" for t
    by (simp add: assms(5) bare_at_def register_def handler_entry_new_def hm_simps)
  with assms(1-4) show ?thesis
    unfolding bare_inv_def by auto
qed

lemma bare_inv_arrivals [simp]: "bare_inv (s\<lparr>waiting_conns := as\<rparr>) = bare_inv s"
  by (simp add: bare_inv_def bare_at_def)

lemma bare_accept_inv:
  "bare_inv s \<Longrightarrow> arrivals_ok as \<Longrightarrow> unat (next_token s) + length as < 2 ^ 64 \<Longrightarrow>
   bare_accept i True as s = (res, s') \<Longrightarrow>
     bare_inv s' \<and> arrivals_ok (waiting_conns s')
     \<and> unat (next_token s') + length (waiting_conns s') \<le> unat (next_token s) + length as"
proof (induction as arbitrary: s)
  case Nil
  then show ?case
    by (auto simp: arrivals_ok_def)
next
  case (Cons x rest)
  have rest: "arrivals_ok rest"
    using Cons.prems(2) by (simp add: arrivals_ok_def)
  show ?case
  proof (cases x)
    case (Accept_failed e)
    with Cons.prems rest show ?thesis
      by auto
  next
    case (Accepted a)
    let ?t = "unat (next_token s)"
    let ?s1 = "s\<lparr>next_token := next_token s + 1, streams := (streams s)(?t := stream a)\<rparr>"
    have one: "unat (next_token s + 1) = ?t + 1"
      using Cons.prems(3) unat_add_no_wrap [of "next_token s" 1] by simp
    have "deregister_error (stream a) = None"
      using Cons.prems(2) Accepted by (simp add: arrivals_ok_def)
    then have inv: "bare_inv ?s1"
      using Cons.prems(1,3) by (intro bare_inv_streams) simp_all
    show ?thesis
    proof (cases "register_error a")
      case (Some e)
      then have "s' = ?s1\<lparr>waiting_conns := rest\<rparr>"
        using Cons.prems(4) Accepted by (simp add: take_token_def register_def as_outcome_def Let_def)
      with inv rest one show ?thesis
        by simp
    next
      case None
      let ?p = "snd (register (Ok ()) ?t i (Serving ?t) (bare_poll s))"
      let ?s2 = "?s1\<lparr>bare_poll := ?p, conns := insert ?t (conns s)\<rparr>"
      have "bare_inv ?s2"
        using bare_inv_enter [OF inv _ _ _ refl, of ?t i] Cons.prems(1) bare_at_next [OF Cons.prems(1)] one
        by (simp add: bare_inv_def)
      moreover have "bare_accept i True rest ?s2 = (res, s')"
        using None Cons.prems(4) Accepted
        by (simp add: take_token_def as_outcome_def case_prod_beta Let_def)
      ultimately show ?thesis
        using Cons.IH [of ?s2] rest Cons.prems(3) one by simp
    qed
  qed
qed

text \<open>The two servers that keep a map of connections.\<close>

definition tracking :: "(mio_event \<Rightarrow> 'u bare_state \<Rightarrow> 'u bare_state)
    \<Rightarrow> (token \<Rightarrow> mio_event \<Rightarrow> 'u bare_state \<Rightarrow> 'u bare_state) \<Rightarrow> bool" where
  "tracking listen client \<longleftrightarrow>
     (\<exists>i. \<forall>ev s. listen ev s = s \<or> listen ev s = snd (bare_accept i True (waiting_conns s) s))
     \<and> (\<forall>tok ev s. client_step tok s (client tok ev s))"

lemma tracking_servers:
  "tracking echo_listen echo_client"
  "tracking json_listen (json_client K time from_slice to_vec)"
  by (auto simp: tracking_def echo_listen_def json_listen_def echo_step json_step)

lemma bare_event_inv:
  fixes ev :: mio_event
  assumes "tracking listen client" and "bare_inv s" and "arrivals_ok (waiting_conns s)"
    and "unat (next_token s) + length (waiting_conns s) < 2 ^ 64"
  defines "s' \<equiv> bare_event listen client ev s"
  shows "bare_inv s' \<and> arrivals_ok (waiting_conns s')
    \<and> unat (next_token s') + length (waiting_conns s') \<le> unat (next_token s) + length (waiting_conns s)"
proof -
  have "s' = s \<or> s' = listen ev s \<or> (\<exists>tok. s' = client tok ev s)"
  proof (cases "hm_get (registry (bare_poll s)) (event_token ev)")
    case None
    then show ?thesis
      by (simp add: s'_def bare_event_def handle_event_def)
  next
    case (Some entry)
    then show ?thesis
      by (cases "handler entry") (auto simp: s'_def bare_event_def handle_event_def bare_handling_def Let_def)
  qed
  then consider "s' = s" | "s' = listen ev s" | tok where "s' = client tok ev s"
    by blast
  then show ?thesis
  proof cases
    case 2
    then obtain i where "s' = s \<or> s' = snd (bare_accept i True (waiting_conns s) s)"
      using assms(1) unfolding tracking_def by metis
    with assms(2-4) bare_accept_inv [OF assms(2-4) prod.collapse [symmetric], of i] show ?thesis
      by auto
  next
    case 3
    then have "client_step tok s s'"
      using assms(1) by (simp add: tracking_def)
    from client_step_inv [OF this assms(2)] client_step_next [OF this] assms(3) show ?thesis
      by simp
  qed (use assms in simp)
qed

lemma bare_take_inv:
  assumes "tracking listen client" and "bare_inv s" and "arrivals_ok (waiting_conns s)"
    and "tokens_due (x # ins) s < 2 ^ 64" and "\<And>a. x = Incoming (Accepted a) \<Longrightarrow> deregister_error (stream a) = None"
  defines "s' \<equiv> bare_take listen client x s"
  shows "bare_inv s' \<and> arrivals_ok (waiting_conns s') \<and> tokens_due ins s' \<le> tokens_due (x # ins) s"
proof (cases x)
  case (Incoming a)
  with assms(2,3,5) show ?thesis
    by (auto simp: s'_def arrivals_ok_def tokens_due_def)
next
  case (Net op)
  have "bare_inv s' \<and> arrivals_ok (waiting_conns s')
      \<and> unat (next_token s') + length (waiting_conns s') \<le> unat (next_token s) + length (waiting_conns s)"
  proof (cases op)
    case (Arrives c bs)
    with Net assms(2,3) show ?thesis
      by (simp add: s'_def put_stream_def bare_inv_def bare_at_def)
  next
    case (Polled c r w)
    with Net bare_event_inv [OF assms(1-3)] assms(4) show ?thesis
      by (simp add: s'_def tokens_due_def)
  qed
  then show ?thesis
    by (simp add: tokens_due_def)
qed

lemma bare_takes_inv:
  "tracking listen client \<Longrightarrow> bare_inv s \<Longrightarrow> arrivals_ok (waiting_conns s) \<Longrightarrow> tokens_due ins s < 2 ^ 64 \<Longrightarrow>
   \<forall>a. Incoming (Accepted a) \<in> set ins \<longrightarrow> deregister_error (stream a) = None \<Longrightarrow>
     bare_inv (fold (bare_take listen client) ins s)"
proof (induction ins arbitrary: s)
  case (Cons x ins)
  have "x = Incoming (Accepted a) \<Longrightarrow> deregister_error (stream a) = None" for a
    using Cons.prems(5) by simp
  from bare_take_inv [OF Cons.prems(1-4) this] Cons show ?case
    by simp
qed simp

lemma bare_start_inv:
  assumes "bare_start None n b socks u = Some s" and "\<And>t. deregister_error (socks t) = None"
  shows "bare_inv s" "waiting_conns s = []" "next_token s = 2" "conns s = {}"
proof -
  let ?p = "snd (register (Ok ()) 1 readable_only Listening (poll_handle_new :: bare_handler poll_handle))"
  have s: "s = \<lparr>conns = {}, streams = socks, next_token = 2, bare_pool = object_pool_new n (Bytes b),
      waiting_conns = [], bare_poll = ?p, bare_user = u\<rparr>"
    using assms(1) by (simp add: bare_start_def register_def as_outcome_def LISTENER_TOKEN_def FIRST_TOKEN_def)
  then show "waiting_conns s = []" "next_token s = 2" "conns s = {}"
    by simp_all
  have "bare_at s t = (if t = 1 then Some Listening else None)" for t
    by (simp add: s bare_at_def register_def poll_handle_new_def handler_entry_new_def hm_simps)
  with assms(2) show "bare_inv s"
    by (simp add: bare_inv_def s)
qed

text \<open>The echo and the JSON-RPC server on the bare event loop keep their books: after any run,
  whatever connections come in, are refused or fail, and whatever polls report, token 1 is the
  listener's, every other token that is registered belongs to the one connection that the map holds
  under it, and the next connection gets a token that none has had.\<close>

theorem bare_server_consistent:
  assumes "bare_start None n b socks u = Some s0" and "\<And>t. deregister_error (socks t) = None"
    and "listen = echo_listen \<and> client = echo_client
      \<or> listen = json_listen \<and> client = json_client K time from_slice to_vec"
    and "\<forall>a. Incoming (Accepted a) \<in> set ins \<longrightarrow> deregister_error (stream a) = None"
    and "length ins + 2 < 2 ^ 64"
    and "s = fold (bare_take listen client) ins s0"
  shows "(\<forall>t. bare_at s t = Some Listening \<longleftrightarrow> t = 1)
    \<and> (\<forall>t t'. bare_at s t = Some (Serving t') \<longleftrightarrow> t' = t \<and> t \<in> conns s)
    \<and> (\<forall>t \<in> conns s. 2 \<le> t \<and> t < unat (next_token s))"
proof -
  note start = bare_start_inv [OF assms(1,2)]
  have "tracking listen client"
    using assms(3) tracking_servers by metis
  then have "bare_inv s"
    unfolding assms(6) using start assms(4,5)
    by (intro bare_takes_inv) (simp_all add: arrivals_ok_def tokens_due_def)
  then show ?thesis
    unfolding bare_inv_def by blast
qed

text \<open>A client's handler is registered before the map holds its stream: an event that comes in
  between finds no stream and is lost, and what had arrived waits for the next one.\<close>

theorem early_event_lost:
  assumes "tok \<notin> conns s" and "tok \<notin> conns t"
  shows "echo_client tok ev s = s \<and> json_client K time from_slice to_vec tok ev t = t"
  using assms by (auto simp: echo_client_def json_client_def)

subsection \<open>Samples\<close>

definition fresh_conn :: pending_conn where
  "fresh_conn = \<lparr>peer = ''p'', stream = fresh_socket [], nodelay_error = None, register_error = None\<rparr>"

definition bare_inputs :: "bare_input list" where
  "bare_inputs = [Incoming (Accepted fresh_conn), Net (Polled 1 True False), Net (Arrives 2 [1]), Net (Polled 2 True False)]"

lemma bare_started: "\<exists>s0. bare_start None n b socks u = Some s0"
  by (simp add: bare_start_def register_def as_outcome_def)

theorem bare_server_consistent_witness:
  "bare_at (fold (bare_take echo_listen echo_client) bare_inputs
     (the (bare_start None 10 [] (\<lambda>_. fresh_socket []) \<lparr>data_store = (), clock_reads = 0\<rparr>))) 1 = Some Listening"
proof -
  obtain s0 where s0: "bare_start None 10 [] (\<lambda>_. fresh_socket []) \<lparr>data_store = (), clock_reads = 0\<rparr> = Some s0"
    using bare_started by metis
  have "\<forall>a. Incoming (Accepted a) \<in> set bare_inputs \<longrightarrow> deregister_error (stream a) = None"
    by (simp add: bare_inputs_def fresh_conn_def fresh_socket_def)
  moreover have "deregister_error (fresh_socket []) = None" "length bare_inputs + 2 < 2 ^ 64"
    by (simp_all add: fresh_socket_def bare_inputs_def)
  ultimately show ?thesis
    using bare_server_consistent [OF s0 _ _ _ _ refl, where listen = echo_listen and client = echo_client and ins = bare_inputs] by (simp add: s0)
qed

text \<open>One connection of each server, in the state in which it serves.\<close>

definition bare_one :: "'u \<Rightarrow> 'u bare_state" where
  "bare_one u = \<lparr>conns = {1}, streams = (\<lambda>_. fresh_socket []), next_token = 2,
     bare_pool = object_pool_new 10 (Bytes []), waiting_conns = [],
     bare_poll = \<lparr>registry = hm_insert 1 \<lparr>handler = Serving 1, entry_interest = readable_only\<rparr> []\<rparr>, bare_user = u\<rparr>"

lemma bare_one_facts:
  "bare_working True {1} (\<lambda>_. 65536) (bare_one u)" "bare_stream (bare_one u) = stream_of (one_open u)"
  by (simp_all add: bare_working_def bare_one_def fresh_socket_def bytes_only_def object_pool_new_def
      hm_simps readable_only_def bare_stream_def stream_of_def one_open_def)

theorem json_servers_agree_witness:
  "sent (bare_stream (bare_run json_listen (json_client list_store (\<lambda>n. 0) sample_reader sample_writer)
     (one_chunk [1]) (bare_one \<lparr>data_store = [], clock_reads = 0\<rparr>))) 1
   = outgoing (sockets (net_run tcp_server_config_default (json_handler list_store (\<lambda>n. 0) sample_reader sample_writer)
     (one_chunk [1]) (one_open \<lparr>data_store = [], clock_reads = 0\<rparr>)) 1)"
proof -
  let ?u = "\<lparr>data_store = [] :: (str, str) hmap, clock_reads = 0\<rparr>"
  let ?f = "json_answer list_store (\<lambda>n. 0) sample_reader sample_writer"
  have "all_reads (queued (stream_of (one_open ?u))) (one_chunk [1]) = [(1, [1])]"
    by (simp add: stream_of_def one_chunk_def one_open_def fresh_socket_def IO_BUFFER_SIZE_def)
  moreover obtain r u where "?f 1 [1] (owned (stream_of (one_open ?u))) = ([0], u)" "r = [0 :: u8]"
    by (simp add: stream_of_def one_open_facts json_answer_def handle_rpc_request_def sample_reader_def
        process_request_def printed_def sample_writer_def)
  ultimately have "answer_all ?f (all_reads (queued (stream_of (one_open ?u))) (one_chunk [1]))
      (owned (stream_of (one_open ?u))) = ([[0]], u)"
    by simp
  from run_answers [OF this, of 1]
  have "\<forall>c \<in> {1}. length (sent (stream_run ?f (one_chunk [1]) (stream_of (one_open ?u))) c) \<le> (\<lambda>_. 65536) c"
    by (simp add: stream_of_def one_open_facts answers_to_def split: list.splits)
      (simp add: one_chunk_def one_open_def fresh_socket_def IO_BUFFER_SIZE_def)
  from json_servers_agree [OF one_open_facts(1) bare_one_facts one_chunk_about refl this, of tcp_server_config_default]
  show ?thesis
    by (simp add: stream_of_def)
qed

end
