(* ===== verification/File_Watcher.thy ===== *)
theory File_Watcher
  imports Bare_Server Event_Loop
begin

section \<open>The file watcher\<close>

text \<open>
  \<^verbatim>\<open>mill-io/examples/file_watcher.rs\<close> on Linux. inotify is the kernel's: whether it takes a path,
  and how many events a read returns, are inputs, and the queue says under which path each event
  happened, which the code does not look at. What is printed about files is kept as a list; other
  printing is left out, and so are poisoned locks.
\<close>

subsection \<open>State\<close>

datatype file_event = Created str | Modified str | Deleted str

datatype event_mask = MODIFY | CREATE | DELETE | MOVED_TO | MOVED_FROM | Other_event

record inotify_event =
  ev_name :: "str option"
  ev_mask :: "event_mask set"

record file_event_handler =
  fh_token :: token
  fh_path :: str

record watcher =
  watches :: "(token, str) hmap"
  fw_token :: usize
  watched :: "str list"
  fw_queue :: "(str \<times> inotify_event) list"
  fw_poll :: "file_event_handler poll_handle"
  reported :: "file_event list"

definition watcher_new :: watcher where
  "watcher_new = \<lparr>watches = [], fw_token = 1, watched = [], fw_queue = [], fw_poll = poll_handle_new, reported = []\<rparr>"

subsection \<open>Watching\<close>

text \<open>The descriptor that is registered is that of the one inotify instance.\<close>

definition watch_path :: "string option \<Rightarrow> string option \<Rightarrow> str \<Rightarrow> watcher \<Rightarrow> string option \<times> watcher" where
  "watch_path add_error register_err path s =
     (let tok = unat (fw_token s);
          s = s\<lparr>fw_token := fw_token s + 1\<rparr>
      in case add_error of
           Some e \<Rightarrow> (Some e, s)
         | None \<Rightarrow>
             let s = s\<lparr>watched := watched s @ [path]\<rparr>;
                 (res, p) = register (as_outcome register_err) tok readable_only
                    \<lparr>fh_token = tok, fh_path = path\<rparr> (fw_poll s);
                 s = s\<lparr>fw_poll := p\<rparr>
             in case register_err of
                  Some e \<Rightarrow> (Some e, s)
                | None \<Rightarrow> (None, s\<lparr>watches := hm_insert tok path (watches s)\<rparr>))"

definition list_watches :: "watcher \<Rightarrow> str list" where
  "list_watches s = map snd (watches s)"

subsection \<open>Events\<close>

text \<open>\<open>Path::join\<close> with the name of an entry, which is not absolute.\<close>

definition path_join :: "str \<Rightarrow> str \<Rightarrow> str" where
  "path_join p n = (if p = [] \<or> last p = of_char (CHR ''/'') then p @ n else p @ of_char (CHR ''/'') # n)"

definition process_file_event :: "file_event_handler \<Rightarrow> inotify_event \<Rightarrow> watcher \<Rightarrow> watcher" where
  "process_file_event h ev s =
     (let file_path = (case ev_name ev of Some name \<Rightarrow> path_join (fh_path h) name | None \<Rightarrow> fh_path h);
          mask = ev_mask ev
      in if CREATE \<in> mask \<or> MOVED_TO \<in> mask then s\<lparr>reported := reported s @ [Created file_path]\<rparr>
         else if MODIFY \<in> mask then s\<lparr>reported := reported s @ [Modified file_path]\<rparr>
         else if DELETE \<in> mask \<or> MOVED_FROM \<in> mask then s\<lparr>reported := reported s @ [Deleted file_path]\<rparr>
         else s)"

text \<open>\<open>None\<close> when reading fails, and otherwise how many of the waiting events fit into the buffer.\<close>

definition handle_watch_event :: "nat option \<Rightarrow> file_event_handler \<Rightarrow> mio_event \<Rightarrow> watcher \<Rightarrow> watcher" where
  "handle_watch_event read h ev s =
     (if event_token ev \<noteq> fh_token h then s
      else if is_readable ev then
        case read of
          Some n \<Rightarrow>
            fold (process_file_event h) (map snd (take n (fw_queue s))) (s\<lparr>fw_queue := drop n (fw_queue s)\<rparr>)
        | None \<Rightarrow> s
      else s)"

definition watch_handling :: "nat option \<Rightarrow> (file_event_handler, watcher) handling" where
  "watch_handling read h ev w = (let s = handle_watch_event read h ev ((snd w)\<lparr>fw_poll := fst w\<rparr>) in (fw_poll s, s))"

definition watch_event :: "nat option \<Rightarrow> mio_event \<Rightarrow> watcher \<Rightarrow> watcher" where
  "watch_event read ev s = snd (handle_event (watch_handling read) ev (fw_poll s, s))"

subsection \<open>What is reported\<close>

definition report :: "str \<Rightarrow> inotify_event \<Rightarrow> file_event list" where
  "report p ev =
     (let file = (case ev_name ev of Some n \<Rightarrow> path_join p n | None \<Rightarrow> p) in
      if ev_mask ev \<inter> {CREATE, MOVED_TO} \<noteq> {} then [Created file]
      else if MODIFY \<in> ev_mask ev then [Modified file]
      else if ev_mask ev \<inter> {DELETE, MOVED_FROM} \<noteq> {} then [Deleted file]
      else [])"

lemma process_report: "process_file_event h ev s = s\<lparr>reported := reported s @ report (fh_path h) ev\<rparr>"
  by (auto simp: process_file_event_def report_def Let_def)

lemma process_all: "fold (process_file_event h) evs s = s\<lparr>reported := reported s @ concat (map (report (fh_path h)) evs)\<rparr>"
  by (induction evs arbitrary: s) (simp_all add: process_report)

lemma watch_one:
  assumes "watch_path None None path s = (r, s')"
  shows "r = None \<and> watched s' = watched s @ [path] \<and> fw_queue s' = fw_queue s \<and> reported s' = reported s
    \<and> hm_get (registry (fw_poll s')) (unat (fw_token s)) = Some \<lparr>handler = \<lparr>fh_token = unat (fw_token s),
        fh_path = path\<rparr>, entry_interest = readable_only\<rparr>"
  using assms by (auto simp: watch_path_def register_def as_outcome_def handler_entry_new_def hm_simps Let_def)

text \<open>A path that is watched: each event read is reported once, in order, under that path, by what
  it did; renaming counts as deletion at the old place and creation at the new one.\<close>

theorem watched_reported:
  assumes "watch_path None None path s = (r, s1)" and "event_token ev = unat (fw_token s)" and "is_readable ev"
    and "s2 = s1\<lparr>fw_queue := map (Pair path) evs\<rparr>" and "s3 = watch_event (Some n) ev s2"
  shows "reported s3 = reported s @ concat (map (report path) (take n evs)) \<and> map snd (fw_queue s3) = drop n evs"
proof -
  note one = watch_one [OF assms(1)]
  have "s3 = fold (process_file_event \<lparr>fh_token = unat (fw_token s), fh_path = path\<rparr>) (take n evs)
      (s2\<lparr>fw_queue := map (Pair path) (drop n evs)\<rparr>)"
    using one assms(2-5)
    by (simp add: watch_event_def handle_event_def watch_handling_def handle_watch_event_def interested_def
        readable_only_def take_map drop_map comp_def Let_def)
  then show ?thesis
    using one assms(4) by (simp add: process_all comp_def)
qed

text \<open>Watching a second path registers the same descriptor again, which the poller refuses: inotify
  then watches the path, no handler has it, and the handler of the first path reports its events as
  if they had happened there.\<close>

theorem second_path_misreported:
  assumes "watch_path None None p s = (r, s1)" and "watch_path None (Some e) q s1 = (r', s2)"
    and "event_token ev = unat (fw_token s)" and "is_readable ev"
    and "s3 = watch_event (Some 1) ev (s2\<lparr>fw_queue := [(q, x)]\<rparr>)"
  shows "q \<in> set (watched s2) \<and> watches s2 = watches s1 \<and> reported s3 = reported s @ report p x"
proof -
  note one = watch_one [OF assms(1)]
  have two: "s2 = s1\<lparr>fw_token := fw_token s1 + 1, watched := watched s1 @ [q]\<rparr>"
    using assms(2) by (auto simp: watch_path_def register_def as_outcome_def Let_def)
  then have "s3 = process_file_event \<lparr>fh_token = unat (fw_token s), fh_path = p\<rparr> x (s2\<lparr>fw_queue := []\<rparr>)"
    using one assms(3-5)
    by (simp add: watch_event_def handle_event_def watch_handling_def handle_watch_event_def interested_def
        readable_only_def Let_def)
  with one two show ?thesis
    by (simp add: process_report)
qed

theorem second_path_misreported_witness:
  "reported (watch_event (Some 1) (readable_event 1)
     ((snd (watch_path None (Some ''File exists (os error 17)'') (lit ''b'') (snd (watch_path None None (lit ''a'') watcher_new))))
        \<lparr>fw_queue := [(lit ''b'', \<lparr>ev_name = Some (lit ''f''), ev_mask = {CREATE}\<rparr>)]\<rparr>))
   = [Created (lit ''a/f'')]"
proof -
  have "event_token (readable_event 1) = unat (fw_token watcher_new)" "is_readable (readable_event 1)"
    by (simp_all add: readable_event_def watcher_new_def)
  from second_path_misreported [OF prod.collapse [symmetric] prod.collapse [symmetric] this refl]
  show ?thesis
    by (simp add: report_def path_join_def lit_def watcher_new_def)
qed

end
