(* ===== verification/Spec2Isabelle.thy ===== *)
theory Spec2Isabelle
  imports Wire Timer_Props Loop_Server Object_Pool Tcp_Races Counter_Clients Client_Scripts Compute_Server File_Watcher
begin

text \<open>
  A verification library for the Mill crates: an event loop with timers and worker pools
  (\<^verbatim>\<open>mill-io\<close>), TCP servers and clients over it (\<^verbatim>\<open>mill-net\<close>), and
  remote procedure calls over those (\<^verbatim>\<open>mill-rpc\<close> with \<^verbatim>\<open>mill-rpc-core\<close> and
  \<^verbatim>\<open>mill-rpc-macros\<close>). Paths below are those of the repository.

  \<^bold>\<open>How the parts interact.\<close> The reactor polls mio, hands each event to the handler registered
  under the event's token, at once or through the thread pool, and then ticks the timer wheel.
  The TCP server registers a listener and one handler per connection in that registry; the
  handlers read into buffers of the object pool and call the user's \<open>NetworkHandler\<close>, which
  reaches the server back through its context. The RPC server is such a handler: it cuts the
  bytes of a connection into frames of the wire protocol, dispatches requests to services and
  sends the answers; the RPC client matches answers to waiting calls. The service macro generates
  the dispatcher of a service and the stubs that call it.

  \<^bold>\<open>Theories, in the order of the code.\<close>
  \<^item> \<open>Prelude\<close>: machine integers as words, byte strings, hash maps as association lists (with the
    locale \<open>hash_map\<close>), the locale \<open>fixed_width\<close> of little-endian encodings, \<open>outcome\<close>.
  \<^item> \<open>Wire\<close> (\<^verbatim>\<open>mill-rpc-core/src\<close>): errors, headers, frames, the streaming parser. Its
    locale \<open>stream_parser\<close> says why the cutting of a stream does not matter.
  \<^item> \<open>Timer_Wheel\<close> (\<^verbatim>\<open>mill-io/src/timer_wheel.rs\<close>): the hierarchical wheel and its
    operations. \<open>Wheel_Placement\<close>, \<open>Wheel_Advance\<close> and \<open>Wheel_Ids\<close> prove its invariant and
    what advancing returns; \<open>Timer_Service\<close>, \<open>Timer_Ops\<close> and \<open>Timer_Tick\<close> the operations and
    \<open>tick\<close> against the locale \<open>deadline_queue\<close>; \<open>Timer_Races\<close> the interleaving of its critical
    sections; \<open>Timer_Samples\<close> and \<open>Timer_Props\<close> the witnesses and the properties.
  \<^item> \<open>Thread_Pool\<close> and \<open>Compute_Pool\<close> (\<^verbatim>\<open>thread_pool.rs\<close>): round-robin channels with
    their workers, and the priority pool as a step relation of its threads, its heap behind the
    locale \<open>priority_queue\<close>. \<open>Object_Pool\<close> (\<^verbatim>\<open>object_pool.rs\<close>).
  \<^item> \<open>Reactor\<close> and \<open>Event_Loop\<close> (\<^verbatim>\<open>poll.rs\<close>, \<^verbatim>\<open>handler.rs\<close>, \<^verbatim>\<open>reactor.rs\<close>,
    \<^verbatim>\<open>lib.rs\<close>): registry, dispatch on both paths, the loop, and the public interface.
  \<^item> \<open>Net_Types\<close>, \<open>Tcp_Server\<close>, \<open>Tcp_Effects\<close>, \<open>Tcp_Props\<close>, \<open>Tcp_Races\<close> and \<open>Tcp_Client\<close>
    (\<^verbatim>\<open>mill-net/src\<close>): a handler of the user is a record of functions on the whole state of
    the server. \<open>polite_handler\<close> is the contract that its methods use their context only, proved
    for the echo handler of the documentation and for the handler of the RPC server;
    \<open>client_handler\<close> is that of the client. \<open>Tcp_Stream\<close> takes handlers that answer what they
    read, its locale \<open>answering\<close>, through sockets, poll, registry and buffers; the echo handler,
    the HTTP server and the RPC server are interpretations. \<open>Tcp_Races\<close> lets any event fall
    between the stages of an accept.
  \<^item> \<open>Rpc_Server\<close>, \<open>Rpc_Client\<close>, \<open>Rpc_System\<close> (\<^verbatim>\<open>mill-rpc/src\<close>): the builder, the
    handlers, calls; the refinement of a reference server on lists of frames; calls through
    client, wire and server.
  \<^item> \<open>Rpc_Macro\<close> (\<^verbatim>\<open>mill-rpc-macros/src/lib.rs\<close>): the checks, the generated items as data, and
    a semantics of the generated dispatcher and client.
  \<^item> \<open>Rpc_Stack\<close>: the RPC server under the event loop, and a call of a generated stub through
    everything. \<open>Rpc_Workers\<close>: the same server under several workers, each read cut into the
    critical sections of \<open>handle_read\<close> and \<open>on_data\<close>, which interleave.
  \<^item> \<open>Rpc_Services\<close> (\<^verbatim>\<open>mill-rpc/examples\<close>): the services of the example servers, from
    their declarations to their implementations. \<open>Client_Scripts\<close>: the example clients as series of
    calls, with what they return. \<open>Counter_Clients\<close>: clients that call at the same time.
  \<^item> \<open>Rust_Text\<close> and \<open>Http_Server\<close> (\<^verbatim>\<open>mill-net/examples/tcp_http_server.rs\<close>): UTF-8 and the
    functions on strings, requests, responses and the handler of the HTTP server.
  \<^item> \<open>Loop_Timers\<close>: what the turns of a run of the event loop fire; a timer followed through it,
    from \<open>schedule_once\<close> to its one callback, while other callbacks schedule and cancel.
    \<open>Loop_Server\<close> runs the TCP server inside the turns, with bytes arriving between the polls.
  \<^item> \<open>Json_Rpc\<close> (\<^verbatim>\<open>mill-net/examples/tcp_jsonrpc_server.rs\<close>): the JSON-RPC server over the TCP
    server, its store behind the locale \<open>key_store\<close>.
  \<^item> \<open>Bare_Server\<close> (\<^verbatim>\<open>mill-io/examples/scratch_*.rs\<close>): the echo, HTTP and JSON-RPC servers that use
    the event loop directly. Their locale \<open>bare_answering\<close> refines the same machine of streams as
    \<open>answering\<close>, so each is the same for its clients as its counterpart over the TCP server.
  \<^item> \<open>Compute_Server\<close> (\<^verbatim>\<open>mill-io/examples/compute_pool.rs\<close>): HTTP requests that submit tasks to the
    compute pool. \<open>File_Watcher\<close> (\<^verbatim>\<open>mill-io/examples/file_watcher.rs\<close>).

  \<^bold>\<open>What the properties show.\<close> The wire format accepts exactly what it writes, and frames do not
  depend on how the stream is cut. A timer fires exactly once after its deadline and never
  before, in every interleaving, and a cancel is final except in the one gap the code leaves.
  Both pools run every task; the order, the metrics and the effect of a panic are exact. The
  reactor never sleeps past a deadline, its two dispatch paths agree, and a timer scheduled on the
  event loop fires once in its run. The server's registry
  and its connections correspond, counts stay within the limit, also when other events meet an
  accept half-way as long as \<open>on_connect\<close> does not fail, sends and reads do exactly what
  their sockets allow, and a failing connection leaves no trace. The RPC server refines its
  reference, answers every two-way request once under its id, and a call returns what the
  service returned; the generated stub and dispatcher agree on ids and types, and a stub called
  over the whole stack returns what the implementation of its method returned. Under several
  workers the server still answers each connection in order, provided that no two of them are with
  the same connection; without that, requests are lost. Of the examples, concurrent clients lose no
  update,
  the key-value store is a map for its clients, \<open>is_prime\<close> ends and decides as long as its square
  does not wrap, and the HTTP server understands what is written in the format of HTTP and answers
  each read by one response that a client can cut off; the clients of the JSON-RPC server share one
  map, on either way to build it, and the tasks that requests ask for leave the compute pool by
  priority. The other theorems
  state where the code does less than it means to; the manifest lists these as findings.

  \<^bold>\<open>Conventions.\<close> Integers are kept at their width and wrap, as in a release build. Time is in
  nanoseconds. Sequential operations are functions on states; where threads interleave
  (\<open>Timer_Races\<close>, \<open>Compute_Pool\<close>, \<open>Thread_Pool\<close>, \<open>Tcp_Races\<close>, \<open>Rpc_Workers\<close>, the waits of a call) the
  critical sections are steps, or what other threads do is a list of operations. A loop of the
  code is a recursive function with a termination proof, or it recurses over the list of what
  it meets: the turns of the reactor (\<open>None\<close> while it is still running), the connections of a
  backlog, the attempts of a compare-and-exchange, the waits of a call (\<open>Waiting\<close> while none has
  ended it). No fuel is used.

  \<^bold>\<open>Parameters.\<close> mio and the sockets of the operating system: what a poll returns, whether a
  registration is accepted and what a stream reads and takes are inputs or fields of a state.
  bincode is a pair of functions, related by \<open>faithful_codec\<close> or \<open>lossless\<close> where a property
  needs it to decode what it encoded; serde_json is a reader and a writer, the concurrent map of
  lockfree a record of operations. What inotify accepts and returns is an input. Upper- and lower-casing beyond ASCII are functions. Services, callbacks, tasks and handlers are arguments.

  \<^bold>\<open>Not modelled.\<close> Logging; the memory behind \<open>Arc\<close> and \<open>Weak\<close> except whether the event loop is
  still alive; the mutexes of streams, with the deadlocks a handler could cause by using its own
  client inside a callback; Unicode in the names the macro converts; floating point, an argument in the
  calculator; what the examples print; the benchmarks and the tests, which measure and drive the
  libraries; re-exports and the build script.
\<close>

end
